(* ===== verification/Prelude.thy ===== *)
theory Prelude
  imports Main "HOL-Library.Word" "HOL-Library.Monad_Syntax" "HOL-Library.Multiset"
    "HOL-Library.Signed_Division"
begin

text \<open>
  Shared vocabulary of the development: the machine types of the C++ code, undefined
  behaviour as an option value, bounded \<open>int\<close> arithmetic, character classes, the decimal
  printer behind \<open>std::to_string\<close>, and little-endian byte sequences.
\<close>

section \<open>Machine types\<close>

type_synonym byte = "8 word"
type_synonym u16 = "16 word"
type_synonym u32 = "32 word"
type_synonym u64 = "64 word"

named_theorems flag_simps \<open>reading a flag word after an update\<close>
named_theorems buffer_simps \<open>the queue view of the linear buffer\<close>
named_theorems ub_simps \<open>evaluation of checked operations inside their domain\<close>

section \<open>Undefined behaviour\<close>

text \<open>
  A C++ expression with undefined behaviour (a read outside a string, a write outside an
  array, a signed overflow) has the value \<^const>\<open>None\<close>; the code that surrounds it is
  sequenced with the option monad, so one undefined step makes the whole call \<^const>\<open>None\<close>.
\<close>

type_synonym 'a ub = "'a option"

definition c_or :: "bool ub \<Rightarrow> bool ub \<Rightarrow> bool ub" where
  "c_or a b = do { x \<leftarrow> a; if x then Some True else b }"

definition c_and :: "bool ub \<Rightarrow> bool ub \<Rightarrow> bool ub" where
  "c_and a b = do { x \<leftarrow> a; if x then b else Some False }"

lemma c_or_simps [simp]:
  "c_or (Some True) b = Some True" "c_or (Some False) b = b"
  by (simp_all add: c_or_def)

lemma c_and_simps [simp]:
  "c_and (Some False) b = Some False" "c_and (Some True) b = b"
  by (simp_all add: c_and_def)

lemma c_or_Some: "c_or (Some x) (Some y) = Some (x \<or> y)"
  by (cases x) simp_all

lemma c_and_Some: "c_and (Some x) (Some y) = Some (x \<and> y)"
  by (cases x) simp_all

lemma c_or_cong [fundef_cong]:
  "a = a' \<Longrightarrow> (a' = Some False \<Longrightarrow> b = b') \<Longrightarrow> c_or a b = c_or a' b'"
  by (cases a') (auto simp: c_or_def)

lemma c_and_cong [fundef_cong]:
  "a = a' \<Longrightarrow> (a' = Some True \<Longrightarrow> b = b') \<Longrightarrow> c_and a b = c_and a' b'"
  by (cases a') (auto simp: c_and_def)

text \<open>\<open>int\<close> arithmetic: a result outside 32 bits is undefined.\<close>

definition int_max :: int where "int_max = 2147483647"

definition int_min :: int where "int_min = -2147483648"

definition add_int :: "int \<Rightarrow> int \<Rightarrow> int ub" where
  "add_int a b = (if int_min \<le> a + b \<and> a + b \<le> int_max then Some (a + b) else None)"

text \<open>\<open>s[i]\<close> on a \<open>std::string_view\<close> is undefined outside \<open>[0, s.size())\<close>.\<close>

definition char_at :: "string \<Rightarrow> int \<Rightarrow> char ub" where
  "char_at s i = (if 0 \<le> i \<and> i < int (length s) then Some (s ! nat i) else None)"

text \<open>\<open>static_cast<int>(s.size())\<close> keeps the low 32 bits of the size.\<close>

definition int_size :: "'a list \<Rightarrow> int" where
  "int_size s = signed_take_bit 31 (int (length s))"

lemma int_size_eq: "length s < 2147483648 \<Longrightarrow> int_size s = int (length s)"
  unfolding int_size_def by (rule signed_take_bit_int_eq_self) auto

lemma add_int_Some [ub_simps]: "0 \<le> a \<Longrightarrow> 0 \<le> b \<Longrightarrow> a + b \<le> int_max \<Longrightarrow> add_int a b = Some (a + b)"
  by (simp add: add_int_def int_min_def)

lemma char_at_Some [ub_simps]:
  "0 \<le> i \<Longrightarrow> i < int (length s) \<Longrightarrow> char_at s i = Some (s ! nat i)"
  by (simp add: char_at_def)

section \<open>Characters and decimal numerals\<close>

definition is_digit :: "char \<Rightarrow> bool" where
  "is_digit c \<longleftrightarrow> 48 \<le> (of_char c :: nat) \<and> (of_char c :: nat) \<le> 57"

text \<open>\<open>c - '0'\<close> for a digit \<open>c\<close>.\<close>

definition digit_val :: "char \<Rightarrow> nat" where
  "digit_val c = (of_char c :: nat) - 48"

definition digit_char :: "nat \<Rightarrow> char" where
  "digit_char n = char_of (48 + n)"

lemma digit_val_less: "is_digit c \<Longrightarrow> digit_val c < 10"
  by (auto simp: is_digit_def digit_val_def)

lemma of_digit_char: "n < 10 \<Longrightarrow> of_char (digit_char n) = (48 + n :: nat)"
  by (simp add: digit_char_def of_char_of)

lemma is_digit_digit_char [simp]: "n < 10 \<Longrightarrow> is_digit (digit_char n)"
  by (simp add: is_digit_def of_digit_char)

lemma digit_val_digit_char [simp]: "n < 10 \<Longrightarrow> digit_val (digit_char n) = n"
  by (simp add: digit_val_def of_digit_char)

text \<open>The number a digit string stands for, most significant digit first.\<close>

definition decimal :: "string \<Rightarrow> nat" where
  "decimal ds = foldl (\<lambda>v c. 10 * v + digit_val c) 0 ds"

lemma decimal_Nil [simp]: "decimal [] = 0"
  by (simp add: decimal_def)

lemma decimal_snoc [simp]: "decimal (ds @ [c]) = 10 * decimal ds + digit_val c"
  by (simp add: decimal_def)

lemma foldl_decimal:
  "foldl (\<lambda>v c. 10 * v + digit_val c) a ds = a * 10 ^ length ds + decimal ds"
proof (induction ds rule: rev_induct)
  case Nil
  then show ?case by simp
next
  case (snoc c ds)
  then show ?case by (simp add: algebra_simps)
qed

lemma decimal_Cons: "decimal (c # ds) = digit_val c * 10 ^ length ds + decimal ds"
  using foldl_decimal [of "digit_val c" ds] by (simp add: decimal_def)

lemma decimal_append: "decimal (xs @ ys) = decimal xs * 10 ^ length ys + decimal ys"
  using foldl_decimal [of "decimal xs" ys] by (simp add: decimal_def)

lemma decimal_bound: "list_all is_digit ds \<Longrightarrow> decimal ds < 10 ^ length ds"
proof (induction ds rule: rev_induct)
  case Nil
  then show ?case by simp
next
  case (snoc c ds)
  then have "decimal ds < 10 ^ length ds" and "digit_val c < 10"
    by (simp_all add: digit_val_less)
  then show ?case by simp
qed

text \<open>\<open>std::to_string\<close> of an unsigned value and of an \<open>int\<close>.\<close>

fun to_string_nat :: "nat \<Rightarrow> string" where
  "to_string_nat n =
     (if n < 10 then [digit_char n] else to_string_nat (n div 10) @ [digit_char (n mod 10)])"

declare to_string_nat.simps [simp del]

definition to_string_int :: "int \<Rightarrow> string" where
  "to_string_int i = (if i < 0 then CHR ''-'' # to_string_nat (nat (- i)) else to_string_nat (nat i))"

lemma to_string_nat_digits: "list_all is_digit (to_string_nat n)"
proof (induction n rule: to_string_nat.induct)
  case (1 n)
  then show ?case by (cases "n < 10") (simp_all add: to_string_nat.simps [of n])
qed

lemma to_string_nat_not_Nil [simp]: "to_string_nat n \<noteq> []"
  by (simp add: to_string_nat.simps [of n])

lemma decimal_to_string_nat [simp]: "decimal (to_string_nat n) = n"
proof (induction n rule: to_string_nat.induct)
  case (1 n)
  then show ?case
    by (cases "n < 10") (simp_all add: to_string_nat.simps [of n] decimal_Cons)
qed

lemma to_string_nat_inject [simp]: "to_string_nat m = to_string_nat n \<longleftrightarrow> m = n"
  by (metis decimal_to_string_nat)

section \<open>Lists\<close>

text \<open>Texts joined by a separator.\<close>

fun join :: "string \<Rightarrow> string list \<Rightarrow> string" where
  "join sep [] = []"
| "join sep [x] = x"
| "join sep (x # y # zs) = x @ sep @ join sep (y # zs)"

lemma takeWhile_append_stop:
  "list_all P xs \<Longrightarrow> (ys = [] \<or> \<not> P (hd ys)) \<Longrightarrow> takeWhile P (xs @ ys) = xs"
  by (induction xs) (auto simp: takeWhile_eq_Nil_iff)

lemma drop_nth_Cons: "i < length s \<Longrightarrow> drop i s = s ! i # drop (Suc i) s"
  by (rule Cons_nth_drop_Suc [symmetric])

section \<open>Little-endian byte sequences\<close>

fun le_bytes :: "nat \<Rightarrow> nat \<Rightarrow> byte list" where
  "le_bytes 0 v = []"
| "le_bytes (Suc n) v = of_nat v # le_bytes n (v div 256)"

fun of_le_bytes :: "byte list \<Rightarrow> nat" where
  "of_le_bytes [] = 0"
| "of_le_bytes (b # bs) = unat b + 256 * of_le_bytes bs"

lemma length_le_bytes [simp]: "length (le_bytes n v) = n"
  by (induction n arbitrary: v) simp_all

lemma of_le_bytes_le_bytes [simp]: "of_le_bytes (le_bytes n v) = v mod 256 ^ n"
proof (induction n arbitrary: v)
  case 0
  then show ?case by simp
next
  case (Suc n)
  have "v mod 256 + 256 * (v div 256 mod 256 ^ n) = v mod (256 * 256 ^ n)"
    by (simp add: mod_mult2_eq)
  with Suc show ?case by (simp add: unat_of_nat)
qed

lemma unat_byte_less: "unat (b :: byte) < 256"
  using unsigned_less [of b] by simp

lemma of_le_bytes_bound: "of_le_bytes bs < 256 ^ length bs"
proof (induction bs)
  case Nil
  then show ?case by simp
next
  case (Cons b bs)
  have "unat b < 256" by (rule unat_byte_less)
  with Cons show ?case by simp
qed

lemma le_bytes_of_le_bytes [simp]: "le_bytes (length bs) (of_le_bytes bs) = bs"
proof (induction bs)
  case Nil
  then show ?case by simp
next
  case (Cons b bs)
  have b: "unat b < 256" by (rule unat_byte_less)
  have "(of_nat (unat b + 256 * of_le_bytes bs) :: byte) = b"
  proof -
    have z: "(256 :: byte) = 0" by simp
    show ?thesis by (simp add: z [THEN arg_cong, of "\<lambda>z. z * _", simplified mult_zero_left])
  qed
  moreover have "(unat b + 256 * of_le_bytes bs) div 256 = of_le_bytes bs"
    using b by simp
  ultimately show ?case using Cons by simp
qed

end
