(* ===== verification/Timestamp_Steps.thy ===== *)
theory Timestamp_Steps
  imports Prelude
begin

text \<open>
  \<open>eestv/timestamp/timestamp_parser.{hpp,cpp}\<close>, first part: \<open>DateAndTime\<close>, the digit readers
  and the parser steps. A step is the C++ closure as a HOL function from the input, the index
  and the current values of its two reference parameters to the returned flag and the new
  values of the parameters, or \<^const>\<open>None\<close> for undefined behaviour. Each maker is proved to
  implement a reference parser over the unread suffix of the input.
\<close>

section \<open>Data\<close>

record DateAndTime =
  year :: int
  month :: u32
  day :: u32
  hour :: u32
  minute :: u32
  second :: u32
  nanosecond :: u32
  utc_offset_minutes :: "int option"
  leap_second :: bool

definition DateAndTime_init :: DateAndTime where
  "DateAndTime_init = \<lparr>year = 0, month = 0, day = 0, hour = 0, minute = 0, second = 0,
     nanosecond = 0, utc_offset_minutes = None, leap_second = False\<rparr>"

type_synonym parser_step = "string \<Rightarrow> int \<Rightarrow> int \<Rightarrow> DateAndTime \<Rightarrow> (bool \<times> int \<times> DateAndTime) ub"

section \<open>Readers\<close>

definition to_lower_ascii :: "char \<Rightarrow> char" where
  "to_lower_ascii c =
     (let n = of_char c :: nat in if 65 \<le> n \<and> n \<le> 90 then char_of (n - 65 + 97) else c)"

text \<open>The inner option is the returned flag: \<open>None\<close> leaves the reference parameter alone.\<close>

definition try_parse_two_digits :: "string \<Rightarrow> int \<Rightarrow> u32 option ub" where
  "try_parse_two_digits s index = do {
     short \<leftarrow> c_or (Some (index < 0)) (do { e \<leftarrow> add_int index 1; Some (e \<ge> int_size s) });
     (if short then Some None
      else do {
        first \<leftarrow> char_at s index;
        i1 \<leftarrow> add_int index 1;
        sec \<leftarrow> char_at s i1;
        (if \<not> is_digit first \<or> \<not> is_digit sec then Some None
         else Some (Some (of_nat (digit_val first * 10 + digit_val sec))))
      })
   }"

definition try_parse_four_digits :: "string \<Rightarrow> int \<Rightarrow> int option ub" where
  "try_parse_four_digits s index = do {
     short \<leftarrow> c_or (Some (index < 0)) (do { e \<leftarrow> add_int index 3; Some (e \<ge> int_size s) });
     (if short then Some None
      else do {
        first \<leftarrow> char_at s index;
        i1 \<leftarrow> add_int index 1;
        sec \<leftarrow> char_at s i1;
        i2 \<leftarrow> add_int index 2;
        third \<leftarrow> char_at s i2;
        i3 \<leftarrow> add_int index 3;
        fourth \<leftarrow> char_at s i3;
        (if \<not> is_digit first \<or> \<not> is_digit sec \<or> \<not> is_digit third \<or> \<not> is_digit fourth then Some None
         else Some (Some (int (digit_val first) * 1000 + int (digit_val sec) * 100
           + int (digit_val third) * 10 + int (digit_val fourth))))
      })
   }"

definition is_leap_year :: "int \<Rightarrow> bool" where
  "is_leap_year y =
     (if y smod 400 = 0 then True else if y smod 100 = 0 then False else y smod 4 = 0)"

definition max_day_in_month :: "u32 \<Rightarrow> bool \<Rightarrow> u32" where
  "max_day_in_month m leap_year =
     (if m \<in> {1, 3, 5, 7, 8, 10, 12} then 31
      else if m \<in> {4, 6, 9, 11} then 30
      else if m = 2 then (if leap_year then 29 else 28)
      else 0)"

section \<open>Step makers\<close>

definition make_separator_parser :: "char \<Rightarrow> parser_step" where
  "make_separator_parser separator = (\<lambda>to_parse index index_jump output.
     if index < 0 \<or> index \<ge> int_size to_parse then Some (False, index_jump, output)
     else do {
       c \<leftarrow> char_at to_parse index;
       (if c \<noteq> separator then Some (False, index_jump, output) else Some (True, 1, output))
     })"

definition make_two_digit_year_parser :: parser_step where
  "make_two_digit_year_parser = (\<lambda>to_parse index index_jump output. do {
     r \<leftarrow> try_parse_two_digits to_parse index;
     (case r of
        None \<Rightarrow> Some (False, index_jump, output)
      | Some y \<Rightarrow> Some (True, 2, output\<lparr>year := 2000 + uint y\<rparr>))
   })"

definition make_four_digit_year_parser :: parser_step where
  "make_four_digit_year_parser = (\<lambda>to_parse index index_jump output. do {
     r \<leftarrow> try_parse_four_digits to_parse index;
     (case r of
        None \<Rightarrow> Some (False, index_jump, output)
      | Some y \<Rightarrow> Some (True, 4, output\<lparr>year := y\<rparr>))
   })"

text \<open>The pointer to member is the function that assigns the member.\<close>

definition make_two_digit_field_parser ::
  "(u32 \<Rightarrow> DateAndTime \<Rightarrow> DateAndTime) \<Rightarrow> u32 \<Rightarrow> u32 \<Rightarrow> parser_step" where
  "make_two_digit_field_parser field min_value max_value = (\<lambda>to_parse index index_jump output. do {
     r \<leftarrow> try_parse_two_digits to_parse index;
     (case r of
        None \<Rightarrow> Some (False, index_jump, output)
      | Some v \<Rightarrow>
          if v < min_value \<or> v > max_value then Some (False, index_jump, output)
          else Some (True, 2, field v output))
   })"

definition make_padded_day_parser :: parser_step where
  "make_padded_day_parser = (\<lambda>to_parse index index_jump output.
     if index < 0 \<or> index \<ge> int_size to_parse then Some (False, index_jump, output)
     else do {
       c0 \<leftarrow> char_at to_parse index;
       cursor \<leftarrow> (if c0 = CHR '' '' then add_int index 1 else Some index);
       bad \<leftarrow> c_or (Some (cursor \<ge> int_size to_parse))
               (do { c \<leftarrow> char_at to_parse cursor; Some (\<not> is_digit c) });
       (if bad then Some (False, index_jump, output)
        else do {
          c1 \<leftarrow> char_at to_parse cursor;
          let d1 = (of_nat (digit_val c1) :: u32);
          cursor1 \<leftarrow> add_int cursor 1;
          let space_padded = (cursor1 - index = 2);
          more \<leftarrow> c_and (Some (\<not> space_padded \<and> cursor1 < int_size to_parse))
                   (do { c \<leftarrow> char_at to_parse cursor1; Some (is_digit c) });
          (d, cursor2) \<leftarrow> (if more then do {
              c2 \<leftarrow> char_at to_parse cursor1;
              cursor2 \<leftarrow> add_int cursor1 1;
              Some (d1 * 10 + of_nat (digit_val c2), cursor2)
            }
            else Some (d1, cursor1));
          (if d < 1 \<or> d > 31 then Some (False, index_jump, output)
           else Some (True, cursor2 - index, output\<lparr>day := d\<rparr>))
        })
     })"

text \<open>The comparison chain of \<open>make_month_name_parser\<close>; 0 is its final \<open>return false\<close>.\<close>

definition month_of_name :: "char \<Rightarrow> char \<Rightarrow> char \<Rightarrow> u32" where
  "month_of_name a b c =
     (if a = CHR ''j'' \<and> b = CHR ''a'' \<and> c = CHR ''n'' then 1
      else if a = CHR ''f'' \<and> b = CHR ''e'' \<and> c = CHR ''b'' then 2
      else if a = CHR ''m'' \<and> b = CHR ''a'' \<and> c = CHR ''r'' then 3
      else if a = CHR ''a'' \<and> b = CHR ''p'' \<and> c = CHR ''r'' then 4
      else if a = CHR ''m'' \<and> b = CHR ''a'' \<and> c = CHR ''y'' then 5
      else if a = CHR ''j'' \<and> b = CHR ''u'' \<and> c = CHR ''n'' then 6
      else if a = CHR ''j'' \<and> b = CHR ''u'' \<and> c = CHR ''l'' then 7
      else if a = CHR ''a'' \<and> b = CHR ''u'' \<and> c = CHR ''g'' then 8
      else if a = CHR ''s'' \<and> b = CHR ''e'' \<and> c = CHR ''p'' then 9
      else if a = CHR ''o'' \<and> b = CHR ''c'' \<and> c = CHR ''t'' then 10
      else if a = CHR ''n'' \<and> b = CHR ''o'' \<and> c = CHR ''v'' then 11
      else if a = CHR ''d'' \<and> b = CHR ''e'' \<and> c = CHR ''c'' then 12
      else 0)"

definition make_month_name_parser :: parser_step where
  "make_month_name_parser = (\<lambda>to_parse index index_jump output. do {
     short \<leftarrow> c_or (Some (index < 0)) (do { e \<leftarrow> add_int index 2; Some (e \<ge> int_size to_parse) });
     (if short then Some (False, index_jump, output)
      else do {
        c0 \<leftarrow> char_at to_parse index;
        i1 \<leftarrow> add_int index 1;
        c1 \<leftarrow> char_at to_parse i1;
        i2 \<leftarrow> add_int index 2;
        c2 \<leftarrow> char_at to_parse i2;
        let m = month_of_name (to_lower_ascii c0) (to_lower_ascii c1) (to_lower_ascii c2);
        (if m = 0 then Some (False, index_jump, output) else Some (True, 3, output\<lparr>month := m\<rparr>))
      })
   })"

definition make_second_parser :: parser_step where
  "make_second_parser = (\<lambda>to_parse index index_jump output. do {
     r \<leftarrow> try_parse_two_digits to_parse index;
     (case r of
        None \<Rightarrow> Some (False, index_jump, output)
      | Some v \<Rightarrow>
          if v > 60 then Some (False, index_jump, output)
          else Some (True, 2, output\<lparr>second := v, leap_second := (v = 60)\<rparr>))
   })"

text \<open>The guard shared by the two digit loops: the next character exists and is a digit.\<close>

definition digit_follows :: "string \<Rightarrow> int \<Rightarrow> int \<Rightarrow> bool ub" where
  "digit_follows s index consumed = do {
     e \<leftarrow> add_int index consumed;
     c_and (Some (e < int_size s)) (do { c \<leftarrow> char_at s e; Some (is_digit c) })
   }"

definition digit_at :: "string \<Rightarrow> int \<Rightarrow> int \<Rightarrow> u32 ub" where
  "digit_at s index consumed = do {
     e \<leftarrow> add_int index consumed;
     c \<leftarrow> char_at s e;
     Some (of_nat (digit_val c))
   }"

lemma digit_follows_bound: "digit_follows s index consumed = Some True \<Longrightarrow> index + consumed < int_size s"
  by (auto simp: digit_follows_def add_int_def c_and_def bind_eq_Some_conv split: if_splits)

lemma add_int_eq_Some: "add_int a b = Some c \<Longrightarrow> c = a + b"
  by (auto simp: add_int_def split: if_splits)

text \<open>\<open>while\<close> loop of the variable-length seconds; the inner \<open>None\<close> is \<open>return false\<close>.\<close>

function second_loop :: "string \<Rightarrow> int \<Rightarrow> u32 \<Rightarrow> int \<Rightarrow> (u32 \<times> int) option ub" where
  "second_loop s index sec consumed = do {
     go \<leftarrow> digit_follows s index consumed;
     (if go then do {
        digit \<leftarrow> digit_at s index consumed;
        (if sec > (4294967295 - digit) div 10 then Some None
         else do {
           consumed' \<leftarrow> add_int consumed 1;
           second_loop s index (sec * 10 + digit) consumed'
         })
      }
      else Some (Some (sec, consumed)))
   }"
  by pat_completeness auto
termination
  by (relation "measure (\<lambda>(s, index, sec, consumed). nat (int_size s - (index + consumed)))")
    (auto dest!: digit_follows_bound add_int_eq_Some)

declare second_loop.simps [simp del]

definition make_variable_second_parser :: parser_step where
  "make_variable_second_parser = (\<lambda>to_parse index index_jump output. do {
     bad \<leftarrow> c_or (Some (index < 0 \<or> index \<ge> int_size to_parse))
              (do { c \<leftarrow> char_at to_parse index; Some (\<not> is_digit c) });
     (if bad then Some (False, index_jump, output)
      else do {
        r \<leftarrow> second_loop to_parse index 0 0;
        (case r of
           None \<Rightarrow> Some (False, index_jump, output)
         | Some (sec, consumed) \<Rightarrow>
             Some (True, consumed, output\<lparr>second := sec, leap_second := (sec = 60)\<rparr>))
      })
   })"

text \<open>The digit loop over \<open>digit_index\<close> and the scaling loop of the fixed-length fraction.\<close>

fun fraction_loop :: "string \<Rightarrow> int \<Rightarrow> nat list \<Rightarrow> u32 \<Rightarrow> u32 option ub" where
  "fraction_loop s index [] v = Some (Some v)"
| "fraction_loop s index (k # ks) v = do {
     e \<leftarrow> add_int index (int k);
     digit \<leftarrow> char_at s e;
     (if \<not> is_digit digit then Some None
      else fraction_loop s index ks (v * 10 + of_nat (digit_val digit)))
   }"

fun scale_loop :: "nat list \<Rightarrow> u32 \<Rightarrow> u32" where
  "scale_loop [] v = v"
| "scale_loop (k # ks) v = scale_loop ks (v * 10)"

definition make_fraction_parser :: "nat \<Rightarrow> parser_step" where
  "make_fraction_parser digits = (\<lambda>to_parse index index_jump output. do {
     short \<leftarrow> c_or (Some (index < 0)) (do { e \<leftarrow> add_int index (int digits); Some (e > int_size to_parse) });
     (if short then Some (False, index_jump, output)
      else do {
        r \<leftarrow> fraction_loop to_parse index [0..<digits] 0;
        (case r of
           None \<Rightarrow> Some (False, index_jump, output)
         | Some v \<Rightarrow> Some (True, int digits, output\<lparr>nanosecond := scale_loop [digits..<9] v\<rparr>))
      })
   })"

function fraction_while :: "string \<Rightarrow> int \<Rightarrow> u32 \<Rightarrow> nat \<Rightarrow> int \<Rightarrow> (u32 \<times> nat \<times> int) ub" where
  "fraction_while s index v used_digits consumed = do {
     go \<leftarrow> digit_follows s index consumed;
     (if go then do {
        digit \<leftarrow> digit_at s index consumed;
        consumed' \<leftarrow> add_int consumed 1;
        (if used_digits < 9 then fraction_while s index (v * 10 + digit) (used_digits + 1) consumed'
         else fraction_while s index v used_digits consumed')
      }
      else Some (v, used_digits, consumed))
   }"
  by pat_completeness auto
termination
  by (relation "measure (\<lambda>(s, index, v, used, consumed). nat (int_size s - (index + consumed)))")
    (auto dest!: digit_follows_bound add_int_eq_Some)

declare fraction_while.simps [simp del]

definition make_variable_fraction_parser :: parser_step where
  "make_variable_fraction_parser = (\<lambda>to_parse index index_jump output. do {
     bad \<leftarrow> c_or (Some (index < 0 \<or> index \<ge> int_size to_parse))
              (do { c \<leftarrow> char_at to_parse index; Some (\<not> is_digit c) });
     (if bad then Some (False, index_jump, output)
      else do {
        (v, used_digits, consumed) \<leftarrow> fraction_while to_parse index 0 0 0;
        Some (True, consumed, output\<lparr>nanosecond := scale_loop [used_digits..<9] v\<rparr>)
      })
   })"

definition make_utc_designator_parser :: parser_step where
  "make_utc_designator_parser = (\<lambda>to_parse index index_jump output.
     if index < 0 \<or> index \<ge> int_size to_parse then Some (False, index_jump, output)
     else do {
       c \<leftarrow> char_at to_parse index;
       (if c \<noteq> CHR ''Z'' \<and> c \<noteq> CHR ''z'' then Some (False, index_jump, output)
        else Some (True, 1, output\<lparr>utc_offset_minutes := Some 0\<rparr>))
     })"

definition make_utc_offset_parser :: "bool \<Rightarrow> parser_step" where
  "make_utc_offset_parser with_colon = (\<lambda>to_parse index index_jump output.
     if index < 0 \<or> index \<ge> int_size to_parse then Some (False, index_jump, output)
     else do {
       sign \<leftarrow> char_at to_parse index;
       (if sign \<noteq> CHR ''+'' \<and> sign \<noteq> CHR ''-'' then Some (False, index_jump, output)
        else do {
          i1 \<leftarrow> add_int index 1;
          h \<leftarrow> try_parse_two_digits to_parse i1;
          (case h of
             None \<Rightarrow> Some (False, index_jump, output)
           | Some hours \<Rightarrow> do {
               (m, consumed) \<leftarrow> (if with_colon then do {
                   no_colon \<leftarrow> (do {
                     i3 \<leftarrow> add_int index 3;
                     c_or (Some (i3 \<ge> int_size to_parse)) (do { c \<leftarrow> char_at to_parse i3; Some (c \<noteq> CHR '':'') })
                   });
                   (if no_colon then Some (None, 3)
                    else do {
                      i4 \<leftarrow> add_int index 4;
                      m \<leftarrow> try_parse_two_digits to_parse i4;
                      Some (m, 6)
                    })
                 }
                 else do {
                   i3 \<leftarrow> add_int index 3;
                   m \<leftarrow> try_parse_two_digits to_parse i3;
                   Some (m, 5)
                 });
               (case m of
                  None \<Rightarrow> Some (False, index_jump, output)
                | Some minutes \<Rightarrow>
                    if hours > 23 \<or> minutes > 59 then Some (False, index_jump, output)
                    else
                      let total = uint hours * 60 + uint minutes;
                          total_minutes = (if sign = CHR ''-'' then - total else total)
                      in Some (True, consumed, output\<lparr>utc_offset_minutes := Some total_minutes\<rparr>))
             })
        })
     })"

definition make_date_validator :: "bool \<Rightarrow> parser_step" where
  "make_date_validator has_year = (\<lambda>to_parse index index_jump output.
     if month output = 0 \<or> day output = 0 then Some (True, 0, output)
     else
       let leap_year = (\<not> has_year \<or> is_leap_year (year output));
           max_day = max_day_in_month (month output) leap_year
       in if max_day = 0 \<or> day output > max_day then Some (False, index_jump, output)
          else Some (True, 0, output))"

end
