(* ===== verification/Timestamp_Calendar.thy ===== *)
theory Timestamp_Calendar
  imports Timestamp_Steps
begin

text \<open>
  The Gregorian calendar by divisibility and a table of month lengths, on unbounded integers: the
  reference for \<open>is_leap_year\<close> and \<open>max_day_in_month\<close> of \<open>timestamp_parser.cpp\<close>.
\<close>

definition leap :: "int \<Rightarrow> bool" where
  "leap y \<longleftrightarrow> 4 dvd y \<and> (100 dvd y \<longrightarrow> 400 dvd y)"

definition month_lengths :: "bool \<Rightarrow> int list" where
  "month_lengths l = [31, if l then 29 else 28, 31, 30, 31, 30, 31, 31, 30, 31, 30, 31]"

definition days_in_month :: "bool \<Rightarrow> u32 \<Rightarrow> int" where
  "days_in_month l m = (if 1 \<le> uint m \<and> uint m \<le> 12 then month_lengths l ! nat (uint m - 1) else 0)"

lemma length_month_lengths [simp]: "length (month_lengths l) = 12"
  by (simp add: month_lengths_def)

lemma dvd_chain: "100 dvd y \<Longrightarrow> 4 dvd y" "400 dvd y \<Longrightarrow> 100 dvd y" for y :: int
  using dvd_trans [of 4 100 y] dvd_trans [of 100 400 y] by simp_all

lemma smod_eq_0: "y smod n = 0 \<longleftrightarrow> n dvd y" for y n :: int
  by (auto simp: smod_int_alt_def sgn_if mod_eq_0_iff_dvd)

lemma leap_chain:
  "(q \<Longrightarrow> p) \<Longrightarrow> (r \<Longrightarrow> q) \<Longrightarrow> (p \<and> (q \<longrightarrow> r)) = (if r then True else if q then False else p)"
  by auto

lemma leap_is_leap_year: "leap y = is_leap_year y"
  unfolding leap_def is_leap_year_def smod_eq_0 by (rule leap_chain) (erule dvd_chain)+

lemma day_of_month:
  assumes "1 \<le> uint m" and "uint m \<le> 12"
  shows "uint (max_day_in_month m l) = month_lengths l ! nat (uint m - 1)"
proof -
  have "\<forall>k \<in> set [1..12]. \<forall>l. uint (max_day_in_month (of_int k) l) = month_lengths l ! nat (k - 1)"
    by (simp add: upto_rec1 max_day_in_month_def month_lengths_def)
  then have "uint (max_day_in_month (of_int (uint m)) l) = month_lengths l ! nat (uint m - 1)"
    using assms by (metis atLeastAtMost_iff set_upto)
  then show ?thesis by simp
qed

lemma max_day_calendar: "uint (max_day_in_month m l) = days_in_month l m"
proof (cases "1 \<le> uint m \<and> uint m \<le> 12")
  case True
  then show ?thesis by (simp add: days_in_month_def day_of_month)
next
  case False
  then show ?thesis by (auto simp: days_in_month_def max_day_in_month_def)
qed

lemma day_in_month: "k \<le> max_day_in_month m l \<longleftrightarrow> uint k \<le> days_in_month l m"
  by (simp add: word_le_def max_day_calendar)

end
