(* ===== verification/Timestamp_Parse.thy ===== *)
theory Timestamp_Parse
  imports Timestamp_Calendar
begin

text \<open>
  The contract of a parser step, and the proof that every step of the timestamp parser meets
  it: on an input of up to \<open>max_input\<close> characters and any index inside it, a step has
  no undefined behaviour and computes a reference parser over the unread suffix.
\<close>

section \<open>The contract\<close>

text \<open>Sixteen below the largest \<open>int\<close>, so that \<open>index + 9\<close> never overflows.\<close>

definition max_input :: nat where
  "max_input = 2147483632"

type_synonym reference = "string \<Rightarrow> DateAndTime \<Rightarrow> (nat \<times> DateAndTime) option"

locale step_contract =
  fixes st :: parser_step and p :: reference
  assumes implements: "length (u @ t) \<le> max_input \<Longrightarrow>
      st (u @ t) (int (length u)) j d =
        Some (case p t d of None \<Rightarrow> (False, j, d) | Some (n, d') \<Rightarrow> (True, int n, d'))"
    and jump_le: "p t d = Some (n, d') \<Longrightarrow> n \<le> length t"
begin

lemma at_index:
  assumes "length s \<le> max_input" and "i \<le> length s"
  shows "st s (int i) j d =
    Some (case p (drop i s) d of None \<Rightarrow> (False, j, d) | Some (n, d') \<Rightarrow> (True, int n, d'))"
  using implements [of "take i s" "drop i s"] assms by (simp add: min_absorb2)

lemma defined:
  assumes "length s \<le> max_input" and "i \<le> length s"
  shows "st s (int i) j d \<noteq> None"
  using at_index [OF assms] by simp

lemma failure_frame:
  assumes "length s \<le> max_input" and "i \<le> length s" and "st s (int i) j d = Some (False, j', d')"
  shows "j' = j \<and> d' = d"
  using at_index [OF assms(1,2)] assms(3) by (auto split: option.splits)

lemma success_jump:
  assumes "length s \<le> max_input" and "i \<le> length s" and "st s (int i) j d = Some (True, j', d')"
  shows "0 \<le> j' \<and> int i + j' \<le> int (length s)"
  using at_index [OF assms(1,2)] assms(3) jump_le [of "drop i s" d] assms(2)
  by (force split: option.splits)

end

text \<open>Facts that decide the guards of a step at a split input \<open>u @ t\<close>.\<close>

lemma int_size_input: "length (u @ t) \<le> max_input \<Longrightarrow> int_size (u @ t) = int (length u) + int (length t)"
  by (subst int_size_eq) (simp_all add: max_input_def)

lemma char_at_0 [simp]: "t \<noteq> [] \<Longrightarrow> char_at (u @ t) (int (length u)) = Some (hd t)"
  by (cases t) (simp_all add: char_at_def)

lemma char_at_k:
  "0 \<le> k \<Longrightarrow> k < int (length t) \<Longrightarrow> char_at (u @ t) (int (length u) + k) = Some (t ! nat k)"
  by (simp add: char_at_def nat_add_distrib nth_append)

lemma add_int_index:
  "length (u @ t) \<le> max_input \<Longrightarrow> 0 \<le> k \<Longrightarrow> k \<le> int (length t) + 9 \<Longrightarrow>
    add_int (int (length u)) k = Some (int (length u) + k)"
  by (simp add: add_int_def max_input_def int_max_def int_min_def)

lemma add_int_index2:
  "length (u @ t) \<le> max_input \<Longrightarrow> 0 \<le> k \<Longrightarrow> 0 \<le> m \<Longrightarrow> k + m \<le> 9 \<Longrightarrow>
    add_int (int (length u) + k) m = Some (int (length u) + (k + m))"
  by (simp add: add_int_def max_input_def int_max_def int_min_def)

lemmas input_simps = int_size_input char_at_k add_int_index add_int_index2

section \<open>Reference parsers\<close>

definition two_digits :: "string \<Rightarrow> nat option" where
  "two_digits t = (if 2 \<le> length t \<and> list_all is_digit (take 2 t) then Some (decimal (take 2 t)) else None)"

definition four_digits :: "string \<Rightarrow> nat option" where
  "four_digits t = (if 4 \<le> length t \<and> list_all is_digit (take 4 t) then Some (decimal (take 4 t)) else None)"

definition ref_separator :: "char \<Rightarrow> reference" where
  "ref_separator c t d = (if t \<noteq> [] \<and> hd t = c then Some (1, d) else None)"

definition ref_two_digit_year :: reference where
  "ref_two_digit_year t d = map_option (\<lambda>y. (2, d\<lparr>year := 2000 + int y\<rparr>)) (two_digits t)"

definition ref_four_digit_year :: reference where
  "ref_four_digit_year t d = map_option (\<lambda>y. (4, d\<lparr>year := int y\<rparr>)) (four_digits t)"

definition ref_field :: "(u32 \<Rightarrow> DateAndTime \<Rightarrow> DateAndTime) \<Rightarrow> nat \<Rightarrow> nat \<Rightarrow> reference" where
  "ref_field f lo hi t d =
     (case two_digits t of
        None \<Rightarrow> None
      | Some v \<Rightarrow> if lo \<le> v \<and> v \<le> hi then Some (2, f (of_nat v) d) else None)"

text \<open>The digits of a padded day: a space and one digit, or one or two digits.\<close>

definition day_digits :: "string \<Rightarrow> string" where
  "day_digits t =
     (if t \<noteq> [] \<and> hd t = CHR '' '' then take 1 (takeWhile is_digit (tl t)) else take 2 (takeWhile is_digit t))"

definition ref_padded_day :: reference where
  "ref_padded_day t d =
     (let ds = day_digits t; pad = (if t \<noteq> [] \<and> hd t = CHR '' '' then 1 else 0)
      in if ds \<noteq> [] \<and> 1 \<le> decimal ds \<and> decimal ds \<le> 31
         then Some (pad + length ds, d\<lparr>day := of_nat (decimal ds)\<rparr>) else None)"

definition month_names :: "string list" where
  "month_names = [''jan'', ''feb'', ''mar'', ''apr'', ''may'', ''jun'',
     ''jul'', ''aug'', ''sep'', ''oct'', ''nov'', ''dec'']"

text \<open>The 1-based position of a name in the list of months, if it is there.\<close>

fun position :: "'a \<Rightarrow> 'a list \<Rightarrow> nat option" where
  "position x [] = None"
| "position x (y # ys) = (if x = y then Some 1 else map_option Suc (position x ys))"

definition ref_month_name :: reference where
  "ref_month_name t d =
     (if 3 \<le> length t
      then map_option (\<lambda>m. (3, d\<lparr>month := of_nat m\<rparr>)) (position (map to_lower_ascii (take 3 t)) month_names)
      else None)"

definition ref_second :: reference where
  "ref_second t d =
     (case two_digits t of
        None \<Rightarrow> None
      | Some v \<Rightarrow> if v \<le> 60 then Some (2, d\<lparr>second := of_nat v, leap_second := (v = 60)\<rparr>) else None)"

definition ref_variable_second :: reference where
  "ref_variable_second t d =
     (let ds = takeWhile is_digit t
      in if ds \<noteq> [] \<and> decimal ds < 2 ^ 32
         then Some (length ds, d\<lparr>second := of_nat (decimal ds), leap_second := (decimal ds = 60)\<rparr>) else None)"

definition ref_fraction :: "nat \<Rightarrow> reference" where
  "ref_fraction n t d =
     (if n \<le> length t \<and> list_all is_digit (take n t)
      then Some (n, d\<lparr>nanosecond := of_nat (decimal (take n t) * 10 ^ (9 - n))\<rparr>) else None)"

definition ref_variable_fraction :: reference where
  "ref_variable_fraction t d =
     (let ds = takeWhile is_digit t
      in if ds \<noteq> []
         then Some (length ds, d\<lparr>nanosecond := of_nat (decimal (take 9 ds) * 10 ^ (9 - length ds))\<rparr>) else None)"

definition ref_utc_designator :: reference where
  "ref_utc_designator t d =
     (if t \<noteq> [] \<and> hd t \<in> {CHR ''Z'', CHR ''z''} then Some (1, d\<lparr>utc_offset_minutes := Some 0\<rparr>) else None)"

definition ref_utc_offset :: "bool \<Rightarrow> reference" where
  "ref_utc_offset colon t d =
     (let k = (if colon then 4 else 3)
      in if t \<noteq> [] \<and> hd t \<in> {CHR ''+'', CHR ''-''} \<and> (colon \<longrightarrow> 3 < length t \<and> t ! 3 = CHR '':'')
         then (case (two_digits (drop 1 t), two_digits (drop k t)) of
             (Some h, Some m) \<Rightarrow>
               if h \<le> 23 \<and> m \<le> 59
               then Some (k + 2, d\<lparr>utc_offset_minutes :=
                 Some ((if hd t = CHR ''-'' then - 1 else 1) * (int h * 60 + int m))\<rparr>)
               else None
           | _ \<Rightarrow> None)
         else None)"

definition ref_date_validator :: "bool \<Rightarrow> reference" where
  "ref_date_validator has_year t d =
     (if month d = 0 \<or> day d = 0
        \<or> (day d \<le> max_day_in_month (month d) (has_year \<longrightarrow> is_leap_year (year d)))
      then Some (0, d) else None)"

section \<open>The readers\<close>

lemma two_digits_Cons:
  "two_digits (a # b # t) = (if is_digit a \<and> is_digit b then Some (digit_val a * 10 + digit_val b) else None)"
  by (simp add: two_digits_def decimal_Cons)

lemma two_digits_less: "two_digits t = Some v \<Longrightarrow> v < 100"
  using decimal_bound [of "take 2 t"] by (auto simp: two_digits_def min_def split: if_splits)

lemma two_digits_length: "two_digits t = Some v \<Longrightarrow> 2 \<le> length t"
  by (simp add: two_digits_def split: if_splits)

lemma length_ge_2E: "2 \<le> length t \<Longrightarrow> (\<And>a b r. t = a # b # r \<Longrightarrow> thesis) \<Longrightarrow> thesis"
  by (metis One_nat_def Suc_1 Suc_le_length_iff)

lemma try_parse_two_digits_eq:
  assumes "length (u @ t) \<le> max_input" and "k \<le> 7"
  shows "try_parse_two_digits (u @ t) (int (length u) + int k) = Some (map_option of_nat (two_digits (drop k t)))"
proof (cases "2 \<le> length (drop k t)")
  case True
  then have k: "k \<le> length t" by simp
  obtain a b r where r: "drop k t = a # b # r" using True by (rule length_ge_2E)
  have nth: "t ! k = a" "t ! Suc k = b"
    using nth_drop [OF k, of 0] nth_drop [OF k, of 1] r by simp_all
  have "Suc k < length t" using True by simp
  then show ?thesis
    using assms nth
    by (simp add: try_parse_two_digits_def input_simps r two_digits_Cons nat_add_distrib c_or_Some)
next
  case False
  then have "two_digits (drop k t) = None" and "int (length t) \<le> int k + 1"
    by (simp_all add: two_digits_def)
  then show ?thesis
    using assms by (simp add: try_parse_two_digits_def input_simps c_or_Some)
qed

lemmas try_parse_two_digits_0 = try_parse_two_digits_eq [of _ _ 0, simplified]


lemma length_ge_4E: "4 \<le> length t \<Longrightarrow> (\<And>a b c e r. t = a # b # c # e # r \<Longrightarrow> thesis) \<Longrightarrow> thesis"
  by (metis Suc_le_length_iff eval_nat_numeral(2) eval_nat_numeral(3) numeral_One One_nat_def
      semiring_norm(26) semiring_norm(27))

lemma try_parse_four_digits_eq:
  assumes "length (u @ t) \<le> max_input"
  shows "try_parse_four_digits (u @ t) (int (length u)) = Some (map_option int (four_digits t))"
proof (cases "4 \<le> length t")
  case True
  then obtain a b c e r where r: "t = a # b # c # e # r" by (rule length_ge_4E)
  have four: "four_digits t = (if is_digit a \<and> is_digit b \<and> is_digit c \<and> is_digit e
      then Some (digit_val a * 1000 + digit_val b * 100 + digit_val c * 10 + digit_val e) else None)"
    by (simp add: r four_digits_def decimal_Cons)
  have nth: "hd t = a" "t ! 1 = b" "t ! 2 = c" "t ! 3 = e" "t \<noteq> []" "3 < length t"
    by (simp_all add: r)
  then show ?thesis
    using assms by (simp add: try_parse_four_digits_def input_simps four c_or_Some)
next
  case False
  with assms show ?thesis
    by (simp add: try_parse_four_digits_def input_simps four_digits_def c_or_Some)
qed

lemma unat_small: "v < 4294967296 \<Longrightarrow> unat (of_nat v :: u32) = v"
  by (simp add: unat_of_nat)

lemma two_digits_word: "two_digits t = Some v \<Longrightarrow> unat (of_nat v :: u32) = v"
  using two_digits_less [of t v] by (simp add: unat_small)

lemma two_digits_uint: "two_digits t = Some v \<Longrightarrow> uint (of_nat v :: u32) = int v"
  by (metis two_digits_word uint_nat)

lemma four_digits_length: "four_digits t = Some v \<Longrightarrow> 4 \<le> length t"
  by (auto simp: four_digits_def split: if_splits)

section \<open>Every step meets the contract\<close>

interpretation separator: step_contract "make_separator_parser c" "ref_separator c" for c
  by unfold_locales
    (auto simp: make_separator_parser_def ref_separator_def input_simps Suc_le_eq split: if_splits)

interpretation two_digit_year: step_contract make_two_digit_year_parser ref_two_digit_year
proof unfold_locales
  fix u t :: string and j d assume "length (u @ t) \<le> max_input"
  then show "make_two_digit_year_parser (u @ t) (int (length u)) j d =
      Some (case ref_two_digit_year t d of None \<Rightarrow> (False, j, d) | Some (n, d') \<Rightarrow> (True, int n, d'))"
    by (auto simp: make_two_digit_year_parser_def ref_two_digit_year_def try_parse_two_digits_0
      two_digits_uint split: option.split)
qed (auto simp: ref_two_digit_year_def two_digits_length)

interpretation four_digit_year: step_contract make_four_digit_year_parser ref_four_digit_year
proof unfold_locales
  fix u t :: string and j d assume "length (u @ t) \<le> max_input"
  then show "make_four_digit_year_parser (u @ t) (int (length u)) j d =
      Some (case ref_four_digit_year t d of None \<Rightarrow> (False, j, d) | Some (n, d') \<Rightarrow> (True, int n, d'))"
    by (simp add: make_four_digit_year_parser_def ref_four_digit_year_def try_parse_four_digits_eq
      split: option.split)
qed (auto simp: ref_four_digit_year_def four_digits_length)

lemma field_contract:
  assumes "lo < 4294967296" and "hi < 4294967296"
  shows "step_contract (make_two_digit_field_parser f (of_nat lo) (of_nat hi)) (ref_field f lo hi)"
proof unfold_locales
  fix u t :: string and j d assume "length (u @ t) \<le> max_input"
  then show "make_two_digit_field_parser f (of_nat lo) (of_nat hi) (u @ t) (int (length u)) j d =
      Some (case ref_field f lo hi t d of None \<Rightarrow> (False, j, d) | Some (n, d') \<Rightarrow> (True, int n, d'))"
    using two_digits_word [of t] assms
    by (auto simp: make_two_digit_field_parser_def ref_field_def try_parse_two_digits_0
      word_less_nat_alt unat_small split: option.split)
qed (auto simp: ref_field_def dest: two_digits_length split: option.splits if_splits)

definition set_month :: "u32 \<Rightarrow> DateAndTime \<Rightarrow> DateAndTime" where "set_month v d = d\<lparr>month := v\<rparr>"

definition set_day :: "u32 \<Rightarrow> DateAndTime \<Rightarrow> DateAndTime" where "set_day v d = d\<lparr>day := v\<rparr>"

definition set_hour :: "u32 \<Rightarrow> DateAndTime \<Rightarrow> DateAndTime" where "set_hour v d = d\<lparr>hour := v\<rparr>"

definition set_minute :: "u32 \<Rightarrow> DateAndTime \<Rightarrow> DateAndTime" where "set_minute v d = d\<lparr>minute := v\<rparr>"

interpretation month_field: step_contract "make_two_digit_field_parser set_month 1 12" "ref_field set_month 1 12"
  using field_contract [of 1 12] by simp

interpretation day_field: step_contract "make_two_digit_field_parser set_day 1 31" "ref_field set_day 1 31"
  using field_contract [of 1 31] by simp

interpretation hour_field: step_contract "make_two_digit_field_parser set_hour 0 23" "ref_field set_hour 0 23"
  using field_contract [of 0 23] by simp

interpretation minute_field: step_contract "make_two_digit_field_parser set_minute 0 59" "ref_field set_minute 0 59"
  using field_contract [of 0 59] by simp

interpretation second: step_contract make_second_parser ref_second
proof unfold_locales
  fix u t :: string and j d assume "length (u @ t) \<le> max_input"
  moreover have "(of_nat v :: u32) = 60 \<longleftrightarrow> v = 60" "(of_nat v :: u32) > 60 \<longleftrightarrow> v > 60" if "two_digits t = Some v" for v
    using two_digits_word [OF that] by (auto simp: word_less_nat_alt dest: arg_cong [where f = unat])
  ultimately show "make_second_parser (u @ t) (int (length u)) j d =
      Some (case ref_second t d of None \<Rightarrow> (False, j, d) | Some (n, d') \<Rightarrow> (True, int n, d'))"
    by (auto simp: make_second_parser_def ref_second_def try_parse_two_digits_0 split: option.split)
qed (auto simp: ref_second_def dest: two_digits_length split: option.splits if_splits)

interpretation utc_designator: step_contract make_utc_designator_parser ref_utc_designator
  by unfold_locales
    (auto simp: make_utc_designator_parser_def ref_utc_designator_def input_simps Suc_le_eq split: if_splits)

interpretation date_validator: step_contract "make_date_validator b" "ref_date_validator b" for b
proof unfold_locales
  fix u t :: string and j d
  have "(has_year \<longrightarrow> q) = (\<not> has_year \<or> q)" for has_year q by simp
  moreover have "\<not> x \<le> 0 \<longleftrightarrow> x \<noteq> 0" for x :: u32 by (metis word_le_0_iff)
  ultimately show "make_date_validator b (u @ t) (int (length u)) j d =
      Some (case ref_date_validator b t d of None \<Rightarrow> (False, j, d) | Some (n, d') \<Rightarrow> (True, int n, d'))"
    by (auto simp: make_date_validator_def ref_date_validator_def Let_def)
qed (auto simp: ref_date_validator_def split: if_splits)


subsection \<open>Month names\<close>

lemma month_of_name_position:
  "month_of_name a b c = (case position [a, b, c] month_names of None \<Rightarrow> 0 | Some m \<Rightarrow> of_nat m)"
  by (simp add: month_of_name_def month_names_def)

lemma position_range: "position x ys = Some m \<Longrightarrow> 1 \<le> m \<and> m \<le> length ys \<and> ys ! (m - 1) = x"
proof (induction ys arbitrary: m)
  case Nil
  then show ?case by simp
next
  case (Cons y ys)
  then show ?case by (cases "x = y") (auto simp: nth_Cons' split: option.splits)
qed

lemma month_position_word:
  assumes "position xs month_names = Some m"
  shows "(of_nat m :: u32) \<noteq> 0"
proof
  assume "(of_nat m :: u32) = 0"
  then have "unat (of_nat m :: u32) = 0" by simp
  moreover have "1 \<le> m" "m \<le> 12"
    using position_range [OF assms] by (simp_all add: month_names_def)
  ultimately show False by (simp add: unat_small)
qed

interpretation month_name: step_contract make_month_name_parser ref_month_name
proof unfold_locales
  fix u t :: string and j d assume len: "length (u @ t) \<le> max_input"
  show "make_month_name_parser (u @ t) (int (length u)) j d =
      Some (case ref_month_name t d of None \<Rightarrow> (False, j, d) | Some (n, d') \<Rightarrow> (True, int n, d'))"
  proof (cases "3 \<le> length t")
    case True
    then obtain a b c r where t: "t = a # b # c # r"
      by (auto simp: Suc_le_length_iff eval_nat_numeral)
    have nth: "hd t = a" "t ! 1 = b" "t ! 2 = c" "t \<noteq> []" "2 < length t" "take 3 t = [a, b, c]"
      by (simp_all add: t)
    show ?thesis
      using len nth True month_position_word
      by (auto simp: make_month_name_parser_def ref_month_name_def input_simps c_or_Some
        month_of_name_position split: option.split)
  next
    case False
    with len show ?thesis
      by (simp add: make_month_name_parser_def ref_month_name_def input_simps c_or_Some)
  qed
qed (auto simp: ref_month_name_def split: if_splits)

subsection \<open>Padded days\<close>

lemma day_digits_le: "length (day_digits t) \<le> 2"
  by (auto simp: day_digits_def min_def)

lemma day_digits_digits: "list_all is_digit (day_digits t)"
  by (auto simp: day_digits_def list_all_iff dest!: in_set_takeD set_takeWhileD)

lemma not_digit_space [simp]: "\<not> is_digit CHR '' ''"
  by (simp add: is_digit_def)

lemma day_digits_prefix:
  "(if t \<noteq> [] \<and> hd t = CHR '' '' then 1 else 0) + length (day_digits t) \<le> length t"
  using length_takeWhile_le [of is_digit t] length_takeWhile_le [of is_digit "tl t"]
  by (cases t) (auto simp: day_digits_def min_def)

lemma day_range_word:
  assumes "v < 100"
  shows "(of_nat v :: u32) < 1 \<or> (of_nat v :: u32) > 31 \<longleftrightarrow> \<not> (1 \<le> v \<and> v \<le> 31)"
  using assms by (auto simp: word_less_nat_alt unat_small)

interpretation padded_day: step_contract make_padded_day_parser ref_padded_day
proof unfold_locales
  fix u t :: string and j d assume len: "length (u @ t) \<le> max_input"
  note in_simps = int_size_input [OF len] char_at_k add_int_index [OF len] add_int_index2 [OF len]
  show "make_padded_day_parser (u @ t) (int (length u)) j d =
      Some (case ref_padded_day t d of None \<Rightarrow> (False, j, d) | Some (n, d') \<Rightarrow> (True, int n, d'))"
  proof (cases t)
    case Nil
    with len int_size_input [of u "[]"] show ?thesis
      by (simp add: make_padded_day_parser_def ref_padded_day_def day_digits_def in_simps)
  next
    case (Cons c0 r)
    then have t: "t \<noteq> []" "hd t = c0" "tl t = r" "length t = Suc (length r)" by simp_all
    show ?thesis
    proof (cases "c0 = CHR '' ''")
      case True
      show ?thesis
      proof (cases r)
        case Nil
        with len True t show ?thesis
          by (simp add: make_padded_day_parser_def ref_padded_day_def day_digits_def in_simps)
      next
        case r: (Cons c1 r')
        have "t ! 1 = c1" by (simp add: Cons r)
        then show ?thesis
          using len True t r day_range_word [of "digit_val c1"] digit_val_less [of c1]
          by (auto simp: make_padded_day_parser_def ref_padded_day_def day_digits_def in_simps
            c_or_Some decimal_Cons)
      qed
    next
      case False
      show ?thesis
      proof (cases "is_digit c0 \<and> r \<noteq> [] \<and> is_digit (hd r)")
        case True
        then obtain c1 r' where r: "r = c1 # r'" "is_digit c0" "is_digit c1" by (cases r) auto
        have "t ! 1 = c1" by (simp add: Cons r)
        moreover have "digit_val c0 * 10 + digit_val c1 < 100"
          using r digit_val_less [of c0] digit_val_less [of c1] by simp
        moreover have "day_digits t = [c0, c1]" using False r by (simp add: day_digits_def Cons)
        ultimately show ?thesis
          using len False t r day_range_word [of "digit_val c0 * 10 + digit_val c1"]
          by (auto simp: make_padded_day_parser_def ref_padded_day_def in_simps c_or_Some decimal_Cons)
      next
        case single: False
        have nth: "t ! 1 = hd r" if "r \<noteq> []" using that by (cases r) (simp_all add: Cons)
        consider (bad) "\<not> is_digit c0" | (last) "is_digit c0" "r = []"
          | (mid) "is_digit c0" "r \<noteq> []" "\<not> is_digit (hd r)"
          using single by blast
        then show ?thesis
        proof cases
          case bad
          then have "day_digits t = []" using False by (simp add: day_digits_def Cons)
          with bad False t show ?thesis
            by (simp add: make_padded_day_parser_def ref_padded_day_def in_simps)
        next
          case last
          then have "day_digits t = [c0]" using False by (simp add: day_digits_def Cons)
          with last False t day_range_word [of "digit_val c0"] digit_val_less [of c0] show ?thesis
            by (simp add: make_padded_day_parser_def ref_padded_day_def in_simps decimal_Cons)
        next
          case mid
          then have "takeWhile is_digit r = []" by (cases r) simp_all
          then have "day_digits t = [c0]" using mid False by (simp add: day_digits_def Cons)
          moreover have "1 < int (length t)" using mid(2) t(4) by simp
          ultimately show ?thesis
            using mid nth False t(1,2) day_range_word [of "digit_val c0"] digit_val_less [of c0]
            by (simp add: make_padded_day_parser_def ref_padded_day_def in_simps decimal_Cons)
        qed
      qed
    qed
  qed
next
  fix t d n d'
  assume "ref_padded_day t d = Some (n, d')"
  then show "n \<le> length t"
    using day_digits_prefix [of t] by (auto simp: ref_padded_day_def Let_def split: if_splits)
qed

subsection \<open>Digit loops\<close>

lemma digit_follows_eq:
  assumes "length (u @ pre @ t) \<le> max_input"
  shows "digit_follows (u @ pre @ t) (int (length u)) (int (length pre)) = Some (t \<noteq> [] \<and> is_digit (hd t))"
proof (cases "t = []")
  case True
  with assms int_size_input [of u pre] show ?thesis
    by (simp add: digit_follows_def add_int_index)
next
  case False
  then have "char_at (u @ pre @ t) (int (length u) + int (length pre)) = Some (hd t)"
    using char_at_0 [of t "u @ pre"] by simp
  with assms False int_size_input [of u "pre @ t"] add_int_index [of u "pre @ t" "int (length pre)"]
  show ?thesis by (simp add: digit_follows_def)
qed

lemma digit_at_eq:
  assumes "length (u @ pre @ t) \<le> max_input" and "t \<noteq> []"
  shows "digit_at (u @ pre @ t) (int (length u)) (int (length pre)) = Some (of_nat (digit_val (hd t)))"
  using assms char_at_0 [of t "u @ pre"] add_int_index [of u "pre @ t" "int (length pre)"]
  by (simp add: digit_at_def)

lemma overflow_check:
  assumes "v < 4294967296" and "g < 10"
  shows "(of_nat v :: u32) > (4294967295 - of_nat g) div 10 \<longleftrightarrow> 4294967295 < v * 10 + g"
proof -
  have "unat ((4294967295 :: u32) - of_nat g) = 4294967295 - g"
    using assms(2) by (subst unat_sub) (simp_all add: word_le_nat_alt unat_small)
  then have "unat (((4294967295 :: u32) - of_nat g) div 10) = (4294967295 - g) div 10"
    by (simp add: unat_div)
  then show ?thesis
    using assms by (simp add: word_less_nat_alt unat_small div_less_iff_less_mult) linarith
qed

lemma second_loop_eq:
  assumes "length (u @ pre @ t) \<le> max_input" and "v < 4294967296"
  shows "second_loop (u @ pre @ t) (int (length u)) (of_nat v) (int (length pre)) =
    Some (let ds = takeWhile is_digit t; r = v * 10 ^ length ds + decimal ds
          in if r < 4294967296 then Some (of_nat r, int (length pre + length ds)) else None)"
  using assms
proof (induction t arbitrary: pre v)
  case Nil
  then show ?case
    using digit_follows_eq [of u pre "[]"] by (simp add: second_loop.simps)
next
  case (Cons c t)
  note follows = digit_follows_eq [OF Cons.prems(1)]
  show ?case
  proof (cases "is_digit c")
    case False
    with follows Cons.prems(2) show ?thesis by (simp add: second_loop.simps)
  next
    case True
    let ?g = "digit_val c" and ?ds = "takeWhile is_digit t"
    have g: "?g < 10" using True by (rule digit_val_less)
    have dg: "digit_at (u @ pre @ c # t) (int (length u)) (int (length pre)) = Some (of_nat ?g)"
      using digit_at_eq [OF Cons.prems(1)] by simp
    have step: "v * 10 ^ length (c # ?ds) + decimal (c # ?ds) = (v * 10 + ?g) * 10 ^ length ?ds + decimal ?ds"
      by (simp add: decimal_Cons algebra_simps)
    have inc: "add_int (int (length pre)) 1 = Some (int (length pre) + 1)"
      using Cons.prems(1) by (simp add: add_int_def max_input_def int_max_def int_min_def)
    show ?thesis
    proof (cases "4294967295 < v * 10 + ?g")
      case big: True
      have "v * 10 + ?g \<le> (v * 10 + ?g) * 10 ^ length ?ds" by simp
      with big step have "\<not> v * 10 ^ length (c # ?ds) + decimal (c # ?ds) < 4294967296" by linarith
      with True follows dg big overflow_check [OF Cons.prems(2) g] show ?thesis
        by (simp add: second_loop.simps [of "u @ pre @ c # t"] Let_def)
    next
      case small: False
      have "second_loop (u @ pre @ c # t) (int (length u)) (of_nat v) (int (length pre)) =
          second_loop (u @ (pre @ [c]) @ t) (int (length u)) (of_nat (v * 10 + ?g)) (int (length (pre @ [c])))"
        using True follows dg small overflow_check [OF Cons.prems(2) g] inc
        by (simp add: second_loop.simps [of "u @ pre @ c # t" _ "of_nat v"] add.commute)
      also have "\<dots> = Some (let r = (v * 10 + ?g) * 10 ^ length ?ds + decimal ?ds
          in if r < 4294967296 then Some (of_nat r, int (length (pre @ [c]) + length ?ds)) else None)"
        using Cons.IH [of "pre @ [c]" "v * 10 + ?g"] Cons.prems(1) small by (simp add: Let_def)
      finally show ?thesis
        using True step by (simp add: Let_def del: power_Suc)
    qed
  qed
qed

lemma no_digit_guard:
  assumes "length (u @ t) \<le> max_input"
  shows "c_or (Some (int (length u) < 0 \<or> int (length u) \<ge> int_size (u @ t)))
      (do { c \<leftarrow> char_at (u @ t) (int (length u)); Some (\<not> is_digit c) })
    = Some (takeWhile is_digit t = [])"
  using int_size_input [OF assms] by (cases "t = []") (auto simp: takeWhile_eq_Nil_iff)

interpretation variable_second: step_contract make_variable_second_parser ref_variable_second
proof unfold_locales
  fix u t :: string and j d assume len: "length (u @ t) \<le> max_input"
  have "second_loop (u @ t) (int (length u)) 0 0 =
      Some (if decimal (takeWhile is_digit t) < 4294967296
        then Some (of_nat (decimal (takeWhile is_digit t)), int (length (takeWhile is_digit t))) else None)"
    using second_loop_eq [of u "[]" t 0] len by (simp add: Let_def)
  moreover have "(of_nat v :: u32) = 60 \<longleftrightarrow> v = 60" if "v < 4294967296" for v
    using unat_small [OF that] by (auto dest: arg_cong [where f = unat])
  ultimately show "make_variable_second_parser (u @ t) (int (length u)) j d =
      Some (case ref_variable_second t d of None \<Rightarrow> (False, j, d) | Some (n, d') \<Rightarrow> (True, int n, d'))"
    using no_digit_guard [OF len]
    by (simp add: make_variable_second_parser_def ref_variable_second_def Let_def)
qed (auto simp: ref_variable_second_def Let_def length_takeWhile_le split: if_splits)

lemma scale_loop_eq: "scale_loop ks v = v * 10 ^ length ks"
  by (induction ks arbitrary: v) simp_all

lemma fraction_loop_eq:
  assumes "length (u @ t) \<le> max_input" and "\<forall>k \<in> set ks. k < length t"
  shows "fraction_loop (u @ t) (int (length u)) ks (of_nat v) =
    Some (if list_all (\<lambda>k. is_digit (t ! k)) ks
      then Some (of_nat (foldl (\<lambda>v k. 10 * v + digit_val (t ! k)) v ks)) else None)"
  using assms(2)
proof (induction ks arbitrary: v)
  case Nil
  then show ?case by simp
next
  case (Cons k ks)
  have "add_int (int (length u)) (int k) = Some (int (length u) + int k)"
    using add_int_index [OF assms(1), of "int k"] Cons.prems by simp
  moreover have "char_at (u @ t) (int (length u) + int k) = Some (t ! k)"
    using char_at_k [of "int k" t u] Cons.prems by simp
  moreover have "fraction_loop (u @ t) (int (length u)) ks (of_nat (10 * v + digit_val (t ! k))) =
    Some (if list_all (\<lambda>k. is_digit (t ! k)) ks
      then Some (of_nat (foldl (\<lambda>v k. 10 * v + digit_val (t ! k)) (10 * v + digit_val (t ! k)) ks)) else None)"
    by (rule Cons.IH) (use Cons.prems in simp)
  ultimately show ?case by (simp add: mult.commute)
qed

lemma take_as_map: "n \<le> length t \<Longrightarrow> map ((!) t) [0..<n] = take n t"
  by (simp add: list_eq_iff_nth_eq)

lemma fraction_loop_take:
  assumes "length (u @ t) \<le> max_input" and "n \<le> length t"
  shows "fraction_loop (u @ t) (int (length u)) [0..<n] 0 =
    Some (if list_all is_digit (take n t) then Some (of_nat (decimal (take n t))) else None)"
proof -
  have "foldl (\<lambda>v k. 10 * v + digit_val (t ! k)) 0 [0..<n] = decimal (map ((!) t) [0..<n])"
    by (simp add: decimal_def foldl_map)
  moreover have "list_all (\<lambda>k. is_digit (t ! k)) [0..<n] = list_all is_digit (map ((!) t) [0..<n])"
    by (simp add: list_all_length)
  ultimately show ?thesis
    using fraction_loop_eq [OF assms(1), of "[0..<n]" 0] assms(2) by (simp add: take_as_map)
qed

lemma fraction_contract:
  assumes "1 \<le> n" and "n \<le> 9"
  shows "step_contract (make_fraction_parser n) (ref_fraction n)"
proof unfold_locales
  fix u t :: string and j d assume len: "length (u @ t) \<le> max_input"
  have ai: "add_int (int (length u)) (int n) = Some (int (length u) + int n)"
    using add_int_index [OF len, of "int n"] assms by simp
  show "make_fraction_parser n (u @ t) (int (length u)) j d =
      Some (case ref_fraction n t d of None \<Rightarrow> (False, j, d) | Some (m, d') \<Rightarrow> (True, int m, d'))"
  proof (cases "n \<le> length t")
    case True
    with fraction_loop_take [OF len True] ai int_size_input [OF len] show ?thesis
      by (simp add: make_fraction_parser_def ref_fraction_def scale_loop_eq c_or_Some)
  next
    case False
    with ai int_size_input [OF len] show ?thesis
      by (simp add: make_fraction_parser_def ref_fraction_def c_or_Some)
  qed
qed (auto simp: ref_fraction_def split: if_splits)

lemma fraction_while_eq:
  assumes "length (u @ pre @ t) \<le> max_input" and "used \<le> 9"
  shows "fraction_while (u @ pre @ t) (int (length u)) (of_nat v) used (int (length pre)) =
    Some (let ds = takeWhile is_digit t; m = min (9 - used) (length ds)
      in (of_nat (v * 10 ^ m + decimal (take m ds)), used + m, int (length pre + length ds)))"
  using assms
proof (induction t arbitrary: pre v used)
  case Nil
  then show ?case
    using digit_follows_eq [of u pre "[]"] by (simp add: fraction_while.simps)
next
  case (Cons c t)
  note follows = digit_follows_eq [OF Cons.prems(1)]
  show ?case
  proof (cases "is_digit c")
    case False
    with follows Cons.prems(2) show ?thesis by (simp add: fraction_while.simps)
  next
    case True
    let ?g = "digit_val c" and ?ds = "takeWhile is_digit t"
    have dg: "digit_at (u @ pre @ c # t) (int (length u)) (int (length pre)) = Some (of_nat ?g)"
      using digit_at_eq [OF Cons.prems(1)] by simp
    have inc: "add_int (int (length pre)) 1 = Some (int (length pre) + 1)"
      using Cons.prems(1) by (simp add: add_int_def max_input_def int_max_def int_min_def)
    have len: "length (u @ (pre @ [c]) @ t) \<le> max_input" using Cons.prems(1) by simp
    show ?thesis
    proof (cases "used < 9")
      case less: True
      have unfold: "fraction_while (u @ pre @ c # t) (int (length u)) (of_nat v) used (int (length pre)) =
          fraction_while (u @ (pre @ [c]) @ t) (int (length u)) (of_nat (v * 10 + ?g)) (used + 1) (int (length (pre @ [c])))"
        using True follows dg less inc
        by (simp add: fraction_while.simps [of "u @ pre @ c # t" _ "of_nat v"] add.commute)
      obtain k where k: "9 - used = Suc k" using less by (metis Suc_diff_Suc)
      then have k': "9 - (used + 1) = k" by simp
      have "used + 1 \<le> 9" using less by simp
      from Cons.IH [OF len this, of "v * 10 + ?g"] show ?thesis
        unfolding unfold k k'
        using True less by (simp add: Let_def decimal_Cons algebra_simps min_def k)
    next
      case full: False
      have unfold: "fraction_while (u @ pre @ c # t) (int (length u)) (of_nat v) used (int (length pre)) =
          fraction_while (u @ (pre @ [c]) @ t) (int (length u)) (of_nat v) used (int (length (pre @ [c])))"
        using True follows dg full inc
        by (simp add: fraction_while.simps [of "u @ pre @ c # t" _ "of_nat v"] add.commute)
      from Cons.IH [OF len Cons.prems(2), of v] show ?thesis
        unfolding unfold using True full by (simp add: Let_def)
    qed
  qed
qed

interpretation variable_fraction: step_contract make_variable_fraction_parser ref_variable_fraction
proof unfold_locales
  fix u t :: string and j d assume len: "length (u @ t) \<le> max_input"
  let ?ds = "takeWhile is_digit t" and ?m = "min 9 (length (takeWhile is_digit t))"
  have "fraction_while (u @ t) (int (length u)) 0 0 0 =
      Some (of_nat (decimal (take ?m ?ds)), ?m, int (length ?ds))"
    using fraction_while_eq [of u "[]" t 0 0] len by (simp add: Let_def)
  moreover have "take ?m ?ds = take 9 ?ds" "9 - ?m = 9 - length ?ds"
    by (auto simp: min_def)
  ultimately show "make_variable_fraction_parser (u @ t) (int (length u)) j d =
      Some (case ref_variable_fraction t d of None \<Rightarrow> (False, j, d) | Some (n, d') \<Rightarrow> (True, int n, d'))"
    using no_digit_guard [OF len]
    by (simp add: make_variable_fraction_parser_def ref_variable_fraction_def scale_loop_eq Let_def)
qed (auto simp: ref_variable_fraction_def Let_def length_takeWhile_le split: if_splits)

subsection \<open>UTC offsets\<close>

lemma two_digits_gt:
  "two_digits t = Some v \<Longrightarrow> n < 4294967296 \<Longrightarrow> (of_nat v :: u32) > of_nat n \<longleftrightarrow> n < v"
  using two_digits_word [of t v] by (simp add: word_less_nat_alt unat_small)

lemma utc_offset_no_sign:
  assumes "length (u @ t) \<le> max_input" and "t = [] \<or> hd t \<noteq> CHR ''+'' \<and> hd t \<noteq> CHR ''-''"
  shows "make_utc_offset_parser colon (u @ t) (int (length u)) j d = Some (False, j, d)"
  using assms int_size_input [OF assms(1)]
  by (cases "t = []") (auto simp: make_utc_offset_parser_def Suc_le_eq)

lemma utc_offset_sign:
  assumes len: "length (u @ t) \<le> max_input" and sign: "t \<noteq> []" "hd t = CHR ''+'' \<or> hd t = CHR ''-''"
  shows "make_utc_offset_parser colon (u @ t) (int (length u)) j d =
    Some (case ref_utc_offset colon t d of None \<Rightarrow> (False, j, d) | Some (n, d') \<Rightarrow> (True, int n, d'))"
proof -
  note in_simps = int_size_input [OF len] char_at_k add_int_index [OF len] add_int_index2 [OF len]
  let ?k = "if colon then 4 else 3 :: nat"
  have d1: "try_parse_two_digits (u @ t) (int (length u) + 1) = Some (map_option of_nat (two_digits (drop 1 t)))"
    and dk: "try_parse_two_digits (u @ t) (int (length u) + 4) = Some (map_option of_nat (two_digits (drop 4 t)))"
      "try_parse_two_digits (u @ t) (int (length u) + 3) = Some (map_option of_nat (two_digits (drop 3 t)))"
    using try_parse_two_digits_eq [OF len, of 1] try_parse_two_digits_eq [OF len, of 4]
      try_parse_two_digits_eq [OF len, of 3] by simp_all
  have no_colon: "do { i3 \<leftarrow> add_int (int (length u)) 3;
        c_or (Some (i3 \<ge> int_size (u @ t))) (do { c \<leftarrow> char_at (u @ t) i3; Some (c \<noteq> CHR '':'') }) }
      = Some (\<not> (3 < length t \<and> t ! 3 = CHR '':''))"
    by (cases "3 < length t") (simp_all add: in_simps)
  show ?thesis
  proof (cases "two_digits (drop 1 t)")
    case None
    with len sign d1 show ?thesis
      by (auto simp: make_utc_offset_parser_def ref_utc_offset_def in_simps Suc_le_eq Let_def)
  next
    case h: (Some h)
    show ?thesis
    proof (cases "two_digits (drop ?k t)")
      case None
      with h sign d1 dk no_colon show ?thesis
        by (auto simp: make_utc_offset_parser_def ref_utc_offset_def in_simps Suc_le_eq Let_def)
    next
      case (Some m)
      note hm = two_digits_gt [OF h, of 23] two_digits_gt [OF Some, of 59] two_digits_uint [OF h] two_digits_uint [OF Some]
      show ?thesis
        using h Some sign d1 dk no_colon hm
        by (auto simp: make_utc_offset_parser_def ref_utc_offset_def in_simps Suc_le_eq Let_def)
    qed
  qed
qed

interpretation utc_offset: step_contract "make_utc_offset_parser colon" "ref_utc_offset colon" for colon
proof unfold_locales
  fix u t :: string and j d assume len: "length (u @ t) \<le> max_input"
  show "make_utc_offset_parser colon (u @ t) (int (length u)) j d =
      Some (case ref_utc_offset colon t d of None \<Rightarrow> (False, j, d) | Some (n, d') \<Rightarrow> (True, int n, d'))"
  proof (cases "t \<noteq> [] \<and> (hd t = CHR ''+'' \<or> hd t = CHR ''-'')")
    case True
    with utc_offset_sign [OF len] show ?thesis by blast
  next
    case False
    then have "ref_utc_offset colon t d = None" by (auto simp: ref_utc_offset_def Let_def)
    with False utc_offset_no_sign [OF len] show ?thesis by auto
  qed
next
  fix t d n d'
  assume "ref_utc_offset colon t d = Some (n, d')"
  then show "n \<le> length t"
    by (auto simp: ref_utc_offset_def Let_def dest!: two_digits_length split: if_splits option.splits)
qed

end
