(* ===== verification/Timestamp_Format.thy ===== *)
theory Timestamp_Format
  imports Timestamp_Parse "HOL-Library.Sublist"
begin

text \<open>
  \<open>TimestampParser::CompileFormat\<close>: the scanner that turns a format string into parser steps,
  one definition per group of tokens as the loop body has them, and the reference tokenizer
  it is proved to implement.
\<close>

section \<open>The compiled parser\<close>

record CompiledDateAndTimeParser =
  steps :: "parser_step list"
  error :: string

definition valid :: "CompiledDateAndTimeParser \<Rightarrow> bool" where
  "valid p \<longleftrightarrow> error p = []"

definition make_invalid_parser :: "string \<Rightarrow> int \<Rightarrow> string \<Rightarrow> CompiledDateAndTimeParser" where
  "make_invalid_parser format index message =
     \<lparr>steps = [],
      error = ''Invalid timestamp format '' @ [CHR 0x22] @ format @ [CHR 0x22] @ '': '' @ message
        @ '' (position '' @ to_string_int index @ '')''\<rparr>"

definition is_separator :: "char \<Rightarrow> bool" where
  "is_separator tested \<longleftrightarrow>
     tested \<notin> {CHR ''Y'', CHR ''M'', CHR ''D'', CHR ''h'', CHR ''H'', CHR ''m'', CHR ''s'', CHR ''f'', CHR ''Z''}"

section \<open>The loop of CompileFormat\<close>

text \<open>The locals that live across iterations.\<close>

record compile_state =
  compiled :: "parser_step list"
  has_year :: bool
  has_month :: bool
  has_day :: bool

text \<open>
  One iteration ends in \<open>return make_invalid_parser(format, index, message)\<close> (\<^const>\<open>Inl\<close>) or
  with the new locals and the index before the increment of the loop header (\<^const>\<open>Inr\<close>).
\<close>

type_synonym iteration = "((int \<times> string) + (compile_state \<times> int)) ub"

definition push :: "parser_step \<Rightarrow> compile_state \<Rightarrow> compile_state" where
  "push st c = c\<lparr>compiled := compiled c @ [st]\<rparr>"

text \<open>\<open>format[index + k] == c\<close>, and the same behind the guard \<open>index + k < size\<close>.\<close>

definition char_is :: "string \<Rightarrow> int \<Rightarrow> int \<Rightarrow> char \<Rightarrow> bool ub" where
  "char_is format index k c = do { e \<leftarrow> add_int index k; x \<leftarrow> char_at format e; Some (x = c) }"

definition in_format :: "int \<Rightarrow> int \<Rightarrow> int \<Rightarrow> bool ub" where
  "in_format sz index k = do { e \<leftarrow> add_int index k; Some (e < sz) }"

definition advance :: "compile_state \<Rightarrow> int \<Rightarrow> int \<Rightarrow> iteration" where
  "advance c index k = do { e \<leftarrow> add_int index k; Some (Inr (c, e)) }"

text \<open>A character between apostrophes, as the messages quote it.\<close>

definition quoted :: "char \<Rightarrow> string" where
  "quoted c = [CHR 0x27, c, CHR 0x27]"

definition compile_Y :: "string \<Rightarrow> int \<Rightarrow> int \<Rightarrow> compile_state \<Rightarrow> iteration" where
  "compile_Y format sz index c = do {
     has_double_year \<leftarrow> c_and (in_format sz index 1) (char_is format index 1 CHR ''Y'');
     has_quad_year \<leftarrow> c_and (Some has_double_year) (c_and (in_format sz index 3)
        (c_and (char_is format index 2 CHR ''Y'') (char_is format index 3 CHR ''Y'')));
     (if has_quad_year then advance ((push make_four_digit_year_parser c)\<lparr>has_year := True\<rparr>) index 3
      else if has_double_year then advance ((push make_two_digit_year_parser c)\<lparr>has_year := True\<rparr>) index 1
      else Some (Inl (index, quoted CHR ''Y'' @ '' must appear as YY or YYYY'')))
   }"

definition compile_M :: "string \<Rightarrow> int \<Rightarrow> int \<Rightarrow> compile_state \<Rightarrow> iteration" where
  "compile_M format sz index c = do {
     has_triple_month \<leftarrow> c_and (in_format sz index 2)
        (c_and (char_is format index 1 CHR ''M'') (char_is format index 2 CHR ''M''));
     has_double_month \<leftarrow> c_and (in_format sz index 1) (char_is format index 1 CHR ''M'');
     (if has_triple_month then advance ((push make_month_name_parser c)\<lparr>has_month := True\<rparr>) index 2
      else if has_double_month then
        advance ((push (make_two_digit_field_parser set_month 1 12) c)\<lparr>has_month := True\<rparr>) index 1
      else Some (Inl (index, quoted CHR ''M'' @ '' must appear as MM or MMM'')))
   }"

definition compile_D :: "string \<Rightarrow> int \<Rightarrow> int \<Rightarrow> compile_state \<Rightarrow> iteration" where
  "compile_D format sz index c = do {
     star \<leftarrow> c_and (in_format sz index 1) (char_is format index 1 CHR ''*'');
     (if star then advance ((push make_padded_day_parser c)\<lparr>has_day := True\<rparr>) index 1
      else do {
        double \<leftarrow> c_and (in_format sz index 1) (char_is format index 1 CHR ''D'');
        (if double then advance ((push (make_two_digit_field_parser set_day 1 31) c)\<lparr>has_day := True\<rparr>) index 1
         else Some (Inl (index, quoted CHR ''D'' @ '' must appear as DD or D*'')))
      })
   }"

definition compile_h :: "char \<Rightarrow> string \<Rightarrow> int \<Rightarrow> int \<Rightarrow> compile_state \<Rightarrow> iteration" where
  "compile_h token format sz index c = do {
     double \<leftarrow> c_and (in_format sz index 1) (char_is format index 1 token);
     (if double then advance (push (make_two_digit_field_parser set_hour 0 23) c) index 1
      else Some (Inl (index, quoted token @ '' must appear as '' @ [token, token])))
   }"

definition compile_m :: "string \<Rightarrow> int \<Rightarrow> int \<Rightarrow> compile_state \<Rightarrow> iteration" where
  "compile_m format sz index c = do {
     double \<leftarrow> c_and (in_format sz index 1) (char_is format index 1 CHR ''m'');
     (if double then advance (push (make_two_digit_field_parser set_minute 0 59) c) index 1
      else Some (Inl (index, quoted CHR ''m'' @ '' must appear as mm'')))
   }"

definition compile_s :: "string \<Rightarrow> int \<Rightarrow> int \<Rightarrow> compile_state \<Rightarrow> iteration" where
  "compile_s format sz index c = do {
     star \<leftarrow> c_and (in_format sz index 1) (char_is format index 1 CHR ''*'');
     (if star then advance (push make_variable_second_parser c) index 1
      else do {
        double \<leftarrow> c_and (in_format sz index 1) (char_is format index 1 CHR ''s'');
        (if double then advance (push make_second_parser c) index 1
         else Some (Inl (index, quoted CHR ''s'' @ '' must appear as ss or s*'')))
      })
   }"

text \<open>The loop that counts a run of \<open>f\<close>.\<close>

function count_f :: "string \<Rightarrow> int \<Rightarrow> int \<Rightarrow> nat \<Rightarrow> nat ub" where
  "count_f format sz index digits = do {
     more \<leftarrow> c_and (in_format sz index (int digits)) (char_is format index (int digits) CHR ''f'');
     (if more then count_f format sz index (Suc digits) else Some digits)
   }"
  by pat_completeness auto
termination
  by (relation "measure (\<lambda>(format, sz, index, digits). nat (sz - (index + int digits)))")
    (auto simp: in_format_def c_and_def bind_eq_Some_conv dest!: add_int_eq_Some split: if_splits)

declare count_f.simps [simp del]

definition compile_f :: "string \<Rightarrow> int \<Rightarrow> int \<Rightarrow> compile_state \<Rightarrow> iteration" where
  "compile_f format sz index c = do {
     star \<leftarrow> c_and (in_format sz index 1) (char_is format index 1 CHR ''*'');
     (if star then advance (push make_variable_fraction_parser c) index 1
      else do {
        digits \<leftarrow> count_f format sz index 1;
        (if digits > 9 then
           Some (Inl (index, ''a fraction supports at most 9 '' @ quoted CHR ''f'' @ '' digits''))
         else advance (push (make_fraction_parser digits) c) index (int digits - 1))
      })
   }"

definition compile_Z :: "string \<Rightarrow> int \<Rightarrow> int \<Rightarrow> compile_state \<Rightarrow> iteration" where
  "compile_Z format sz index c = do {
     has_triple_z \<leftarrow> c_and (in_format sz index 2)
        (c_and (char_is format index 1 CHR ''Z'') (char_is format index 2 CHR ''Z''));
     has_double_z \<leftarrow> c_and (in_format sz index 1) (char_is format index 1 CHR ''Z'');
     (if has_triple_z then advance (push (make_utc_offset_parser True) c) index 2
      else if has_double_z then advance (push (make_utc_offset_parser False) c) index 1
      else Some (Inr (push make_utc_designator_parser c, index)))
   }"

definition compile_token :: "char \<Rightarrow> string \<Rightarrow> int \<Rightarrow> int \<Rightarrow> compile_state \<Rightarrow> iteration" where
  "compile_token token format sz index c =
     (if token = CHR ''Y'' then compile_Y format sz index c
      else if token = CHR ''M'' then compile_M format sz index c
      else if token = CHR ''D'' then compile_D format sz index c
      else if token = CHR ''h'' \<or> token = CHR ''H'' then compile_h token format sz index c
      else if token = CHR ''m'' then compile_m format sz index c
      else if token = CHR ''s'' then compile_s format sz index c
      else if token = CHR ''f'' then compile_f format sz index c
      else if token = CHR ''Z'' then compile_Z format sz index c
      else Some (Inr (push (make_separator_parser token) c, index)))"

lemma count_f_ge: "count_f format sz index digits = Some n \<Longrightarrow> digits \<le> n"
proof (induction format sz index digits rule: count_f.induct)
  case (1 format sz index digits)
  from "1.prems" show ?case
    by (subst (asm) count_f.simps) (auto simp: bind_eq_Some_conv dest: "1.IH" split: if_splits)
qed

lemma advance_index: "advance c index k = Some (Inr (c', e)) \<Longrightarrow> e = index + k"
  by (auto simp: advance_def bind_eq_Some_conv dest: add_int_eq_Some)

lemma compile_token_index: "compile_token token format sz index c = Some (Inr (c', index')) \<Longrightarrow> index \<le> index'"
  by (auto simp: compile_token_def compile_Y_def compile_M_def compile_D_def compile_h_def
      compile_m_def compile_s_def compile_f_def compile_Z_def bind_eq_Some_conv
      dest!: advance_index count_f_ge split: if_splits)

function compile_loop :: "string \<Rightarrow> int \<Rightarrow> int \<Rightarrow> compile_state \<Rightarrow> ((int \<times> string) + compile_state) ub" where
  "compile_loop format sz index c =
     (if index < sz then do {
        token \<leftarrow> char_at format index;
        r \<leftarrow> compile_token token format sz index c;
        (case r of
           Inl e \<Rightarrow> Some (Inl e)
         | Inr (c', index') \<Rightarrow> do {
             next_index \<leftarrow> add_int index' 1;
             compile_loop format sz next_index c'
           })
      }
      else Some (Inr c))"
  by pat_completeness auto
termination
  by (relation "measure (\<lambda>(format, sz, index, c). nat (sz - index))")
    (auto dest!: compile_token_index add_int_eq_Some)

declare compile_loop.simps [simp del]

definition compile_init :: compile_state where
  "compile_init = \<lparr>compiled = [], has_year = False, has_month = False, has_day = False\<rparr>"

definition CompileFormat :: "string \<Rightarrow> CompiledDateAndTimeParser ub" where
  "CompileFormat format =
     (if format = [] then Some (make_invalid_parser format 0 ''format is empty'')
      else do {
        r \<leftarrow> compile_loop format (int_size format) 0 compile_init;
        (case r of
           Inl (index, message) \<Rightarrow> Some (make_invalid_parser format index message)
         | Inr c \<Rightarrow> Some \<lparr>steps = compiled c @
               (if has_month c \<or> has_day c then [make_date_validator (has_year c)] else []),
             error = []\<rparr>)
      })"

end
