(* ===== verification/Timestamp_Grammar.thy ===== *)
theory Timestamp_Grammar
  imports Timestamp_Format
begin

text \<open>
  The format language of the header of \<open>timestamp_parser.hpp\<close> as a datatype of tokens with a
  longest-match tokenizer over suffixes, and the proof that the index-based scanner
  \<open>CompileFormat\<close> implements it on every format of up to \<open>max_input\<close> characters.
\<close>

section \<open>Tokens\<close>

datatype token =
  T_YYYY | T_YY | T_MMM | T_MM | T_Dstar | T_DD | T_hour char | T_mm | T_sstar | T_ss
| T_fstar | T_f nat | T_Z | T_ZZ | T_ZZZ | T_sep char

fun token_text :: "token \<Rightarrow> string" where
  "token_text T_YYYY = ''YYYY''"
| "token_text T_YY = ''YY''"
| "token_text T_MMM = ''MMM''"
| "token_text T_MM = ''MM''"
| "token_text T_Dstar = ''D*''"
| "token_text T_DD = ''DD''"
| "token_text (T_hour c) = [c, c]"
| "token_text T_mm = ''mm''"
| "token_text T_sstar = ''s*''"
| "token_text T_ss = ''ss''"
| "token_text T_fstar = ''f*''"
| "token_text (T_f n) = replicate n CHR ''f''"
| "token_text T_Z = ''Z''"
| "token_text T_ZZ = ''ZZ''"
| "token_text T_ZZZ = ''ZZZ''"
| "token_text (T_sep c) = [c]"

fun token_step :: "token \<Rightarrow> parser_step" where
  "token_step T_YYYY = make_four_digit_year_parser"
| "token_step T_YY = make_two_digit_year_parser"
| "token_step T_MMM = make_month_name_parser"
| "token_step T_MM = make_two_digit_field_parser set_month 1 12"
| "token_step T_Dstar = make_padded_day_parser"
| "token_step T_DD = make_two_digit_field_parser set_day 1 31"
| "token_step (T_hour c) = make_two_digit_field_parser set_hour 0 23"
| "token_step T_mm = make_two_digit_field_parser set_minute 0 59"
| "token_step T_sstar = make_variable_second_parser"
| "token_step T_ss = make_second_parser"
| "token_step T_fstar = make_variable_fraction_parser"
| "token_step (T_f n) = make_fraction_parser n"
| "token_step T_Z = make_utc_designator_parser"
| "token_step T_ZZ = make_utc_offset_parser False"
| "token_step T_ZZZ = make_utc_offset_parser True"
| "token_step (T_sep c) = make_separator_parser c"

definition is_year :: "token \<Rightarrow> bool" where "is_year k \<longleftrightarrow> k \<in> {T_YYYY, T_YY}"

definition is_month :: "token \<Rightarrow> bool" where "is_month k \<longleftrightarrow> k \<in> {T_MMM, T_MM}"

definition is_day :: "token \<Rightarrow> bool" where "is_day k \<longleftrightarrow> k \<in> {T_Dstar, T_DD}"

text \<open>The tokens the scanner can produce.\<close>

fun wf_token :: "token \<Rightarrow> bool" where
  "wf_token (T_hour c) \<longleftrightarrow> c = CHR ''h'' \<or> c = CHR ''H''"
| "wf_token (T_f n) \<longleftrightarrow> 1 \<le> n \<and> n \<le> 9"
| "wf_token (T_sep c) \<longleftrightarrow> is_separator c"
| "wf_token _ \<longleftrightarrow> True"

section \<open>The reference tokenizer\<close>

fun next_token :: "string \<Rightarrow> string + token" where
  "next_token [] = Inl []"
| "next_token (c # r) =
     (let t = c # r in
      if c = CHR ''Y'' then
        (if prefix ''YYYY'' t then Inr T_YYYY else if prefix ''YY'' t then Inr T_YY
         else Inl (quoted CHR ''Y'' @ '' must appear as YY or YYYY''))
      else if c = CHR ''M'' then
        (if prefix ''MMM'' t then Inr T_MMM else if prefix ''MM'' t then Inr T_MM
         else Inl (quoted CHR ''M'' @ '' must appear as MM or MMM''))
      else if c = CHR ''D'' then
        (if prefix ''D*'' t then Inr T_Dstar else if prefix ''DD'' t then Inr T_DD
         else Inl (quoted CHR ''D'' @ '' must appear as DD or D*''))
      else if c = CHR ''h'' \<or> c = CHR ''H'' then
        (if prefix [c, c] t then Inr (T_hour c) else Inl (quoted c @ '' must appear as '' @ [c, c]))
      else if c = CHR ''m'' then
        (if prefix ''mm'' t then Inr T_mm else Inl (quoted CHR ''m'' @ '' must appear as mm''))
      else if c = CHR ''s'' then
        (if prefix ''s*'' t then Inr T_sstar else if prefix ''ss'' t then Inr T_ss
         else Inl (quoted CHR ''s'' @ '' must appear as ss or s*''))
      else if c = CHR ''f'' then
        (if prefix ''f*'' t then Inr T_fstar
         else let n = length (takeWhile (\<lambda>x. x = CHR ''f'') t)
              in if n > 9 then Inl (''a fraction supports at most 9 '' @ quoted CHR ''f'' @ '' digits'')
                 else Inr (T_f n))
      else if c = CHR ''Z'' then
        (if prefix ''ZZZ'' t then Inr T_ZZZ else if prefix ''ZZ'' t then Inr T_ZZ else Inr T_Z)
      else Inr (T_sep c))"

text \<open>All tokens of a suffix that starts at position \<open>pos\<close>, or where and why there are none.\<close>

fun tokens :: "nat \<Rightarrow> string \<Rightarrow> (nat \<times> string) + token list" where
  "tokens pos [] = Inr []"
| "tokens pos (c # r) =
     (case next_token (c # r) of
        Inl m \<Rightarrow> Inl (pos, m)
      | Inr k \<Rightarrow>
          (case tokens (pos + length (token_text k)) (drop (length (token_text k) - 1) r) of
             Inl e \<Rightarrow> Inl e
           | Inr ks \<Rightarrow> Inr (k # ks)))"

declare next_token.simps(2) [simp del] tokens.simps(2) [simp del]

lemma takeWhile_replicate: "takeWhile (\<lambda>x. x = c) t = replicate (length (takeWhile (\<lambda>x. x = c) t)) c"
  by (induction t) auto

lemma next_token_text:
  assumes "next_token t = Inr k"
  shows "prefix (token_text k) t \<and> wf_token k \<and> token_text k \<noteq> []"
proof (cases t)
  case Nil
  with assms show ?thesis by simp
next
  case (Cons c r)
  have f: "prefix (replicate (length (takeWhile (\<lambda>x. x = CHR ''f'') t)) CHR ''f'') t"
    by (metis takeWhile_dropWhile_id prefixI takeWhile_replicate)
  have "1 \<le> length (takeWhile (\<lambda>x. x = CHR ''f'') t)" if "c = CHR ''f''" using that Cons by simp
  with assms f show ?thesis
    unfolding Cons next_token.simps(2)
    by (auto simp: Let_def is_separator_def split: if_splits)
qed

section \<open>The scanner implements the tokenizer\<close>

definition emit :: "token \<Rightarrow> compile_state \<Rightarrow> compile_state" where
  "emit k c =
     (let c' = push (token_step k) c
      in if is_year k then c'\<lparr>has_year := True\<rparr>
         else if is_month k then c'\<lparr>has_month := True\<rparr>
         else if is_day k then c'\<lparr>has_day := True\<rparr>
         else c')"

lemma in_format_eq:
  "length (u @ t) \<le> max_input \<Longrightarrow> 0 \<le> k \<Longrightarrow> k \<le> int (length t) + 9 \<Longrightarrow>
    in_format (int (length u) + int (length t)) (int (length u)) k = Some (k < int (length t))"
  by (simp add: in_format_def add_int_index)

lemma char_is_eq:
  "length (u @ t) \<le> max_input \<Longrightarrow> 0 \<le> k \<Longrightarrow> k < int (length t) \<Longrightarrow>
    char_is (u @ t) (int (length u)) k x = Some (t ! nat k = x)"
  by (simp add: char_is_def add_int_index char_at_k)

lemma advance_eq:
  "length (u @ t) \<le> max_input \<Longrightarrow> 0 \<le> k \<Longrightarrow> k \<le> int (length t) + 9 \<Longrightarrow>
    advance c (int (length u)) k = Some (Inr (c, int (length u) + k))"
  by (simp add: advance_def add_int_index)

lemma prefix2: "prefix [a, b] t \<longleftrightarrow> 1 < length t \<and> hd t = a \<and> t ! 1 = b"
  by (cases t; cases "tl t") auto

lemma prefix3: "prefix [a, b, c] t \<longleftrightarrow> 2 < length t \<and> hd t = a \<and> t ! 1 = b \<and> t ! 2 = c"
  by (cases t; cases "tl t"; cases "tl (tl t)") auto

lemma prefix4: "prefix [a, b, c, d] t \<longleftrightarrow> 3 < length t \<and> hd t = a \<and> t ! 1 = b \<and> t ! 2 = c \<and> t ! 3 = d"
  by (cases t; cases "tl t"; cases "tl (tl t)"; cases "tl (tl (tl t))") (auto simp: eval_nat_numeral)

lemma guard1:
  "length (u @ t) \<le> max_input \<Longrightarrow>
    c_and (in_format (int (length u) + int (length t)) (int (length u)) 1) (char_is (u @ t) (int (length u)) 1 x)
      = Some (1 < length t \<and> t ! 1 = x)"
  by (cases "1 < length t") (simp_all add: in_format_eq char_is_eq)

lemma guard2:
  "length (u @ t) \<le> max_input \<Longrightarrow>
    c_and (in_format (int (length u) + int (length t)) (int (length u)) 2)
      (c_and (char_is (u @ t) (int (length u)) 1 x) (char_is (u @ t) (int (length u)) 2 y))
      = Some (2 < length t \<and> t ! 1 = x \<and> t ! 2 = y)"
  by (cases "2 < length t") (simp_all add: in_format_eq char_is_eq c_and_Some)

lemma guard3:
  "length (u @ t) \<le> max_input \<Longrightarrow>
    c_and (in_format (int (length u) + int (length t)) (int (length u)) 3)
      (c_and (char_is (u @ t) (int (length u)) 2 x) (char_is (u @ t) (int (length u)) 3 y))
      = Some (3 < length t \<and> t ! 2 = x \<and> t ! 3 = y)"
  by (cases "3 < length t") (simp_all add: in_format_eq char_is_eq c_and_Some)

lemmas guards = guard1 guard2 guard3

text \<open>What one iteration of the scanner has to return.\<close>

definition scan :: "string \<Rightarrow> string \<Rightarrow> compile_state \<Rightarrow> (int \<times> string) + (compile_state \<times> int)" where
  "scan u t c =
     (case next_token t of
        Inl m \<Rightarrow> Inl (int (length u), m)
      | Inr k \<Rightarrow> Inr (emit k c, int (length u) + int (length (token_text k)) - 1))"

lemmas emit_simps = emit_def Let_def is_year_def is_month_def is_day_def

lemma next_token_hd:
  assumes "t \<noteq> []"
  shows "next_token t =
    (let c = hd t in
      if c = CHR ''Y'' then
        (if prefix ''YYYY'' t then Inr T_YYYY else if prefix ''YY'' t then Inr T_YY
         else Inl (quoted CHR ''Y'' @ '' must appear as YY or YYYY''))
      else if c = CHR ''M'' then
        (if prefix ''MMM'' t then Inr T_MMM else if prefix ''MM'' t then Inr T_MM
         else Inl (quoted CHR ''M'' @ '' must appear as MM or MMM''))
      else if c = CHR ''D'' then
        (if prefix ''D*'' t then Inr T_Dstar else if prefix ''DD'' t then Inr T_DD
         else Inl (quoted CHR ''D'' @ '' must appear as DD or D*''))
      else if c = CHR ''h'' \<or> c = CHR ''H'' then
        (if prefix [c, c] t then Inr (T_hour c) else Inl (quoted c @ '' must appear as '' @ [c, c]))
      else if c = CHR ''m'' then
        (if prefix ''mm'' t then Inr T_mm else Inl (quoted CHR ''m'' @ '' must appear as mm''))
      else if c = CHR ''s'' then
        (if prefix ''s*'' t then Inr T_sstar else if prefix ''ss'' t then Inr T_ss
         else Inl (quoted CHR ''s'' @ '' must appear as ss or s*''))
      else if c = CHR ''f'' then
        (if prefix ''f*'' t then Inr T_fstar
         else let n = length (takeWhile (\<lambda>x. x = CHR ''f'') t)
              in if n > 9 then Inl (''a fraction supports at most 9 '' @ quoted CHR ''f'' @ '' digits'')
                 else Inr (T_f n))
      else if c = CHR ''Z'' then
        (if prefix ''ZZZ'' t then Inr T_ZZZ else if prefix ''ZZ'' t then Inr T_ZZ else Inr T_Z)
      else Inr (T_sep c))"
  using assms by (cases t) (simp_all add: next_token.simps(2) Let_def)

lemma compile_Y_eq:
  assumes len: "length (u @ t) \<le> max_input" and t: "t \<noteq> []" and hd: "hd t = CHR ''Y''"
  shows "compile_Y (u @ t) (int (length u) + int (length t)) (int (length u)) c = Some (scan u t c)"
  using t hd
  by (auto simp: compile_Y_def guards [OF len] advance_eq [OF len] scan_def next_token_hd prefix2 prefix4
      c_and_Some emit_simps)

lemma compile_M_eq:
  assumes len: "length (u @ t) \<le> max_input" and t: "t \<noteq> []" and hd: "hd t = CHR ''M''"
  shows "compile_M (u @ t) (int (length u) + int (length t)) (int (length u)) c = Some (scan u t c)"
  using t hd
  by (auto simp: compile_M_def guards [OF len] advance_eq [OF len] scan_def next_token_hd prefix2 prefix3
      c_and_Some emit_simps)

lemma compile_D_eq:
  assumes len: "length (u @ t) \<le> max_input" and t: "t \<noteq> []" and hd: "hd t = CHR ''D''"
  shows "compile_D (u @ t) (int (length u) + int (length t)) (int (length u)) c = Some (scan u t c)"
  using t hd
  by (auto simp: compile_D_def guards [OF len] advance_eq [OF len] scan_def next_token_hd prefix2 emit_simps)

lemma compile_h_eq:
  assumes len: "length (u @ t) \<le> max_input" and t: "t \<noteq> []" and hd: "hd t = x" and x: "x \<in> {CHR ''h'', CHR ''H''}"
  shows "compile_h x (u @ t) (int (length u) + int (length t)) (int (length u)) c = Some (scan u t c)"
proof (cases "1 < length t \<and> t ! 1 = x")
  case True
  then have "prefix [x, x] t" using hd by (simp add: prefix2)
  then have "next_token t = Inr (T_hour x)" using t hd x by (auto simp: next_token_hd)
  moreover have "1 \<le> int (length t) + 9" by simp
  ultimately show ?thesis
    using True by (simp add: compile_h_def guards [OF len] advance_eq [OF len] scan_def emit_simps)
next
  case False
  then have "\<not> prefix [x, x] t" using hd by (simp add: prefix2)
  then have "next_token t = Inl (quoted x @ '' must appear as '' @ [x, x])"
    using t hd x by (auto simp: next_token_hd)
  then show ?thesis
    using False by (auto simp: compile_h_def guards [OF len] scan_def)
qed

lemma compile_m_eq:
  assumes len: "length (u @ t) \<le> max_input" and t: "t \<noteq> []" and hd: "hd t = CHR ''m''"
  shows "compile_m (u @ t) (int (length u) + int (length t)) (int (length u)) c = Some (scan u t c)"
  using t hd
  by (auto simp: compile_m_def guards [OF len] advance_eq [OF len] scan_def next_token_hd prefix2 emit_simps)

lemma compile_s_eq:
  assumes len: "length (u @ t) \<le> max_input" and t: "t \<noteq> []" and hd: "hd t = CHR ''s''"
  shows "compile_s (u @ t) (int (length u) + int (length t)) (int (length u)) c = Some (scan u t c)"
  using t hd
  by (auto simp: compile_s_def guards [OF len] advance_eq [OF len] scan_def next_token_hd prefix2 emit_simps)

lemma compile_Z_eq:
  assumes len: "length (u @ t) \<le> max_input" and t: "t \<noteq> []" and hd: "hd t = CHR ''Z''"
  shows "compile_Z (u @ t) (int (length u) + int (length t)) (int (length u)) c = Some (scan u t c)"
  using t hd
  by (auto simp: compile_Z_def guards [OF len] advance_eq [OF len] scan_def next_token_hd prefix2 prefix3
      c_and_Some emit_simps)

lemma in_format_eq':
  "length (u @ t) \<le> max_input \<Longrightarrow> k \<le> length t \<Longrightarrow>
    in_format (int (length u) + int (length t)) (int (length u)) (int k) = Some (k < length t)"
  by (simp add: in_format_def add_int_index)

lemma takeWhile_length_step:
  "n < length t \<Longrightarrow> length (takeWhile P (drop n t)) = (if P (t ! n) then Suc (length (takeWhile P (drop (Suc n) t))) else 0)"
  by (simp add: Cons_nth_drop_Suc [symmetric])

lemma count_f_eq:
  assumes len: "length (u @ t) \<le> max_input" and "n \<le> length t"
  shows "count_f (u @ t) (int (length u) + int (length t)) (int (length u)) n
    = Some (n + length (takeWhile (\<lambda>x. x = CHR ''f'') (drop n t)))"
  using assms(2)
proof (induction "length t - n" arbitrary: n)
  case 0
  then have "in_format (int (length u) + int (length t)) (int (length u)) (int n) = Some False"
    by (subst in_format_eq' [OF len]) simp_all
  with 0 show ?case by (subst count_f.simps) simp
next
  case (Suc k)
  then have "n < length t" by simp
  with Suc(1) [of "Suc n"] Suc(2) show ?case
    by (subst count_f.simps) (simp add: in_format_eq' [OF len] char_is_eq [OF len] takeWhile_length_step)
qed

lemma compile_f_eq:
  assumes len: "length (u @ t) \<le> max_input" and t: "t \<noteq> []" and hd: "hd t = CHR ''f''"
  shows "compile_f (u @ t) (int (length u) + int (length t)) (int (length u)) c = Some (scan u t c)"
proof -
  have n: "1 \<le> length t" using t by (simp add: Suc_le_eq)
  have all: "1 + length (takeWhile (\<lambda>x. x = CHR ''f'') (drop 1 t)) = length (takeWhile (\<lambda>x. x = CHR ''f'') t)"
    using t hd by (cases t) simp_all
  have le: "length (takeWhile (\<lambda>x. x = CHR ''f'') t) \<le> length t" by (rule length_takeWhile_le)
  have pos: "0 < length (takeWhile (\<lambda>x. x = CHR ''f'') t)" using all by linarith
  have count: "count_f (u @ t) (int (length u) + int (length t)) (int (length u)) 1
      = Some (length (takeWhile (\<lambda>x. x = CHR ''f'') t))"
    using count_f_eq [OF len n] all by simp
  have adv: "advance c' (int (length u)) (int (length (takeWhile (\<lambda>x. x = CHR ''f'') t)) - 1)
      = Some (Inr (c', int (length u) + int (length (takeWhile (\<lambda>x. x = CHR ''f'') t)) - 1))" for c'
    using pos le by (subst advance_eq [OF len]) (simp_all add: Suc_le_eq)
  show ?thesis
    using t hd le pos
    by (auto simp: adv [simplified] compile_f_def guards [OF len] count [simplified] advance_eq [OF len] scan_def
        next_token_hd prefix2 emit_simps)
qed

lemma compile_token_eq:
  assumes len: "length (u @ t) \<le> max_input" and t: "t \<noteq> []"
  shows "compile_token (hd t) (u @ t) (int (length u) + int (length t)) (int (length u)) c = Some (scan u t c)"
  using compile_Y_eq [OF len t] compile_M_eq [OF len t] compile_D_eq [OF len t] compile_h_eq [OF len t]
    compile_m_eq [OF len t] compile_s_eq [OF len t] compile_f_eq [OF len t] compile_Z_eq [OF len t] t
  by (auto simp: compile_token_def scan_def next_token_hd emit_simps)

subsection \<open>The whole format\<close>

lemma tokens_step:
  assumes "t \<noteq> []" and "next_token t = Inr k" and "t = token_text k @ t'"
  shows "tokens pos t =
    (case tokens (pos + length (token_text k)) t' of Inl e \<Rightarrow> Inl e | Inr ks \<Rightarrow> Inr (k # ks))"
proof -
  obtain c r where c: "t = c # r" using assms(1) by (cases t) auto
  have "token_text k \<noteq> []" using next_token_text [OF assms(2)] by simp
  then have "drop (length (token_text k) - 1) r = t'"
    using c assms(3) by (cases "token_text k") auto
  with assms(2) show ?thesis by (simp add: c tokens.simps(2))
qed

lemma compile_loop_eq:
  assumes "length (u @ t) \<le> max_input"
  shows "compile_loop (u @ t) (int (length u) + int (length t)) (int (length u)) c =
    Some (case tokens (length u) t of
        Inl (k, m) \<Rightarrow> Inl (int k, m)
      | Inr ks \<Rightarrow> Inr (foldl (\<lambda>c k. emit k c) c ks))"
  using assms
proof (induction "length t" arbitrary: u t c rule: less_induct)
  case less
  show ?case
  proof (cases "t = []")
    case True
    then show ?thesis by (simp add: compile_loop.simps)
  next
    case t: False
    note step = compile_token_eq [OF less.prems t, of c]
    have more: "int (length u) < int (length u) + int (length t)" using t by simp
    show ?thesis
    proof (cases "next_token t")
      case (Inl m)
      have "tokens (length u) t = Inl (length u, m)"
        using t Inl by (cases t) (simp_all add: tokens.simps(2))
      with Inl step more t show ?thesis
        by (subst compile_loop.simps) (simp add: scan_def)
    next
      case (Inr k)
      note found = next_token_text [OF Inr]
      then obtain t' where t': "t = token_text k @ t'" by (auto simp: prefix_def)
      let ?u = "u @ token_text k"
      have len: "length (?u @ t') \<le> max_input" using less.prems t' by simp
      have next_index: "add_int (int (length u) + int (length (token_text k)) - 1) 1 = Some (int (length ?u))"
        using len by (simp add: add_int_def max_input_def int_max_def int_min_def)
      have read: "char_at (u @ t) (int (length u)) = Some (hd t)" using t by simp
      have rest: "compile_loop (u @ t) (int (length u) + int (length t)) (int (length ?u)) (emit k c) =
        Some (case tokens (length ?u) t' of
            Inl (k, m) \<Rightarrow> Inl (int k, m)
          | Inr ks \<Rightarrow> Inr (foldl (\<lambda>c k. emit k c) (emit k c) ks))"
        using less.hyps [OF _ len, of "emit k c"] t' found by (simp add: add.assoc)
      have "compile_loop (u @ t) (int (length u) + int (length t)) (int (length u)) c =
        compile_loop (u @ t) (int (length u) + int (length t)) (int (length ?u)) (emit k c)"
        by (subst compile_loop.simps) (use step more Inr next_index read in \<open>simp add: scan_def\<close>)
      note this [unfolded rest]
      then show ?thesis
        using tokens_step [OF t Inr t', of "length u"] by (simp split: sum.split)
    qed
  qed
qed

lemma emit_fields:
  "compiled (emit k c) = compiled c @ [token_step k]"
  "has_year (emit k c) = (has_year c \<or> is_year k)"
  "has_month (emit k c) = (has_month c \<or> is_month k)"
  "has_day (emit k c) = (has_day c \<or> is_day k)"
  by (auto simp: emit_simps push_def)

lemma emit_all:
  "compiled (foldl (\<lambda>c k. emit k c) c ks) = compiled c @ map token_step ks"
  "has_year (foldl (\<lambda>c k. emit k c) c ks) = (has_year c \<or> list_ex is_year ks)"
  "has_month (foldl (\<lambda>c k. emit k c) c ks) = (has_month c \<or> list_ex is_month ks)"
  "has_day (foldl (\<lambda>c k. emit k c) c ks) = (has_day c \<or> list_ex is_day ks)"
  by (induction ks arbitrary: c) (auto simp: emit_fields)

text \<open>The steps of a token list: one per token, then the date check when there is a date field.\<close>

definition token_program :: "token list \<Rightarrow> parser_step list" where
  "token_program ks =
     map token_step ks @
     (if list_ex is_month ks \<or> list_ex is_day ks then [make_date_validator (list_ex is_year ks)] else [])"

lemma CompileFormat_tokens:
  assumes "length format \<le> max_input" and "format \<noteq> []"
  shows "CompileFormat format =
    Some (case tokens 0 format of
        Inl (k, m) \<Rightarrow> make_invalid_parser format (int k) m
      | Inr ks \<Rightarrow> \<lparr>steps = token_program ks, error = []\<rparr>)"
  using assms compile_loop_eq [of "[]" format compile_init] int_size_input [of "[]" format]
  by (auto simp: CompileFormat_def token_program_def emit_all compile_init_def split: sum.split)

lemma CompileFormat_Nil: "CompileFormat [] = Some (make_invalid_parser [] 0 ''format is empty'')"
  by (simp add: CompileFormat_def)

text \<open>A token list is the only reading of its format.\<close>

lemma tokens_text:
  assumes "tokens pos t = Inr ks"
  shows "concat (map token_text ks) = t \<and> list_all wf_token ks"
  using assms
proof (induction "length t" arbitrary: t pos ks rule: less_induct)
  case less
  show ?case
  proof (cases "t = []")
    case True
    with less.prems show ?thesis by simp
  next
    case t: False
    then obtain k where k: "next_token t = Inr k"
      using less.prems by (cases t) (auto simp: tokens.simps(2) split: sum.splits)
    note found = next_token_text [OF k]
    then obtain t' where t': "t = token_text k @ t'" by (auto simp: prefix_def)
    from less.prems tokens_step [OF t k t', of pos] obtain ks'
      where "tokens (pos + length (token_text k)) t' = Inr ks'" "ks = k # ks'"
      by (simp split: sum.splits)
    with less.hyps [of t' "pos + length (token_text k)" ks'] t' found show ?thesis by simp
  qed
qed

lemma make_invalid_parser_fields:
  "steps (make_invalid_parser format i m) = []" "error (make_invalid_parser format i m) \<noteq> []"
  by (simp_all add: make_invalid_parser_def)

end
