(* ===== verification/Timestamp_Run.thy ===== *)
theory Timestamp_Run
  imports Timestamp_Grammar
begin

text \<open>
  Running a compiled format the way the header documents it, the reference semantics of a token
  list, and the properties of the timestamp parser: the format grammar, definedness, the ranges
  of the parsed fields, and the round trip with a printer.
\<close>

section \<open>Running a compiled parser\<close>

text \<open>
  The documented protocol of a step: it starts at \<open>index\<close> and reports through \<open>index_jump\<close>
  how far to go on; the first failing step ends the run. The outer option is undefined
  behaviour, the inner one a failed match.
\<close>

fun run_steps :: "parser_step list \<Rightarrow> string \<Rightarrow> int \<Rightarrow> DateAndTime \<Rightarrow> (int \<times> DateAndTime) option ub" where
  "run_steps [] s i d = Some (Some (i, d))"
| "run_steps (st # sts) s i d = do {
     (ok, j, d') \<leftarrow> st s i 0 d;
     (if ok then do { i' \<leftarrow> add_int i j; run_steps sts s i' d' } else Some None)
   }"

fun run_ref :: "reference list \<Rightarrow> reference" where
  "run_ref [] t d = Some (0, d)"
| "run_ref (p # ps) t d =
     (case p t d of
        None \<Rightarrow> None
      | Some (n, d') \<Rightarrow> map_option (\<lambda>(m, d''). (n + m, d'')) (run_ref ps (drop n t) d'))"

lemma run_ref_bound:
  "list_all2 step_contract sts ps \<Longrightarrow> run_ref ps t d = Some (n, d') \<Longrightarrow> n \<le> length t"
proof (induction sts ps arbitrary: t d n d' rule: list_all2_induct)
  case (Cons st sts p ps)
  then show ?case
    using step_contract.jump_le [OF Cons.hyps(1)]
    by (fastforce split: option.splits)
qed simp

lemma run_steps_ref:
  assumes "list_all2 step_contract sts ps" and "length s \<le> max_input" and "i \<le> length s"
  shows "run_steps sts s (int i) d =
    Some (map_option (\<lambda>(n, d'). (int (i + n), d')) (run_ref ps (drop i s) d))"
  using assms
proof (induction sts ps arbitrary: i d rule: list_all2_induct)
  case (Cons st sts p ps)
  note at = step_contract.at_index [OF Cons.hyps(1) Cons.prems]
  show ?case
  proof (cases "p (drop i s) d")
    case None
    then show ?thesis by (simp add: at)
  next
    case (Some r)
    obtain n d' where r: "r = (n, d')" by (cases r)
    have n: "i + n \<le> length s"
      using step_contract.jump_le [OF Cons.hyps(1) Some [unfolded r]] Cons.prems(2) by simp
    then have "add_int (int i) (int n) = Some (int (i + n))"
      using Cons.prems(1) by (simp add: add_int_def max_input_def int_max_def int_min_def)
    with Some r Cons.IH [OF Cons.prems(1) n, of d'] show ?thesis
      by (simp add: at option.map_comp comp_def case_prod_beta add.commute add.assoc add.left_commute)
  qed
qed simp

section \<open>The reference semantics of a token list\<close>

fun token_ref :: "token \<Rightarrow> reference" where
  "token_ref T_YYYY = ref_four_digit_year"
| "token_ref T_YY = ref_two_digit_year"
| "token_ref T_MMM = ref_month_name"
| "token_ref T_MM = ref_field set_month 1 12"
| "token_ref T_Dstar = ref_padded_day"
| "token_ref T_DD = ref_field set_day 1 31"
| "token_ref (T_hour c) = ref_field set_hour 0 23"
| "token_ref T_mm = ref_field set_minute 0 59"
| "token_ref T_sstar = ref_variable_second"
| "token_ref T_ss = ref_second"
| "token_ref T_fstar = ref_variable_fraction"
| "token_ref (T_f n) = ref_fraction n"
| "token_ref T_Z = ref_utc_designator"
| "token_ref T_ZZ = ref_utc_offset False"
| "token_ref T_ZZZ = ref_utc_offset True"
| "token_ref (T_sep c) = ref_separator c"

definition token_refs :: "token list \<Rightarrow> reference list" where
  "token_refs ks =
     map token_ref ks @
     (if list_ex is_month ks \<or> list_ex is_day ks then [ref_date_validator (list_ex is_year ks)] else [])"

lemmas step_contracts =
  separator.step_contract_axioms two_digit_year.step_contract_axioms four_digit_year.step_contract_axioms
  month_field.step_contract_axioms day_field.step_contract_axioms hour_field.step_contract_axioms
  minute_field.step_contract_axioms second.step_contract_axioms utc_designator.step_contract_axioms
  date_validator.step_contract_axioms month_name.step_contract_axioms padded_day.step_contract_axioms
  variable_second.step_contract_axioms variable_fraction.step_contract_axioms utc_offset.step_contract_axioms

lemma token_contract: "wf_token k \<Longrightarrow> step_contract (token_step k) (token_ref k)"
  using step_contracts fraction_contract by (cases k) simp_all

lemma token_contracts:
  assumes "list_all wf_token ks"
  shows "list_all2 step_contract (token_program ks) (token_refs ks)"
proof -
  have "list_all2 step_contract (map token_step ks) (map token_ref ks)"
    using assms by (simp add: list_all2_map1 list_all2_map2 list_all2_same list_all_iff token_contract)
  then show ?thesis
    by (auto simp: token_program_def token_refs_def intro!: list_all2_appendI date_validator.step_contract_axioms)
qed

lemmas run_program = run_steps_ref [OF token_contracts]

lemmas run_program_bound = run_ref_bound [OF token_contracts]

lemma run_ref_append:
  "run_ref (ps @ qs) t d =
    (case run_ref ps t d of
       None \<Rightarrow> None
     | Some (n, d') \<Rightarrow> map_option (\<lambda>(m, d''). (n + m, d'')) (run_ref qs (drop n t) d'))"
proof (induction ps arbitrary: t d)
  case Nil
  then show ?case by (cases "run_ref qs t d") auto
next
  case (Cons p ps)
  show ?case
  proof (cases "p t d")
    case (Some r)
    obtain n d' where "r = (n, d')" by (cases r)
    with Some show ?thesis
      by (auto simp: Cons option.map_comp comp_def case_prod_beta' add.assoc drop_drop add.commute [of _ n]
          split: option.split)
  qed simp
qed

section \<open>Ranges of the parsed fields\<close>

definition fields_in_range :: "bool \<Rightarrow> DateAndTime \<Rightarrow> bool" where
  "fields_in_range bounded_second d \<longleftrightarrow>
     0 \<le> year d \<and> year d \<le> 9999 \<and> month d \<le> 12 \<and> day d \<le> 31 \<and> hour d \<le> 23 \<and> minute d \<le> 59 \<and>
     (bounded_second \<longrightarrow> second d \<le> 60) \<and> nanosecond d < 1000000000 \<and>
     (case utc_offset_minutes d of None \<Rightarrow> True | Some m \<Rightarrow> \<bar>m\<bar> < 1440) \<and>
     (leap_second d \<longleftrightarrow> second d = 60)"

lemma fields_in_range_init: "fields_in_range b DateAndTime_init"
  by (simp add: fields_in_range_def DateAndTime_init_def)

lemma four_digits_less: "four_digits t = Some v \<Longrightarrow> v < 10000"
  using decimal_bound [of "take 4 t"] by (auto simp: four_digits_def min_def split: if_splits)

lemma word_le_small: "v \<le> w \<Longrightarrow> w < 4294967296 \<Longrightarrow> (of_nat v :: u32) \<le> of_nat w"
  by (simp add: word_le_nat_alt unat_small)

lemma fraction_less:
  assumes "list_all is_digit ds" and "length ds \<le> 9"
  shows "decimal ds * 10 ^ (9 - length ds) < 1000000000"
proof -
  have "decimal ds * 10 ^ (9 - length ds) < 10 ^ length ds * 10 ^ (9 - length ds)"
    using decimal_bound [OF assms(1)] by simp
  also have "\<dots> = 10 ^ 9" using assms(2) by (simp flip: power_add)
  finally show ?thesis by simp
qed

lemma fraction_word_less:
  "v < 1000000000 \<Longrightarrow> (of_nat v :: u32) < 1000000000"
  by (simp add: word_less_nat_alt unat_small)

lemma in_range_update:
  assumes "fields_in_range b d"
  shows "0 \<le> y \<Longrightarrow> y \<le> 9999 \<Longrightarrow> fields_in_range b (d\<lparr>year := y\<rparr>)"
    and "w \<le> 12 \<Longrightarrow> fields_in_range b (d\<lparr>month := w\<rparr>)"
    and "w \<le> 31 \<Longrightarrow> fields_in_range b (d\<lparr>day := w\<rparr>)"
    and "w \<le> 23 \<Longrightarrow> fields_in_range b (d\<lparr>hour := w\<rparr>)"
    and "w \<le> 59 \<Longrightarrow> fields_in_range b (d\<lparr>minute := w\<rparr>)"
    and "(b \<Longrightarrow> w \<le> 60) \<Longrightarrow> l = (w = 60) \<Longrightarrow> fields_in_range b (d\<lparr>second := w, leap_second := l\<rparr>)"
    and "w < 1000000000 \<Longrightarrow> fields_in_range b (d\<lparr>nanosecond := w\<rparr>)"
    and "\<bar>m\<bar> < 1440 \<Longrightarrow> fields_in_range b (d\<lparr>utc_offset_minutes := Some m\<rparr>)"
  using assms by (simp_all add: fields_in_range_def)

lemma word_is_sixty: "v < 4294967296 \<Longrightarrow> (of_nat v :: u32) = 60 \<longleftrightarrow> v = 60"
  using unat_small [of v] by (auto dest: arg_cong [where f = unat])

lemma two_digits_is_sixty: "two_digits t = Some v \<Longrightarrow> (of_nat v :: u32) = 60 \<longleftrightarrow> v = 60"
  using two_digits_less [of t v] by (simp add: word_is_sixty)

lemma range_four_digit_year:
  "fields_in_range b d \<Longrightarrow> ref_four_digit_year t d = Some (n, d') \<Longrightarrow> fields_in_range b d'"
  using four_digits_less [of t] by (auto simp: ref_four_digit_year_def intro!: in_range_update(1))

lemma range_two_digit_year:
  "fields_in_range b d \<Longrightarrow> ref_two_digit_year t d = Some (n, d') \<Longrightarrow> fields_in_range b d'"
  using two_digits_less [of t] by (fastforce simp: ref_two_digit_year_def intro!: in_range_update(1))

lemma range_month_name:
  assumes "fields_in_range b d" and "ref_month_name t d = Some (n, d')"
  shows "fields_in_range b d'"
proof -
  have "(of_nat m :: u32) \<le> 12" if "position x month_names = Some m" for x m
    using position_range [OF that] word_le_small [of m 12] by (simp add: month_names_def)
  with assms show ?thesis
    by (auto simp: ref_month_name_def intro!: in_range_update(2) split: if_splits)
qed

lemma range_field:
  assumes "ref_field f lo hi t d = Some (n, d')" and "hi < 4294967296"
    and "\<And>w. w \<le> of_nat hi \<Longrightarrow> fields_in_range b (f w d)"
  shows "fields_in_range b d'"
  using assms(1) by (auto simp: ref_field_def intro!: assms(3) word_le_small [OF _ assms(2)]
      split: option.splits if_splits)

lemma range_padded_day:
  assumes "fields_in_range b d" and "ref_padded_day t d = Some (n, d')"
  shows "fields_in_range b d'"
  using assms word_le_small [of "decimal (day_digits t)" 31]
  by (auto simp: ref_padded_day_def Let_def intro!: in_range_update(3) split: if_splits)

lemma range_second:
  assumes "fields_in_range b d" and "ref_second t d = Some (n, d')"
  shows "fields_in_range b d'"
  using assms word_le_small [of _ 60] two_digits_is_sixty [of t]
  by (auto simp: ref_second_def intro!: in_range_update(6) split: option.splits if_splits)

lemma range_variable_second:
  assumes "fields_in_range False d" and "ref_variable_second t d = Some (n, d')"
  shows "fields_in_range False d'"
  using assms word_is_sixty [of "decimal (takeWhile is_digit t)"]
  by (auto simp: ref_variable_second_def Let_def intro!: in_range_update(6) split: if_splits)

lemma range_fraction:
  assumes "fields_in_range b d" and "ref_fraction m t d = Some (n, d')" and "m \<le> 9"
  shows "fields_in_range b d'"
proof -
  have "decimal (take m t) * 10 ^ (9 - m) < 1000000000"
    if "m \<le> length t" "list_all is_digit (take m t)"
    using fraction_less [OF that(2)] assms(3) that(1) by simp
  with assms show ?thesis
    by (auto simp: ref_fraction_def intro!: in_range_update(7) fraction_word_less simp del: of_nat_mult
        split: if_splits)
qed

lemma variable_fraction_less:
  "decimal (take 9 (takeWhile is_digit t)) * 10 ^ (9 - length (takeWhile is_digit t)) < 1000000000"
proof -
  let ?ds = "takeWhile is_digit t"
  have all: "list_all is_digit ?ds" by (auto simp: list_all_iff dest: set_takeWhileD)
  show ?thesis
  proof (cases "length ?ds \<le> 9")
    case True
    with fraction_less [OF all] show ?thesis by simp
  next
    case False
    moreover have "list_all is_digit (take 9 ?ds)"
      using all by (auto simp: list_all_iff dest: in_set_takeD)
    ultimately show ?thesis using fraction_less [of "take 9 ?ds"] by simp
  qed
qed

lemma range_variable_fraction:
  assumes "fields_in_range b d" and "ref_variable_fraction t d = Some (n, d')"
  shows "fields_in_range b d'"
  using assms variable_fraction_less [of t]
  by (auto simp: ref_variable_fraction_def Let_def intro!: in_range_update(7) fraction_word_less
      simp del: of_nat_mult split: if_splits)

lemma range_utc_designator:
  "fields_in_range b d \<Longrightarrow> ref_utc_designator t d = Some (n, d') \<Longrightarrow> fields_in_range b d'"
  by (auto simp: ref_utc_designator_def intro!: in_range_update(8) split: if_splits)

lemma utc_offset_effect:
  assumes "ref_utc_offset colon t d = Some (n, d')"
  obtains m where "\<bar>m\<bar> < 1440" and "d' = d\<lparr>utc_offset_minutes := Some m\<rparr>"
proof -
  obtain h m where "h \<le> 23" "m \<le> 59"
    and d': "d' = d\<lparr>utc_offset_minutes := Some ((if hd t = CHR ''-'' then - 1 else 1) * (int h * 60 + int m))\<rparr>"
    using assms by (auto simp only: ref_utc_offset_def Let_def prod.case option.case option.distinct
        option.inject prod.inject split: option.splits if_splits)
  then have "\<bar>(if hd t = CHR ''-'' then - 1 else 1) * (int h * 60 + int m)\<bar> < 1440"
    by (simp add: abs_mult)
  then show thesis using d' by (rule that)
qed

lemma range_utc_offset:
  "fields_in_range b d \<Longrightarrow> ref_utc_offset colon t d = Some (n, d') \<Longrightarrow> fields_in_range b d'"
  by (erule utc_offset_effect) (simp add: in_range_update(8))

lemmas token_ranges = range_four_digit_year range_two_digit_year range_month_name range_padded_day range_second
  range_fraction range_variable_fraction range_utc_designator range_utc_offset

lemma token_ref_range:
  assumes in_range: "fields_in_range b d" and wf: "wf_token k" and star: "k = T_sstar \<longrightarrow> \<not> b"
    and match: "token_ref k t d = Some (n, d')"
  shows "fields_in_range b d'"
proof (cases k)
  case T_MM
  show ?thesis using match range_field [of set_month 1 12] in_range_update(2) [OF in_range]
    by (simp add: T_MM set_month_def)
next
  case T_DD
  show ?thesis using match range_field [of set_day 1 31] in_range_update(3) [OF in_range]
    by (simp add: T_DD set_day_def)
next
  case (T_hour c)
  show ?thesis using match range_field [of set_hour 0 23] in_range_update(4) [OF in_range]
    by (simp add: T_hour set_hour_def)
next
  case T_mm
  show ?thesis using match range_field [of set_minute 0 59] in_range_update(5) [OF in_range]
    by (simp add: T_mm set_minute_def)
next
  case (T_sep c)
  show ?thesis using match in_range by (simp add: T_sep ref_separator_def split: if_splits)
next
  case T_sstar
  show ?thesis using match in_range star range_variable_second [of d t n d'] by (simp add: T_sstar)
qed (use match wf in \<open>auto intro: token_ranges [OF in_range]\<close>)

lemma tokens_range:
  assumes "run_ref (map token_ref ks) t d = Some (n, d')" and "fields_in_range b d"
    and "list_all wf_token ks" and "T_sstar \<in> set ks \<longrightarrow> \<not> b"
  shows "fields_in_range b d'"
  using assms
proof (induction ks arbitrary: t d n)
  case (Cons k ks)
  then show ?case
    using token_ref_range [of b d k t]
    by (fastforce split: option.splits)
qed simp

section \<open>The calendar\<close>

lemma two_digits_nonzero: "two_digits t = Some v \<Longrightarrow> 0 < v \<Longrightarrow> (of_nat v :: u32) \<noteq> 0"
  using two_digits_word [of t v] by (metis less_numeral_extra(3) unsigned_0)

lemma day_nonzero: "0 < v \<Longrightarrow> v \<le> 31 \<Longrightarrow> (of_nat v :: u32) \<noteq> 0"
  using unat_small [of v] by (auto dest: arg_cong [where f = unat])

text \<open>Which tokens touch the month and the day.\<close>

lemma token_ref_frame:
  assumes "token_ref k t d = Some (n, d')"
  shows "(\<not> is_month k \<longrightarrow> month d' = month d) \<and> (\<not> is_day k \<longrightarrow> day d' = day d)
    \<and> (\<not> is_year k \<longrightarrow> year d' = year d)"
proof (cases k)
  case T_ZZ
  with assms show ?thesis by (auto elim!: utc_offset_effect)
next
  case T_ZZZ
  with assms show ?thesis by (auto elim!: utc_offset_effect)
qed (use assms in \<open>auto simp: is_month_def is_day_def is_year_def ref_four_digit_year_def ref_two_digit_year_def
      ref_month_name_def ref_field_def ref_padded_day_def ref_second_def ref_variable_second_def ref_fraction_def
      ref_variable_fraction_def ref_utc_designator_def ref_separator_def Let_def
      set_month_def set_day_def set_hour_def set_minute_def split: option.splits if_splits\<close>)

lemma ref_field_value:
  assumes "ref_field f 1 hi t d = Some (n, d')"
  obtains w where "w \<noteq> 0" and "d' = f w d"
  using assms by (auto simp: ref_field_def dest!: two_digits_nonzero split: option.splits if_splits)

lemma ref_padded_day_value:
  assumes "ref_padded_day t d = Some (n, d')"
  obtains w where "w \<noteq> 0" and "d' = d\<lparr>day := w\<rparr>"
proof -
  have "0 < decimal (day_digits t)" "decimal (day_digits t) \<le> 31"
    and d': "d' = d\<lparr>day := of_nat (decimal (day_digits t))\<rparr>"
    using assms by (simp_all add: ref_padded_day_def Let_def split: if_splits)
  then show thesis using that day_nonzero by blast
qed

lemma token_ref_date:
  assumes "token_ref k t d = Some (n, d')"
  shows "(is_month k \<longrightarrow> month d' \<noteq> 0) \<and> (is_day k \<longrightarrow> day d' \<noteq> 0)"
proof -
  consider "k = T_MMM" | "k = T_MM" | "k = T_Dstar" | "k = T_DD" | "\<not> is_month k" "\<not> is_day k"
    by (auto simp: is_month_def is_day_def)
  then show ?thesis
  proof cases
    case 1
    with assms month_position_word show ?thesis
      by (auto simp: is_month_def is_day_def ref_month_name_def split: if_splits)
  next
    case 2
    with assms have "ref_field set_month 1 12 t d = Some (n, d')" by simp
    then show ?thesis by (rule ref_field_value) (simp add: 2 is_month_def is_day_def set_month_def)
  next
    case 3
    with assms have "ref_padded_day t d = Some (n, d')" by simp
    then show ?thesis by (rule ref_padded_day_value) (simp add: 3 is_month_def is_day_def)
  next
    case 4
    with assms have "ref_field set_day 1 31 t d = Some (n, d')" by simp
    then show ?thesis by (rule ref_field_value) (simp add: 4 is_month_def is_day_def set_day_def)
  next
    case 5
    then show ?thesis by simp
  qed
qed

lemma tokens_date:
  "run_ref (map token_ref ks) t d = Some (n, d') \<Longrightarrow>
    (month d \<noteq> 0 \<or> list_ex is_month ks \<longrightarrow> month d' \<noteq> 0) \<and> (day d \<noteq> 0 \<or> list_ex is_day ks \<longrightarrow> day d' \<noteq> 0)"
proof (induction ks arbitrary: t d n)
  case (Cons k ks)
  from Cons.prems obtain m e n' where head: "token_ref k t d = Some (m, e)"
    and rest: "run_ref (map token_ref ks) (drop m t) e = Some (n', d')"
    by (auto split: option.splits)
  show ?case
    using Cons.IH [OF rest] token_ref_frame [OF head] token_ref_date [OF head]
    by (cases "is_month k"; cases "is_day k") simp_all
qed simp

lemma max_day_bound: "max_day_in_month m b \<le> 31"
  by (simp add: max_day_in_month_def)

section \<open>Properties of the parser\<close>

text \<open>Property C1. \<open>CompileFormat\<close> implements the documented format language: a format is
  accepted exactly when it splits into tokens of the grammar, its steps are those of the
  tokens in order followed by the date check when the format has a month or a day, and every
  rejected format has no steps and a message with the position of the first bad token.\<close>

theorem compile_format_grammar:
  assumes "length format \<le> max_input"
  shows "\<exists>p. CompileFormat format = Some p \<and>
    (case tokens 0 format of
       Inl (k, m) \<Rightarrow> p = make_invalid_parser format (int k) m \<and> \<not> valid p \<and> steps p = []
     | Inr ks \<Rightarrow>
         (if format = [] then p = make_invalid_parser [] 0 ''format is empty'' \<and> \<not> valid p \<and> steps p = []
          else valid p \<and> concat (map token_text ks) = format \<and> list_all wf_token ks \<and>
            steps p = map token_step ks @
              (if list_ex is_month ks \<or> list_ex is_day ks then [make_date_validator (list_ex is_year ks)] else [])))"
proof (cases "format = []")
  case True
  then show ?thesis by (simp add: CompileFormat_Nil valid_def make_invalid_parser_fields)
next
  case False
  with CompileFormat_tokens [OF assms False] tokens_text [of 0 format] show ?thesis
    by (auto simp: valid_def make_invalid_parser_fields token_program_def split: sum.split)
qed

text \<open>The tokens of a valid format, for the properties below.\<close>

definition format_tokens :: "string \<Rightarrow> token list option" where
  "format_tokens format =
     (if format = [] then None else case tokens 0 format of Inl _ \<Rightarrow> None | Inr ks \<Rightarrow> Some ks)"

lemma compiled_tokens:
  assumes "CompileFormat format = Some p" and "valid p" and "length format \<le> max_input"
  obtains ks where "format_tokens format = Some ks" and "steps p = token_program ks" and "list_all wf_token ks"
proof (cases "format = []")
  case True
  with assms make_invalid_parser_fields(2) [of "[]" 0 "''format is empty''"] show thesis
    by (auto simp: CompileFormat_Nil valid_def)
next
  case False
  with assms CompileFormat_tokens [OF assms(3) False] tokens_text [of 0 format] that show thesis
    by (auto simp: format_tokens_def valid_def make_invalid_parser_fields split: sum.splits)
qed

text \<open>Property C27. A compiled format is safe on every input: from any index inside the input
  the steps run without undefined behaviour (no read outside the string, no overflow), agree
  with the reference semantics of the tokens over the unread suffix, and the index they end at
  stays inside the input.\<close>

theorem compiled_format_safe:
  assumes "CompileFormat format = Some p" and "valid p" and "length format \<le> max_input"
    and "length s \<le> max_input" and "i \<le> length s"
  shows "\<exists>ks r. format_tokens format = Some ks \<and> run_steps (steps p) s (int i) d = Some r \<and>
    r = map_option (\<lambda>(n, d'). (int (i + n), d')) (run_ref (token_refs ks) (drop i s) d) \<and>
    (\<forall>e d'. r = Some (e, d') \<longrightarrow> int i \<le> e \<and> e \<le> int (length s))"
proof -
  obtain ks where ks: "format_tokens format = Some ks" "steps p = token_program ks" "list_all wf_token ks"
    using compiled_tokens [OF assms(1-3)] .
  show ?thesis
    using run_program [OF ks(3) assms(4,5), of d] run_program_bound [OF ks(3), of "drop i s" d] ks assms(5)
    by fastforce
qed

lemma date_ok_steps:
  assumes "run_ref (token_refs ks) t d = Some (n, d')"
  shows "\<exists>m. run_ref (map token_ref ks) t d = Some (m, d') \<and>
    (list_ex is_month ks \<or> list_ex is_day ks \<longrightarrow> month d' = 0 \<or> day d' = 0 \<or>
      day d' \<le> max_day_in_month (month d') (list_ex is_year ks \<longrightarrow> is_leap_year (year d')))"
  using assms
  by (auto simp: token_refs_def run_ref_append ref_date_validator_def split: option.splits if_splits)

text \<open>Property C28. Every timestamp a compiled format accepts has its fields in range: year
  0 to 9999, month up to 12, day up to 31, hour up to 23, minute up to 59, nanosecond below
  \<open>10^9\<close>, UTC offset below a day, the leap second flag set exactly for second 60, and the
  second itself at most 60 unless the format reads it with the unbounded \<open>s*\<close>. When the format
  has both a month and a day they form a date of the calendar (of the year parsed, or of a leap
  year when the format has none).\<close>

theorem parsed_fields_in_range:
  assumes "CompileFormat format = Some p" and "valid p" and "length format \<le> max_input"
    and "length s \<le> max_input" and "i \<le> length s"
    and "format_tokens format = Some ks"
    and "run_steps (steps p) s (int i) DateAndTime_init = Some (Some (e, d'))"
  shows "fields_in_range (T_sstar \<notin> set ks) d' \<and>
    (list_ex is_month ks \<longrightarrow> month d' \<noteq> 0) \<and> (list_ex is_day ks \<longrightarrow> day d' \<noteq> 0) \<and>
    (list_ex is_month ks \<and> list_ex is_day ks \<longrightarrow>
      uint (day d') \<le> days_in_month (list_ex is_year ks \<longrightarrow> leap (year d')) (month d'))"
proof -
  have ks: "steps p = token_program ks" "list_all wf_token ks"
    using compiled_tokens [OF assms(1-3)] assms(6) by auto
  then obtain n where run: "run_ref (token_refs ks) (drop i s) DateAndTime_init = Some (n, d')"
    using run_program [OF ks(2) assms(4,5), of DateAndTime_init] assms(7) by auto
  from date_ok_steps [OF run] obtain m where m: "run_ref (map token_ref ks) (drop i s) DateAndTime_init = Some (m, d')"
    and date: "list_ex is_month ks \<or> list_ex is_day ks \<longrightarrow> month d' = 0 \<or> day d' = 0 \<or>
      day d' \<le> max_day_in_month (month d') (list_ex is_year ks \<longrightarrow> is_leap_year (year d'))" by blast
  show ?thesis
    using tokens_range [OF m fields_in_range_init ks(2), of "T_sstar \<notin> set ks"] tokens_date [OF m] date
    by (auto simp: day_in_month leap_is_leap_year)
qed

lemma month_day_tokens: "tokens 0 ''MM-DD'' = Inr [T_MM, T_sep CHR ''-'', T_DD]"
  by code_simp

lemma month_day_format: "CompileFormat ''MM-DD'' =
    Some \<lparr>steps = token_program [T_MM, T_sep CHR ''-'', T_DD], error = []\<rparr>"
  using CompileFormat_tokens [of "''MM-DD''"] by (simp add: month_day_tokens max_input_def)

lemma month_day_run:
  "run_steps (token_program [T_MM, T_sep CHR ''-'', T_DD]) ''02-29'' (int 0) DateAndTime_init =
    Some (Some (5, DateAndTime_init\<lparr>month := 2, day := 29\<rparr>))"
proof -
  have wf: "list_all wf_token [T_MM, T_sep CHR ''-'', T_DD]" by (simp add: is_separator_def)
  have "run_ref (token_refs [T_MM, T_sep CHR ''-'', T_DD]) ''02-29'' DateAndTime_init =
      Some (5, DateAndTime_init\<lparr>month := 2, day := 29\<rparr>)"
    by code_simp
  with run_program [OF wf, of "''02-29''" 0 DateAndTime_init] show ?thesis
    by (simp add: max_input_def)
qed

lemma month_day_valid: "valid \<lparr>steps = sts, error = []\<rparr>"
  by (simp add: valid_def)

lemma month_day_format_tokens: "format_tokens ''MM-DD'' = Some [T_MM, T_sep CHR ''-'', T_DD]"
  by (simp add: format_tokens_def month_day_tokens)

theorem compile_format_grammar_witness:
  "\<exists>p. CompileFormat ''MM-DD'' = Some p \<and> valid p \<and> concat (map token_text [T_MM, T_sep CHR ''-'', T_DD]) = ''MM-DD''"
  using compile_format_grammar [of "''MM-DD''"] by (auto simp: month_day_tokens max_input_def)

theorem compiled_format_safe_witness:
  "\<exists>r. run_steps (token_program [T_MM, T_sep CHR ''-'', T_DD]) ''x!'' (int 1) DateAndTime_init = Some r"
  using compiled_format_safe [OF month_day_format month_day_valid, of "''x!''" 1 DateAndTime_init]
  by (auto simp: max_input_def)

theorem parsed_fields_in_range_witness:
  "fields_in_range True (DateAndTime_init\<lparr>month := 2, day := 29\<rparr>) \<and> uint (29 :: u32) \<le> days_in_month True 2"
  using parsed_fields_in_range [OF month_day_format month_day_valid _ _ _ month_day_format_tokens, of "''02-29''" 0 5]
    month_day_run
  by (simp add: max_input_def is_month_def is_day_def is_year_def)

end
