(* ===== verification/Timestamp_Print.thy ===== *)
theory Timestamp_Print
  imports Timestamp_Run
begin

text \<open>
  A printer for the format language and the proof that compiled formats read back what it
  writes: the parser is a left inverse of the printer on every token list in which no
  variable-length number is followed by a token that starts with a digit.
\<close>

section \<open>Numbers with a fixed number of digits\<close>

fun pad :: "nat \<Rightarrow> nat \<Rightarrow> string" where
  "pad 0 v = []"
| "pad (Suc n) v = pad n (v div 10) @ [digit_char (v mod 10)]"

lemma pad_not_Nil [simp]: "n \<noteq> 0 \<Longrightarrow> pad n v \<noteq> []"
  by (cases n) simp_all

lemma length_pad [simp]: "length (pad n v) = n"
  by (induction n arbitrary: v) simp_all

lemma pad_digits [simp]: "list_all is_digit (pad n v)"
  by (induction n arbitrary: v) simp_all

lemma decimal_pad [simp]: "decimal (pad n v) = v mod 10 ^ n"
proof (induction n arbitrary: v)
  case (Suc n)
  have "10 * (v div 10 mod 10 ^ n) + v mod 10 = v mod (10 * 10 ^ n)"
    by (simp add: mod_mult2_eq)
  with Suc show ?case by simp
qed simp

lemma two_digits_pad [simp]: "two_digits (pad 2 v @ r) = Some (v mod 100)"
  by (simp add: two_digits_def)

lemma four_digits_pad [simp]: "four_digits (pad 4 v @ r) = Some (v mod 10000)"
  by (simp add: four_digits_def)

section \<open>The printer\<close>

definition month_texts :: "string list" where
  "month_texts = [''Jan'', ''Feb'', ''Mar'', ''Apr'', ''May'', ''Jun'',
     ''Jul'', ''Aug'', ''Sep'', ''Oct'', ''Nov'', ''Dec'']"

definition print_offset :: "string \<Rightarrow> int \<Rightarrow> string" where
  "print_offset colon m =
     (if m < 0 then CHR ''-'' else CHR ''+'') # pad 2 (nat \<bar>m\<bar> div 60) @ colon @ pad 2 (nat \<bar>m\<bar> mod 60)"

fun print_token :: "DateAndTime \<Rightarrow> token \<Rightarrow> string" where
  "print_token d T_YYYY = pad 4 (nat (year d))"
| "print_token d T_YY = pad 2 (nat (year d - 2000))"
| "print_token d T_MMM = month_texts ! (unat (month d) - 1)"
| "print_token d T_MM = pad 2 (unat (month d))"
| "print_token d T_Dstar = (if day d < 10 then '' '' @ pad 1 (unat (day d)) else pad 2 (unat (day d)))"
| "print_token d T_DD = pad 2 (unat (day d))"
| "print_token d (T_hour c) = pad 2 (unat (hour d))"
| "print_token d T_mm = pad 2 (unat (minute d))"
| "print_token d T_sstar = to_string_nat (unat (second d))"
| "print_token d T_ss = pad 2 (unat (second d))"
| "print_token d T_fstar = pad 9 (unat (nanosecond d))"
| "print_token d (T_f n) = pad n (unat (nanosecond d) div 10 ^ (9 - n))"
| "print_token d T_Z = ''Z''"
| "print_token d T_ZZ = print_offset [] (the (utc_offset_minutes d))"
| "print_token d T_ZZZ = print_offset '':'' (the (utc_offset_minutes d))"
| "print_token d (T_sep c) = [c]"

definition print :: "DateAndTime \<Rightarrow> token list \<Rightarrow> string" where
  "print d ks = concat (map (print_token d) ks)"

text \<open>The values a token can express.\<close>

fun printable :: "DateAndTime \<Rightarrow> token \<Rightarrow> bool" where
  "printable d T_YYYY \<longleftrightarrow> 0 \<le> year d \<and> year d \<le> 9999"
| "printable d T_YY \<longleftrightarrow> 2000 \<le> year d \<and> year d \<le> 2099"
| "printable d T_MMM \<longleftrightarrow> 1 \<le> unat (month d) \<and> unat (month d) \<le> 12"
| "printable d T_MM \<longleftrightarrow> 1 \<le> unat (month d) \<and> unat (month d) \<le> 12"
| "printable d T_Dstar \<longleftrightarrow> 1 \<le> unat (day d) \<and> unat (day d) \<le> 31"
| "printable d T_DD \<longleftrightarrow> 1 \<le> unat (day d) \<and> unat (day d) \<le> 31"
| "printable d (T_hour c) \<longleftrightarrow> unat (hour d) \<le> 23"
| "printable d T_mm \<longleftrightarrow> unat (minute d) \<le> 59"
| "printable d T_sstar \<longleftrightarrow> True"
| "printable d T_ss \<longleftrightarrow> unat (second d) \<le> 60"
| "printable d T_fstar \<longleftrightarrow> unat (nanosecond d) < 10 ^ 9"
| "printable d (T_f n) \<longleftrightarrow> unat (nanosecond d) < 10 ^ 9 \<and> 10 ^ (9 - n) dvd unat (nanosecond d)"
| "printable d T_Z \<longleftrightarrow> utc_offset_minutes d = Some 0"
| "printable d T_ZZ \<longleftrightarrow> (\<exists>m. utc_offset_minutes d = Some m \<and> \<bar>m\<bar> < 1440)"
| "printable d T_ZZZ \<longleftrightarrow> (\<exists>m. utc_offset_minutes d = Some m \<and> \<bar>m\<bar> < 1440)"
| "printable d (T_sep c) \<longleftrightarrow> True"

text \<open>What a token reads back: its field, from the printed date into the date being filled.\<close>

fun copy_field :: "DateAndTime \<Rightarrow> token \<Rightarrow> DateAndTime \<Rightarrow> DateAndTime" where
  "copy_field d T_YYYY e = e\<lparr>year := year d\<rparr>"
| "copy_field d T_YY e = e\<lparr>year := year d\<rparr>"
| "copy_field d T_MMM e = e\<lparr>month := month d\<rparr>"
| "copy_field d T_MM e = e\<lparr>month := month d\<rparr>"
| "copy_field d T_Dstar e = e\<lparr>day := day d\<rparr>"
| "copy_field d T_DD e = e\<lparr>day := day d\<rparr>"
| "copy_field d (T_hour c) e = e\<lparr>hour := hour d\<rparr>"
| "copy_field d T_mm e = e\<lparr>minute := minute d\<rparr>"
| "copy_field d T_sstar e = e\<lparr>second := second d, leap_second := (second d = 60)\<rparr>"
| "copy_field d T_ss e = e\<lparr>second := second d, leap_second := (second d = 60)\<rparr>"
| "copy_field d T_fstar e = e\<lparr>nanosecond := nanosecond d\<rparr>"
| "copy_field d (T_f n) e = e\<lparr>nanosecond := nanosecond d\<rparr>"
| "copy_field d T_Z e = e\<lparr>utc_offset_minutes := utc_offset_minutes d\<rparr>"
| "copy_field d T_ZZ e = e\<lparr>utc_offset_minutes := utc_offset_minutes d\<rparr>"
| "copy_field d T_ZZZ e = e\<lparr>utc_offset_minutes := utc_offset_minutes d\<rparr>"
| "copy_field d (T_sep c) e = e"

definition copy_fields :: "DateAndTime \<Rightarrow> token list \<Rightarrow> DateAndTime \<Rightarrow> DateAndTime" where
  "copy_fields d ks e = foldl (\<lambda>e k. copy_field d k e) e ks"

text \<open>Tokens whose text never starts with a digit, and the lists in which every variable-length
  number is at the end or before such a token.\<close>

definition no_digit_first :: "token \<Rightarrow> bool" where
  "no_digit_first k \<longleftrightarrow>
     (case k of T_MMM \<Rightarrow> True | T_Z \<Rightarrow> True | T_ZZ \<Rightarrow> True | T_ZZZ \<Rightarrow> True | T_sep c \<Rightarrow> \<not> is_digit c | _ \<Rightarrow> False)"

fun delimited :: "token list \<Rightarrow> bool" where
  "delimited (k # k' # ks) \<longleftrightarrow> (k \<in> {T_sstar, T_fstar} \<longrightarrow> no_digit_first k') \<and> delimited (k' # ks)"
| "delimited _ \<longleftrightarrow> True"

section \<open>One token\<close>

definition stops :: "token \<Rightarrow> string \<Rightarrow> bool" where
  "stops k r \<longleftrightarrow> (k \<in> {T_sstar, T_fstar} \<longrightarrow> r = [] \<or> \<not> is_digit (hd r))"

lemma read_YYYY: "printable d T_YYYY \<Longrightarrow>
    token_ref T_YYYY (print_token d T_YYYY @ r) e = Some (4, copy_field d T_YYYY e)"
  using mod_less [of "nat (year d)" 10000] by (simp add: ref_four_digit_year_def nat_less_iff)

lemma read_YY: "printable d T_YY \<Longrightarrow>
    token_ref T_YY (print_token d T_YY @ r) e = Some (2, copy_field d T_YY e)"
  using mod_less [of "nat (year d - 2000)" 100] by (simp add: ref_two_digit_year_def nat_less_iff)

lemma read_MM: "printable d T_MM \<Longrightarrow>
    token_ref T_MM (print_token d T_MM @ r) e = Some (2, copy_field d T_MM e)"
  by (simp add: ref_field_def set_month_def)

lemma read_DD: "printable d T_DD \<Longrightarrow>
    token_ref T_DD (print_token d T_DD @ r) e = Some (2, copy_field d T_DD e)"
  by (simp add: ref_field_def set_day_def)

lemma read_hour: "printable d (T_hour c) \<Longrightarrow>
    token_ref (T_hour c) (print_token d (T_hour c) @ r) e = Some (2, copy_field d (T_hour c) e)"
  by (simp add: ref_field_def set_hour_def)

lemma read_mm: "printable d T_mm \<Longrightarrow>
    token_ref T_mm (print_token d T_mm @ r) e = Some (2, copy_field d T_mm e)"
  by (simp add: ref_field_def set_minute_def)

lemma word_unsigned_sixty: "unat (w :: u32) = 60 \<Longrightarrow> w = 60"
  by (simp add: word_unat_eq_iff)

lemma unat_is_sixty: "unat (w :: u32) = 60 \<longleftrightarrow> w = 60"
  by (auto intro: word_unsigned_sixty)

lemma read_ss: "printable d T_ss \<Longrightarrow>
    token_ref T_ss (print_token d T_ss @ r) e = Some (2, copy_field d T_ss e)"
  by (simp add: ref_second_def unat_is_sixty)

lemma read_sstar: "stops T_sstar r \<Longrightarrow>
    token_ref T_sstar (print_token d T_sstar @ r) e =
      Some (length (print_token d T_sstar), copy_field d T_sstar e)"
  using to_string_nat_digits [of "unat (second d)"] unsigned_less [of "second d"]
  by (simp add: ref_variable_second_def stops_def takeWhile_append_stop unat_is_sixty Let_def)

lemma read_fstar: "printable d T_fstar \<Longrightarrow> stops T_fstar r \<Longrightarrow>
    token_ref T_fstar (print_token d T_fstar @ r) e = Some (9, copy_field d T_fstar e)"
  by (simp add: ref_variable_fraction_def stops_def takeWhile_append_stop Let_def)

lemma read_f:
  assumes "printable d (T_f n)" and "wf_token (T_f n)"
  shows "token_ref (T_f n) (print_token d (T_f n) @ r) e = Some (n, copy_field d (T_f n) e)"
proof -
  let ?v = "unat (nanosecond d)"
  have "10 ^ n * 10 ^ (9 - n) = (10 ^ 9 :: nat)" using assms(2) by (simp flip: power_add)
  with assms(1) have "?v div 10 ^ (9 - n) < 10 ^ n" by (simp add: less_mult_imp_div_less)
  with assms show ?thesis by (simp add: ref_fraction_def del: of_nat_mult)
qed

lemma length_3E: "3 \<le> length t \<Longrightarrow> (\<And>a b c r. t = a # b # c # r \<Longrightarrow> thesis) \<Longrightarrow> thesis"
  by (auto simp: Suc_le_length_iff eval_nat_numeral)

lemma month_texts_position:
  "m < 12 \<Longrightarrow> length (month_texts ! m) = 3 \<and> position (map to_lower_ascii (month_texts ! m)) month_names = Some (Suc m)"
proof -
  have "\<forall>m \<in> set [0..<12]. length (month_texts ! m) = 3 \<and>
      position (map to_lower_ascii (month_texts ! m)) month_names = Some (Suc m)"
    by code_simp
  then show "m < 12 \<Longrightarrow> ?thesis" by simp
qed

lemma read_MMM:
  assumes "printable d T_MMM"
  shows "token_ref T_MMM (print_token d T_MMM @ r) e = Some (3, copy_field d T_MMM e)"
proof -
  have m: "unat (month d) - 1 < 12" "Suc (unat (month d) - 1) = unat (month d)"
    using assms by auto
  from month_texts_position [OF m(1)] m(2) show ?thesis
    by (simp add: ref_month_name_def)
qed

lemma pad_1: "pad 1 v = [digit_char (v mod 10)]" by simp

lemma pad_2: "pad 2 v = [digit_char (v div 10 mod 10), digit_char (v mod 10)]"
proof -
  have "pad 2 v = pad (Suc (Suc 0)) v" by (simp only: numeral_2_eq_2)
  also have "\<dots> = [digit_char (v div 10 mod 10), digit_char (v mod 10)]" by (simp only: pad.simps append.simps)
  finally show ?thesis .
qed

lemma digit_not_space: "is_digit a \<Longrightarrow> a \<noteq> CHR '' ''"
  by auto

lemma day_digits_space: "is_digit a \<Longrightarrow> day_digits (CHR '' '' # a # r) = [a]"
  by (simp add: day_digits_def)

lemma day_digits_two: "is_digit a \<Longrightarrow> is_digit b \<Longrightarrow> day_digits (a # b # r) = [a, b]"
  by (simp add: day_digits_def digit_not_space numeral_2_eq_2)

lemma read_Dstar:
  assumes "printable d T_Dstar"
  shows "token_ref T_Dstar (print_token d T_Dstar @ r) e = Some (2, copy_field d T_Dstar e)"
proof -
  let ?v = "unat (day d)"
  have v: "1 \<le> ?v" "?v \<le> 31" and word: "(of_nat ?v :: u32) = day d" using assms by simp_all
  show ?thesis
  proof (cases "day d < 10")
    case True
    then have small: "?v < 10" by (simp add: word_less_nat_alt)
    then have "day_digits (CHR '' '' # digit_char ?v # r) = [digit_char ?v]"
      by (simp add: day_digits_space)
    with True small v word show ?thesis
      by (simp add: ref_padded_day_def decimal_Cons)
  next
    case False
    have digits: "is_digit (digit_char (?v div 10 mod 10))" "is_digit (digit_char (?v mod 10))" by simp_all
    have "decimal (pad 2 ?v) = ?v" using v by simp
    then have "decimal [digit_char (?v div 10 mod 10), digit_char (?v mod 10)] = ?v" by (simp only: pad_2)
    with False v word digits day_digits_two [OF digits] digit_not_space [OF digits(1)] show ?thesis
      by (simp only: token_ref.simps print_token.simps if_False pad_2 append.simps ref_padded_day_def Let_def)
        simp
  qed
qed

lemma offset_split: "\<bar>m\<bar> < 1440 \<Longrightarrow> nat \<bar>m\<bar> div 60 \<le> 23 \<and> nat \<bar>m\<bar> mod 60 \<le> 59 \<and>
    int (nat \<bar>m\<bar> div 60) * 60 + int (nat \<bar>m\<bar> mod 60) = \<bar>m\<bar>"
proof -
  assume m: "\<bar>m\<bar> < 1440"
  have "nat \<bar>m\<bar> div 60 * 60 + nat \<bar>m\<bar> mod 60 = nat \<bar>m\<bar>" by simp
  then have "int (nat \<bar>m\<bar> div 60) * 60 + int (nat \<bar>m\<bar> mod 60) = int (nat \<bar>m\<bar>)"
    by (metis of_nat_add of_nat_mult of_nat_numeral)
  moreover have "nat \<bar>m\<bar> div 60 < 24" using m by (simp add: div_less_iff_less_mult nat_less_iff)
  moreover have "nat \<bar>m\<bar> mod 60 \<le> 59" using mod_less_divisor [of 60 "nat \<bar>m\<bar>"] by linarith
  ultimately show ?thesis by simp
qed

lemma two_digits_drop_pad [simp]: "v < 100 \<Longrightarrow> two_digits (pad 2 v @ r) = Some v"
  by simp

lemma read_offset:
  assumes "utc_offset_minutes d = Some m" and "\<bar>m\<bar> < 1440"
  shows "ref_utc_offset False (print_offset [] m @ r) e = Some (5, e\<lparr>utc_offset_minutes := Some m\<rparr>)"
    and "ref_utc_offset True (print_offset '':'' m @ r) e = Some (6, e\<lparr>utc_offset_minutes := Some m\<rparr>)"
proof -
  define h where "h = nat \<bar>m\<bar> div 60"
  define k where "k = nat \<bar>m\<bar> mod 60"
  have hk: "h \<le> 23" "k \<le> 59" "int h * 60 + int k = \<bar>m\<bar>"
    using offset_split [OF assms(2)] by (simp_all add: h_def k_def)
  have m: "m < 0 \<Longrightarrow> - (int h * 60) - int k = m" "\<not> m < 0 \<Longrightarrow> int h * 60 + int k = m"
    using hk(3) by simp_all
  obtain a b where ab: "pad 2 h = [a, b]" using pad_2 by blast
  note h2 = two_digits_pad [of h, unfolded ab, simplified]
  have h: "two_digits (a # b # x) = Some h" for x using h2 hk(1) by simp
  have k: "two_digits (pad 2 k @ r) = Some k" using hk(2) by simp
  show "ref_utc_offset False (print_offset [] m @ r) e = Some (5, e\<lparr>utc_offset_minutes := Some m\<rparr>)"
    using hk(1,2) h k m
    by (simp add: ref_utc_offset_def print_offset_def ab flip: h_def k_def)
  show "ref_utc_offset True (print_offset '':'' m @ r) e = Some (6, e\<lparr>utc_offset_minutes := Some m\<rparr>)"
    using hk(1,2) h k m
    by (simp add: ref_utc_offset_def print_offset_def ab flip: h_def k_def)
qed

lemma length_print_offset: "length (print_offset c m) = 5 + length c"
  by (simp add: print_offset_def)

lemma read_token:
  assumes "wf_token k" and "printable d k" and "stops k r"
  shows "token_ref k (print_token d k @ r) e = Some (length (print_token d k), copy_field d k e)"
proof (cases k)
  case T_MMM
  with assms have "unat (month d) - 1 < 12" by auto
  with T_MMM assms read_MMM [of d r e] month_texts_position show ?thesis by auto
next
  case (T_sep c)
  then show ?thesis by (simp add: ref_separator_def)
next
  case T_Z
  with assms show ?thesis by (simp add: ref_utc_designator_def)
next
  case T_ZZ
  with assms read_offset(1) show ?thesis by (auto simp: length_print_offset)
next
  case T_ZZZ
  with assms read_offset(2) show ?thesis by (auto simp: length_print_offset)
next
  case T_Dstar
  with assms read_Dstar [of d r e] show ?thesis by (simp split: if_splits)
next
  case (T_f n)
  with assms read_f [of d n r e] show ?thesis by simp
next
  case T_fstar
  with assms read_fstar [of d r e] show ?thesis by simp
next
  case T_sstar
  with assms read_sstar [of r d e] show ?thesis by simp
qed (use assms read_YYYY [of d r e] read_YY [of d r e] read_MM [of d r e] read_DD [of d r e]
    read_hour [of d _ r e] read_mm [of d r e] read_ss [of d r e] in \<open>simp_all\<close>)

section \<open>Token lists\<close>

lemma no_digit_first_stops:
  assumes "no_digit_first k" and "printable d k"
  shows "print_token d k @ r = [] \<or> \<not> is_digit (hd (print_token d k @ r))"
proof -
  have months: "\<forall>m \<in> set month_texts. m \<noteq> [] \<and> \<not> is_digit (hd m)" by code_simp
  have sign: "\<not> is_digit CHR ''+''" "\<not> is_digit CHR ''-''" "\<not> is_digit CHR ''Z''"
    by (simp_all add: is_digit_def)
  show ?thesis
  proof (cases k)
    case T_MMM
    with assms have "unat (month d) - 1 < length month_texts" by (auto simp: month_texts_def)
    with months have "month_texts ! (unat (month d) - 1) \<noteq> []" "\<not> is_digit (hd (month_texts ! (unat (month d) - 1)))"
      using nth_mem by blast+
    with T_MMM show ?thesis by simp
  qed (use assms sign in \<open>auto simp: no_digit_first_def print_offset_def\<close>)
qed

lemma read_tokens:
  assumes "list_all wf_token ks" and "list_all (printable d) ks" and "delimited ks"
    and "\<forall>k \<in> {T_sstar, T_fstar}. ks \<noteq> [] \<and> last ks = k \<longrightarrow> stops k r"
  shows "run_ref (map token_ref ks) (print d ks @ r) e = Some (length (print d ks), copy_fields d ks e)"
  using assms
proof (induction ks arbitrary: e)
  case Nil
  then show ?case by (simp add: print_def copy_fields_def)
next
  case (Cons k ks)
  have "stops k (print d ks @ r)"
  proof (cases ks)
    case Nil
    with Cons.prems(4) show ?thesis by (auto simp: print_def stops_def)
  next
    case (Cons k' ks')
    with Cons.prems(2,3) no_digit_first_stops [of k' d "print d ks' @ r"] show ?thesis
      by (auto simp: stops_def print_def)
  qed
  then have head: "token_ref k (print_token d k @ print d ks @ r) e =
      Some (length (print_token d k), copy_field d k e)"
    using Cons.prems read_token by simp
  have "delimited ks" using Cons.prems(3) by (cases ks) simp_all
  with Cons.IH [of "copy_field d k e"] Cons.prems head show ?case
    by (cases "ks = []") (simp_all add: print_def copy_fields_def)
qed

lemma copy_fields_date:
  "(list_ex is_month ks \<longrightarrow> month (copy_fields d ks e) = month d) \<and>
   (\<not> list_ex is_month ks \<longrightarrow> month (copy_fields d ks e) = month e) \<and>
   (list_ex is_day ks \<longrightarrow> day (copy_fields d ks e) = day d) \<and>
   (\<not> list_ex is_day ks \<longrightarrow> day (copy_fields d ks e) = day e) \<and>
   (list_ex is_year ks \<longrightarrow> year (copy_fields d ks e) = year d)"
proof (induction ks rule: rev_induct)
  case Nil
  then show ?case by (simp add: copy_fields_def)
next
  case (snoc k ks)
  have "copy_fields d (ks @ [k]) e = copy_field d k (copy_fields d ks e)" by (simp add: copy_fields_def)
  with snoc show ?case
    by (cases k) (simp_all add: is_month_def is_day_def is_year_def)
qed

text \<open>A printed date is read in front of any text \<open>r\<close> that does not lengthen a final number.\<close>

lemma read_printed:
  assumes "list_all wf_token ks" and "list_all (printable d) ks" and "delimited ks"
    and "\<forall>k \<in> {T_sstar, T_fstar}. ks \<noteq> [] \<and> last ks = k \<longrightarrow> stops k r"
    and "uint (day d) \<le> days_in_month (list_ex is_year ks \<longrightarrow> leap (year d)) (month d)"
  shows "run_ref (token_refs ks) (print d ks @ r) DateAndTime_init =
    Some (length (print d ks), copy_fields d ks DateAndTime_init)"
proof -
  have init: "month DateAndTime_init = 0" "day DateAndTime_init = 0" by (simp_all add: DateAndTime_init_def)
  show ?thesis
    using copy_fields_date [of ks d DateAndTime_init] assms(5)
    by (auto simp: token_refs_def run_ref_append read_tokens [OF assms(1-4)] ref_date_validator_def init day_in_month
        leap_is_leap_year)
qed

text \<open>Property C6. The parser reads back what the printer writes: for every compiled format whose
  variable-length numbers are delimited, a date whose fields the format can express and whose
  day exists in its month is printed to a text that the compiled steps consume completely, and
  each field the format names comes back with the printed value (the others keep the defaults
  of \<open>DateAndTime\<close>).\<close>

theorem print_parse_roundtrip:
  assumes "CompileFormat format = Some p" and "valid p" and "length format \<le> max_input"
    and "format_tokens format = Some ks" and "delimited ks" and "list_all (printable d) ks"
    and "uint (day d) \<le> days_in_month (list_ex is_year ks \<longrightarrow> leap (year d)) (month d)"
    and "length (print d ks) \<le> max_input"
  shows "run_steps (steps p) (print d ks) 0 DateAndTime_init =
    Some (Some (int (length (print d ks)), copy_fields d ks DateAndTime_init))"
proof -
  have ks: "steps p = token_program ks" "list_all wf_token ks"
    using compiled_tokens [OF assms(1-3)] assms(4) by auto
  have "run_ref (token_refs ks) (print d ks) DateAndTime_init =
      Some (length (print d ks), copy_fields d ks DateAndTime_init)"
    using read_printed [OF ks(2) assms(6,5) _ assms(7), of "[]"] by (simp add: stops_def)
  then show ?thesis
    using run_program [OF ks(2) assms(8), of 0 DateAndTime_init] ks(1) by simp
qed

definition leap_day :: DateAndTime where
  "leap_day = DateAndTime_init\<lparr>month := 2, day := 29\<rparr>"

theorem print_parse_roundtrip_witness:
  "print leap_day [T_MM, T_sep CHR ''-'', T_DD] = ''02-29'' \<and>
   run_steps (token_program [T_MM, T_sep CHR ''-'', T_DD]) ''02-29'' 0 DateAndTime_init = Some (Some (5, leap_day))"
proof -
  have printed: "print leap_day [T_MM, T_sep CHR ''-'', T_DD] = ''02-29''" by code_simp
  have d: "month leap_day = 2" "day leap_day = 29" by (simp_all add: leap_day_def)
  have ok: "delimited [T_MM, T_sep CHR ''-'', T_DD]" "list_all (printable leap_day) [T_MM, T_sep CHR ''-'', T_DD]"
    by (simp_all add: d)
  have copy: "copy_fields leap_day [T_MM, T_sep CHR ''-'', T_DD] DateAndTime_init = leap_day"
    by (simp add: copy_fields_def leap_day_def)
  have date: "uint (day leap_day) \<le> days_in_month (list_ex is_year [T_MM, T_sep CHR ''-'', T_DD] \<longrightarrow> leap (year leap_day)) (month leap_day)"
    by (simp add: d is_year_def days_in_month_def month_lengths_def)
  show ?thesis
    using print_parse_roundtrip [OF month_day_format month_day_valid _ month_day_format_tokens ok date] printed copy
    by (simp add: max_input_def)
qed

end
