(* ===== verification/Timestamp_Starts.thy ===== *)
theory Timestamp_Starts
  imports Timestamp_Parse
begin

text \<open>
  \<open>possible_parse_start_indices\<close> and \<open>nth_parse_start_index\<close> of \<open>timestamp_parser.cpp\<close>: the offsets
  of a log line at which a timestamp may start, against the list of the starts of its
  whitespace-delimited tokens.
\<close>

definition is_whitespace :: "char \<Rightarrow> bool" where
  "is_whitespace c \<longleftrightarrow> c = CHR '' '' \<or> c = CHR 0x09"

text \<open>The loop of \<open>possible_parse_start_indices\<close>, with its locals as arguments.\<close>

function indices_loop :: "string \<Rightarrow> int \<Rightarrow> int list \<Rightarrow> bool \<Rightarrow> int \<Rightarrow> int \<Rightarrow> int list ub" where
  "indices_loop s max_indices indices in_whitespace nr_of_indices index =
     (if index < int_size s then do {
        c \<leftarrow> char_at s index;
        next_index \<leftarrow> add_int index 1;
        (if \<not> in_whitespace \<and> is_whitespace c then indices_loop s max_indices indices True nr_of_indices next_index
         else if in_whitespace \<and> \<not> is_whitespace c then do {
           nr \<leftarrow> add_int nr_of_indices 1;
           (if nr = max_indices then Some (indices @ [index])
            else indices_loop s max_indices (indices @ [index]) False nr next_index)
         }
         else indices_loop s max_indices indices in_whitespace nr_of_indices next_index)
      }
      else Some indices)"
  by pat_completeness auto
termination
  by (relation "measure (\<lambda>(s, m, indices, w, nr, index). nat (int_size s - index))") (auto dest!: add_int_eq_Some)

declare indices_loop.simps [simp del]

definition possible_parse_start_indices :: "string \<Rightarrow> int \<Rightarrow> int list ub" where
  "possible_parse_start_indices s max_indices =
     (if max_indices \<le> 1 then Some [0] else indices_loop s max_indices [0] False 1 0)"

definition all_parse_start_indices :: "string \<Rightarrow> int list ub" where
  "all_parse_start_indices s = possible_parse_start_indices s int_max"

function nth_loop :: "string \<Rightarrow> int \<Rightarrow> bool \<Rightarrow> int \<Rightarrow> int \<Rightarrow> int ub" where
  "nth_loop s n in_whitespace found_indices index =
     (if index < int_size s then do {
        c \<leftarrow> char_at s index;
        next_index \<leftarrow> add_int index 1;
        (if \<not> in_whitespace \<and> is_whitespace c then nth_loop s n True found_indices next_index
         else if in_whitespace \<and> \<not> is_whitespace c then do {
           found \<leftarrow> add_int found_indices 1;
           (if found = n then Some index else nth_loop s n False found next_index)
         }
         else nth_loop s n in_whitespace found_indices next_index)
      }
      else Some (- 1))"
  by pat_completeness auto
termination
  by (relation "measure (\<lambda>(s, n, w, found, index). nat (int_size s - index))") (auto dest!: add_int_eq_Some)

declare nth_loop.simps [simp del]

definition nth_parse_start_index :: "string \<Rightarrow> int \<Rightarrow> int ub" where
  "nth_parse_start_index s n =
     (if n < 0 then Some (- 1) else if n = 0 then Some 0 else nth_loop s n False 0 0)"

section \<open>The starts of the tokens of a line\<close>

definition parse_starts :: "string \<Rightarrow> nat list" where
  "parse_starts s = 0 # [i \<leftarrow> [1..<length s]. is_whitespace (s ! (i - 1)) \<and> \<not> is_whitespace (s ! i)]"

text \<open>The same over a suffix that starts at position \<open>i\<close> after whitespace (\<open>w\<close>) or not.\<close>

fun starts_from :: "bool \<Rightarrow> nat \<Rightarrow> string \<Rightarrow> nat list" where
  "starts_from w i [] = []"
| "starts_from w i (c # r) = (if w \<and> \<not> is_whitespace c then [i] else []) @ starts_from (is_whitespace c) (Suc i) r"

lemma starts_from_filter:
  "starts_from (i \<noteq> 0 \<and> is_whitespace ((u @ t) ! (i - 1))) i t =
    [k \<leftarrow> [i..<i + length t]. k \<noteq> 0 \<and> is_whitespace ((u @ t) ! (k - 1)) \<and> \<not> is_whitespace ((u @ t) ! k)]"
  if "i = length u"
  using that
proof (induction t arbitrary: i u)
  case Nil
  then show ?case by simp
next
  case (Cons c r)
  have "[i..<i + length (c # r)] = i # [Suc i..<Suc i + length r]"
    using upt_conv_Cons [of i "i + length (c # r)"] by simp
  moreover have "(u @ c # r) ! i = c" using Cons.prems by simp
  ultimately show ?case using Cons.IH [of "Suc i" "u @ [c]"] Cons.prems by simp
qed

lemma parse_starts_eq: "parse_starts s = 0 # starts_from False 0 s"
proof -
  have "starts_from False 0 s = [k \<leftarrow> [0..<length s]. k \<noteq> 0 \<and> is_whitespace (s ! (k - 1)) \<and> \<not> is_whitespace (s ! k)]"
    using starts_from_filter [of 0 "[]" s] by simp
  also have "\<dots> = [k \<leftarrow> [1..<length s]. is_whitespace (s ! (k - 1)) \<and> \<not> is_whitespace (s ! k)]"
    by (cases s) (auto simp: upt_conv_Cons simp del: upt_Suc intro!: filter_cong)
  finally show ?thesis by (simp add: parse_starts_def)
qed

section \<open>The loops compute them\<close>

lemma indices_loop_eq:
  assumes "length (u @ t) \<le> max_input" and "0 \<le> nr" and "nr \<le> int (length u) + 1" and "nr < m"
  shows "indices_loop (u @ t) m xs w nr (int (length u)) =
    Some (xs @ map int (take (nat (m - nr)) (starts_from w (length u) t)))"
  using assms
proof (induction t arbitrary: u xs w nr)
  case Nil
  then show ?case by (subst indices_loop.simps) (simp add: int_size_input [of _ "[]", simplified])
next
  case (Cons c r)
  note sz = int_size_input [OF Cons.prems(1)]
  have i: "add_int (int (length u)) 1 = Some (int (length (u @ [c])))"
    using add_int_index [OF Cons.prems(1), of 1] by simp
  have nr': "add_int nr 1 = Some (nr + 1)"
    using Cons.prems by (simp add: add_int_def max_input_def int_max_def int_min_def)
  note ih = Cons.IH [of "u @ [c]", simplified]
  show ?case
  proof (cases "w \<and> \<not> is_whitespace c")
    case True
    have n: "nat (m - nr) = Suc (nat (m - (nr + 1)))" using Cons.prems(4) by simp
    show ?thesis
      using True Cons.prems ih [of "nr + 1" "xs @ [int (length u)]" False]
      by (subst indices_loop.simps) (simp add: sz i nr' n)
  next
    case False
    then have "indices_loop (u @ c # r) m xs w nr (int (length u))
        = indices_loop (u @ c # r) m xs (is_whitespace c) nr (int (length (u @ [c])))"
      by (subst indices_loop.simps) (auto simp: sz i)
    with False Cons.prems ih [of nr xs "is_whitespace c"] show ?thesis
      by (cases w; cases "is_whitespace c") simp_all
  qed
qed

lemma nth_loop_eq:
  assumes "length (u @ t) \<le> max_input" and "0 \<le> found" and "found \<le> int (length u)" and "found < n"
  shows "nth_loop (u @ t) n w found (int (length u)) =
    Some (let xs = starts_from w (length u) t; k = nat (n - found) - 1 in if k < length xs then int (xs ! k) else - 1)"
  using assms
proof (induction t arbitrary: u w found)
  case Nil
  then show ?case by (subst nth_loop.simps) (simp add: int_size_input [of _ "[]", simplified])
next
  case (Cons c r)
  note sz = int_size_input [OF Cons.prems(1)]
  have i: "add_int (int (length u)) 1 = Some (int (length (u @ [c])))"
    using add_int_index [OF Cons.prems(1), of 1] by simp
  have found': "add_int found 1 = Some (found + 1)"
    using Cons.prems by (simp add: add_int_def max_input_def int_max_def int_min_def)
  note ih = Cons.IH [of "u @ [c]", simplified]
  show ?case
  proof (cases "w \<and> \<not> is_whitespace c")
    case True
    show ?thesis
    proof (cases "found + 1 = n")
      case True
      with \<open>w \<and> \<not> is_whitespace c\<close> show ?thesis
        by (subst nth_loop.simps) (auto simp: sz i found')
    next
      case False
      define k where "k = nat (n - (found + 1)) - 1"
      have k: "nat (n - found) = Suc (Suc k)" "nat (n - (found + 1)) = Suc k"
        using False Cons.prems(4) by (simp_all add: k_def)
      from False True Cons.prems ih [of "found + 1" False] show ?thesis
        by (subst nth_loop.simps) (simp add: sz i found' Let_def k)
    qed
  next
    case False
    then have "nth_loop (u @ c # r) n w found (int (length u))
        = nth_loop (u @ c # r) n (is_whitespace c) found (int (length (u @ [c])))"
      by (subst nth_loop.simps) (auto simp: sz i)
    with False Cons.prems ih [of found "is_whitespace c"] show ?thesis
      by (cases w; cases "is_whitespace c") (simp_all add: Let_def)
  qed
qed

lemma possible_parse_starts:
  assumes "length s \<le> max_input"
  shows "possible_parse_start_indices s m = Some (map int (take (max 1 (nat m)) (parse_starts s)))"
proof (cases "m \<le> 1")
  case True
  then have "max 1 (nat m) = 1" by (intro max_absorb1) linarith
  with True show ?thesis by (simp add: possible_parse_start_indices_def parse_starts_def)
next
  case False
  then have "max 1 (nat m) = Suc (nat (m - 1))" by simp
  with False assms indices_loop_eq [of "[]" s 1 m "[0]" False] show ?thesis
    by (simp add: possible_parse_start_indices_def parse_starts_eq)
qed

lemma all_parse_starts:
  assumes "length s \<le> max_input"
  shows "all_parse_start_indices s = Some (map int (parse_starts s))"
proof -
  have "length (parse_starts s) \<le> Suc (length s)"
    by (auto simp: parse_starts_def intro: order_trans [OF length_filter_le])
  with assms show ?thesis
    by (simp add: all_parse_start_indices_def possible_parse_starts int_max_def max_input_def)
qed

lemma nth_parse_start:
  assumes "length s \<le> max_input"
  shows "nth_parse_start_index s n =
    Some (if 0 \<le> n \<and> nat n < length (parse_starts s) then int (parse_starts s ! nat n) else - 1)"
proof (cases "n \<le> 0")
  case True
  then show ?thesis by (simp add: nth_parse_start_index_def parse_starts_def)
next
  case False
  then have "nat n = Suc (nat n - 1)" by simp
  with False assms nth_loop_eq [of "[]" s 0 n False] show ?thesis
    by (simp add: nth_parse_start_index_def parse_starts_eq Let_def nth_Cons' del: Suc_pred)
qed

section \<open>Properties\<close>

text \<open>Property C36. \<open>possible_parse_start_indices\<close> returns the candidate start offsets the header
  documents, offset 0 and the start of every token that follows whitespace, in increasing
  order, cut to \<open>max_indices\<close> entries; the entry 0 is there even when \<open>max_indices\<close> is 0 or
  negative. No read leaves the line and no counter overflows.\<close>

theorem parse_start_indices_spec:
  assumes "length s \<le> max_input"
  shows "possible_parse_start_indices s m = Some (map int (take (max 1 (nat m)) (parse_starts s)))
    \<and> all_parse_start_indices s = Some (map int (parse_starts s))
    \<and> sorted_wrt (<) (parse_starts s)"
  using possible_parse_starts [OF assms] all_parse_starts [OF assms]
  by (auto simp: parse_starts_def intro!: sorted_wrt_filter)

text \<open>\<open>nth_parse_start_index\<close> is the \<open>n\<close>th entry of that list without building it:
  the entry when there is one, -1 for a negative \<open>n\<close> or a line with fewer candidates.\<close>

theorem nth_parse_start_index_spec:
  assumes "length s \<le> max_input"
  shows "nth_parse_start_index s n =
    Some (if 0 \<le> n \<and> nat n < length (parse_starts s) then int (parse_starts s ! nat n) else - 1)"
  using assms by (rule nth_parse_start)

theorem parse_start_indices_spec_witness:
  "possible_parse_start_indices ''a  b c'' 2 = Some [0, 3] \<and> possible_parse_start_indices ''a  b c'' 0 = Some [0]"
  using parse_start_indices_spec [of "''a  b c''" 2] parse_start_indices_spec [of "''a  b c''" 0]
  by (simp add: max_input_def parse_starts_eq is_whitespace_def)

theorem nth_parse_start_index_spec_witness: "nth_parse_start_index ''a  b c'' 2 = Some 5"
  using nth_parse_start_index_spec [of "''a  b c''" 2]
  by (simp add: max_input_def parse_starts_eq is_whitespace_def)

end
