(* ===== verification/Timestamp_Time.thy ===== *)
theory Timestamp_Time
  imports Timestamp_Run
begin

text \<open>
  \<open>DateAndTime::to_time_point\<close>. The broken-down time and \<open>timegm\<close> of the C library are modelled
  on unbounded integers with the proleptic Gregorian calendar; \<open>mktime\<close>, which depends on the
  time zone of the machine, is a parameter. A \<open>system_clock::time_point\<close> is its 64-bit count of
  nanoseconds since the epoch, and a count that does not fit is a signed overflow.
\<close>

section \<open>The C library\<close>

record tm =
  tm_year :: int
  tm_mon :: int
  tm_mday :: int
  tm_hour :: int
  tm_min :: int
  tm_sec :: int

text \<open>Leap years before year \<open>y\<close>, counted from year 1.\<close>

definition leaps_before :: "int \<Rightarrow> int" where
  "leaps_before y = (y - 1) div 4 - (y - 1) div 100 + (y - 1) div 400"

definition days_before_year :: "int \<Rightarrow> int" where
  "days_before_year y = 365 * (y - 1970) + leaps_before y - leaps_before 1970"

definition days_before_month :: "bool \<Rightarrow> int \<Rightarrow> int" where
  "days_before_month l m = sum_list (take (nat m) (month_lengths l))"

text \<open>Days from 1970-01-01 to the day of the year, month (from 0) and day of the month (from 1).\<close>

definition day_number :: "int \<Rightarrow> int \<Rightarrow> int \<Rightarrow> int" where
  "day_number y m d = days_before_year y + days_before_month (leap y) m + d - 1"

definition seconds_of :: "int \<Rightarrow> int \<Rightarrow> int \<Rightarrow> int \<Rightarrow> int" where
  "seconds_of days h m s = ((days * 24 + h) * 60 + m) * 60 + s"

text \<open>\<open>timegm\<close>: months outside the year carry into the year; a time whose year does not fit the
  \<open>int\<close> \<open>tm_year\<close> is an error.\<close>

definition timegm :: "tm \<Rightarrow> int" where
  "timegm t =
     (let y = tm_year t + 1900 + tm_mon t div 12;
          s = seconds_of (day_number y (tm_mon t mod 12) (tm_mday t)) (tm_hour t) (tm_min t) (tm_sec t)
      in if seconds_of (day_number (int_min + 1900) 0 1) 0 0 0 \<le> s
          \<and> s < seconds_of (day_number (int_max + 1901) 0 1) 0 0 0
         then s else - 1)"

section \<open>to_time_point\<close>

definition fits64 :: "int \<Rightarrow> int ub" where
  "fits64 x = (if - (2 ^ 63) \<le> x \<and> x < 2 ^ 63 then Some x else None)"

text \<open>The outer option is undefined behaviour, the inner one the \<open>std::optional\<close> of the code.\<close>

definition to_time_point :: "(tm \<Rightarrow> int) \<Rightarrow> DateAndTime \<Rightarrow> int option ub" where
  "to_time_point mktime d = do {
     y \<leftarrow> add_int (year d) (- 1900);
     mon \<leftarrow> add_int (sint (month d)) (- 1);
     let timestamp = \<lparr>tm_year = y, tm_mon = mon, tm_mday = sint (day d), tm_hour = sint (hour d),
       tm_min = sint (minute d), tm_sec = sint (min (second d) 59)\<rparr>;
     let epoch_seconds = (if utc_offset_minutes d \<noteq> None then timegm timestamp else mktime timestamp);
     (if epoch_seconds = - 1 then Some None
      else do {
        let epoch_seconds = (case utc_offset_minutes d of None \<Rightarrow> epoch_seconds | Some m \<Rightarrow> epoch_seconds - m * 60);
        sec_ns \<leftarrow> fits64 (epoch_seconds * 1000000000);
        duration \<leftarrow> fits64 (sec_ns + uint (nanosecond d));
        Some (Some duration)
      })
   }"

section \<open>The calendar\<close>

lemma div_step: "0 < n \<Longrightarrow> (y :: int) div n = (y - 1) div n + (if n dvd y then 1 else 0)"
proof (cases "n dvd y")
  case True
  assume n: "0 < n"
  from True obtain k where "y = n * k" by (elim dvdE)
  moreover have "(n * k - 1) div n = k - 1"
    using n by (intro int_div_pos_eq [of _ _ _ "n - 1"]) (simp_all add: algebra_simps)
  ultimately show ?thesis using n by simp
next
  case False
  assume n: "0 < n"
  have "y mod n \<noteq> 0" using False by (simp add: mod_eq_0_iff_dvd)
  with n have "1 \<le> y mod n" by (metis int_one_le_iff_zero_less order_le_less pos_mod_sign)
  moreover have "y mod n < n" using n by simp
  moreover have "y - 1 = n * (y div n) + (y mod n - 1)" using mult_div_mod_eq [of n y] by linarith
  ultimately have "(y - 1) div n = y div n" using int_div_pos_eq [of "y - 1" n "y div n" "y mod n - 1"] by linarith
  with False show ?thesis by simp
qed

lemma leap_count:
  "(q \<Longrightarrow> p) \<Longrightarrow> (r \<Longrightarrow> q) \<Longrightarrow>
    (if p \<and> (q \<longrightarrow> r) then 1 else 0) = (if p then 1 else 0) - (if q then 1 else 0) + (if r then 1 else (0 :: int))"
  by (cases p; cases q; cases r) simp_all

lemma leaps_before_Suc: "leaps_before (y + 1) = leaps_before y + (if leap y then 1 else 0)"
proof -
  have extra: "(if leap y then 1 else 0) =
      (if 4 dvd y then 1 else 0) - (if 100 dvd y then 1 else 0) + (if 400 dvd y then 1 else (0 :: int))"
    unfolding leap_def by (rule leap_count) (erule dvd_chain)+
  have steps: "y div 4 = (y - 1) div 4 + (if 4 dvd y then 1 else 0)"
    "y div 100 = (y - 1) div 100 + (if 100 dvd y then 1 else 0)"
    "y div 400 = (y - 1) div 400 + (if 400 dvd y then 1 else 0)"
    by (rule div_step, simp)+
  show ?thesis unfolding leaps_before_def add_diff_cancel extra using steps by linarith
qed

lemma days_before_year_Suc: "days_before_year (y + 1) = days_before_year y + (if leap y then 366 else 365)"
  by (simp add: days_before_year_def leaps_before_Suc)

lemma days_before_month_Suc:
  "0 \<le> m \<Longrightarrow> m < 12 \<Longrightarrow> days_before_month l (m + 1) = days_before_month l m + month_lengths l ! nat m"
  by (simp add: days_before_month_def nat_add_distrib take_Suc_conv_app_nth)

lemma days_before_month_12: "days_before_month l 12 = (if l then 366 else 365)"
  by (simp add: days_before_month_def month_lengths_def)

lemma days_before_month_0 [simp]: "days_before_month l 0 = 0"
  by (simp add: days_before_month_def)

text \<open>The civil successor of a day, and the day number it has.\<close>

definition next_day :: "int \<times> int \<times> int \<Rightarrow> int \<times> int \<times> int" where
  "next_day = (\<lambda>(y, m, d).
     if d < month_lengths (leap y) ! nat m then (y, m, d + 1)
     else if m < 11 then (y, m + 1, 1) else (y + 1, 0, 1))"

lemma day_number_next:
  assumes "0 \<le> m" and "m < 12" and "d \<le> month_lengths (leap y) ! nat m" and "next_day (y, m, d) = (y', m', d')"
  shows "day_number y' m' d' = day_number y m d + 1"
proof -
  consider "d < month_lengths (leap y) ! nat m" | "d = month_lengths (leap y) ! nat m" "m < 11"
    | "d = month_lengths (leap y) ! nat m" "m = 11" using assms(2,3) by linarith
  then show ?thesis
  proof cases
    case 1
    with assms(4) show ?thesis by (auto simp: next_day_def day_number_def)
  next
    case 2
    with assms show ?thesis by (auto simp: next_day_def day_number_def days_before_month_Suc)
  next
    case 3
    with assms(4) have "y' = y + 1" "m' = 0" "d' = 1" by (simp_all add: next_day_def)
    moreover have "days_before_month (leap y) 11 + month_lengths (leap y) ! nat 11 = (if leap y then 366 else 365)"
      using days_before_month_Suc [of 11 "leap y"] days_before_month_12 [of "leap y"] by simp
    ultimately show ?thesis
      using 3 days_before_year_Suc [of y] by (simp only: day_number_def days_before_month_0)
  qed
qed

section \<open>Bounds\<close>

lemma leaps_before_mono: "y \<le> z \<Longrightarrow> leaps_before y \<le> leaps_before z"
  by (induction z rule: int_ge_induct) (simp_all add: leaps_before_Suc)

lemma days_before_year_mono:
  assumes "y \<le> z"
  shows "days_before_year y \<le> days_before_year z"
  using leaps_before_mono [OF assms] assms by (simp add: days_before_year_def)

lemma days_before_month_mono: "m \<le> n \<Longrightarrow> 0 \<le> m \<Longrightarrow> n \<le> 12 \<Longrightarrow> days_before_month l m \<le> days_before_month l n"
proof (induction n rule: int_ge_induct)
  case (step n)
  have "\<forall>k \<in> set (month_lengths l). 0 \<le> k" by (simp add: month_lengths_def)
  then have "0 \<le> month_lengths l ! nat n" using step by simp
  with step days_before_month_Suc [of n l] show ?case by simp
qed simp

lemma days_before_month_bounds:
  assumes "0 \<le> m" and "m < 12"
  shows "0 \<le> days_before_month l m \<and> days_before_month l m \<le> (if l then 366 else 365)"
  using days_before_month_mono [of 0 m l] days_before_month_mono [of m 12 l] days_before_month_12 [of l] assms
  by simp

lemma day_number_valid:
  assumes "0 \<le> m" and "m < 12" and "1 \<le> d" and "d \<le> month_lengths (leap y) ! nat m"
  shows "days_before_year y \<le> day_number y m d \<and> day_number y m d < days_before_year (y + 1)"
  using days_before_month_bounds [of m "leap y"] days_before_month_mono [of "m + 1" 12 "leap y"]
    days_before_month_Suc [of m "leap y"] days_before_month_12 [of "leap y"] days_before_year_Suc [of y] assms
  by (simp add: day_number_def)

lemma day_number_any:
  assumes "0 \<le> m" and "m < 12" and "0 \<le> d" and "d \<le> 31"
  shows "days_before_year y - 1 \<le> day_number y m d \<and> day_number y m d \<le> days_before_year (y + 1) + 30"
  using days_before_month_bounds [of m "leap y"] days_before_year_Suc [of y] assms
  by (auto simp: day_number_def split: if_splits)

lemma timegm_range:
  "seconds_of (day_number (int_min + 1900) 0 1) 0 0 0 = - 67768040609740800"
  "seconds_of (day_number (int_max + 1901) 0 1) 0 0 0 = 67768036191676800"
  by (simp_all add: seconds_of_def day_number_def days_before_year_def leaps_before_def int_min_def int_max_def)

lemma signed_take_bit_nat: "k < 2147483648 \<Longrightarrow> signed_take_bit 31 (int k) = int k"
  by (intro signed_take_bit_int_eq_self) simp_all

lemma sint_small:
  assumes "unat (w :: u32) < 2147483648"
  shows "sint w = int (unat w)"
proof -
  have w: "uint w = int (unat w)" by (rule uint_nat)
  have "sint w = signed_take_bit 31 (int (unat w))" unfolding sint_uint w by simp
  also have "\<dots> = int (unat w)" using assms by (rule signed_take_bit_nat)
  finally show ?thesis .
qed


lemma sint_le:
  assumes "(w :: u32) \<le> of_nat n" and "n < 2147483648"
  shows "sint w = uint w" and "uint w \<le> int n"
proof -
  have n: "unat w \<le> n" using assms by (simp add: word_le_nat_alt unat_small)
  then have "sint w = int (unat w)" using assms(2) by (intro sint_small) simp
  then show "sint w = uint w" by simp
  from n have "int (unat w) \<le> int n" by (simp only: of_nat_le_iff)
  then show "uint w \<le> int n" by simp
qed

lemma uint_pos: "(w :: u32) \<noteq> 0 \<Longrightarrow> 0 < uint w"
  by (metis order_le_less uint_0_iff uint_ge_0)

definition civil_month :: "DateAndTime \<Rightarrow> int" where
  "civil_month d = uint (month d) - 1"

text \<open>The epoch seconds of the civil fields read as UTC, a leap second as the second before it.\<close>

definition civil_seconds :: "DateAndTime \<Rightarrow> int" where
  "civil_seconds d =
     seconds_of (day_number (year d) (civil_month d) (uint (day d)))
       (uint (hour d)) (uint (minute d)) (min (uint (second d)) 59)"

lemma in_range_sint:
  assumes "fields_in_range b d"
  shows "sint (month d) = uint (month d) \<and> uint (month d) \<le> 12"
    and "sint (day d) = uint (day d) \<and> uint (day d) \<le> 31"
    and "sint (hour d) = uint (hour d) \<and> uint (hour d) \<le> 23"
    and "sint (minute d) = uint (minute d) \<and> uint (minute d) \<le> 59"
    and "uint (nanosecond d) < 1000000000"
  using assms sint_le [of "month d" 12] sint_le [of "day d" 31] sint_le [of "hour d" 23] sint_le [of "minute d" 59]
  by (simp_all add: fields_in_range_def word_less_def word_le_def)

lemma sint_min_59: "sint (min (w :: u32) 59) = min (uint w) 59"
proof -
  have "uint (min w 59) = min (uint w) 59" by (simp add: min_def word_le_def)
  moreover have "sint (min w 59) = uint (min w 59)" by (rule sint_le [of _ 59]) simp_all
  ultimately show ?thesis by simp
qed

text \<open>With the fields in range the code computes the civil seconds.\<close>

lemma seconds_bounds:
  assumes "0 \<le> h" and "h \<le> 23" and "0 \<le> m" and "m \<le> 59" and "0 \<le> s" and "s \<le> 59"
  shows "days * 86400 \<le> seconds_of days h m s \<and> seconds_of days h m s < days * 86400 + 86400"
  using assms by (simp add: seconds_of_def)

definition timestamp_tm :: "DateAndTime \<Rightarrow> tm" where
  "timestamp_tm d = \<lparr>tm_year = year d - 1900, tm_mon = civil_month d, tm_mday = uint (day d),
     tm_hour = uint (hour d), tm_min = uint (minute d), tm_sec = min (uint (second d)) 59\<rparr>"

lemma to_time_point_utc:
  assumes "fields_in_range b d" and "utc_offset_minutes d = Some m"
  shows "to_time_point mktime d =
    (if timegm (timestamp_tm d) = - 1 then Some None
     else do {
       sec_ns \<leftarrow> fits64 ((timegm (timestamp_tm d) - m * 60) * 1000000000);
       duration \<leftarrow> fits64 (sec_ns + uint (nanosecond d));
       Some (Some duration)
     })"
proof -
  note sints = in_range_sint [OF assms(1)]
  have y: "add_int (year d) (- 1900) = Some (year d - 1900)"
    using assms(1) by (simp add: fields_in_range_def add_int_def int_min_def int_max_def)
  have "add_int k (- 1) = Some (k - 1)" if "0 \<le> k" "k \<le> 12" for k
    using that by (simp add: add_int_def int_min_def int_max_def)
  then have "add_int (uint (month d)) (- 1) = Some (civil_month d)"
    using sints(1) unfolding civil_month_def by simp
  then have mon: "add_int (sint (month d)) (- 1) = Some (civil_month d)" using sints(1) by metis
  have tm: "\<lparr>tm_year = year d - 1900, tm_mon = civil_month d, tm_mday = sint (day d), tm_hour = sint (hour d),
       tm_min = sint (minute d), tm_sec = sint (min (second d) 59)\<rparr> = timestamp_tm d"
    unfolding timestamp_tm_def sint_min_59 using sints by metis
  show ?thesis
    unfolding to_time_point_def y mon Option.bind.bind_lunit Let_def tm assms(2) by simp
qed

definition valid_civil_date :: "DateAndTime \<Rightarrow> bool" where
  "valid_civil_date d \<longleftrightarrow>
     month d \<noteq> 0 \<and> day d \<noteq> 0 \<and> uint (day d) \<le> days_in_month (leap (year d)) (month d)"

lemma valid_civil_dateD:
  assumes "fields_in_range b d" and "valid_civil_date d"
  shows "0 \<le> civil_month d \<and> civil_month d < 12 \<and> 1 \<le> uint (day d) \<and>
    uint (day d) \<le> month_lengths (leap (year d)) ! nat (civil_month d)"
proof -
  have m: "1 \<le> uint (month d)" "uint (month d) \<le> 12" and d: "1 \<le> uint (day d)"
    using assms(2) uint_pos [of "month d"] uint_pos [of "day d"] in_range_sint(1) [OF assms(1)]
    by (simp_all add: valid_civil_date_def)
  have "uint (day d) \<le> days_in_month (leap (year d)) (month d)"
    using assms(2) by (simp add: valid_civil_date_def)
  with m d show ?thesis by (simp add: civil_month_def days_in_month_def)
qed

text \<open>A missing month is month -1 of \<open>struct tm\<close>: December of the year before.\<close>

definition tm_day :: "DateAndTime \<Rightarrow> int" where
  "tm_day d = (if month d = 0 then day_number (year d - 1) 11 (uint (day d))
     else day_number (year d) (civil_month d) (uint (day d)))"

lemma tm_day_bounds:
  assumes "fields_in_range b d"
  shows "days_before_year (year d - 1) - 1 \<le> tm_day d \<and> tm_day d \<le> days_before_year (year d + 1) + 30"
proof -
  have day: "0 \<le> uint (day d)" "uint (day d) \<le> 31"
    using in_range_sint(2) [OF assms] by simp_all
  have "0 \<le> civil_month d" "civil_month d < 12" if "month d \<noteq> 0"
    using uint_pos [OF that] in_range_sint(1) [OF assms] by (simp_all add: civil_month_def)
  then show ?thesis
    using day_number_any [of 11 "uint (day d)" "year d - 1"] day
      day_number_any [of "civil_month d" "uint (day d)" "year d"]
      days_before_year_mono [of "year d - 1" "year d"] days_before_year_mono [of "year d" "year d + 1"]
    unfolding tm_day_def by (cases "month d = 0") simp_all
qed

lemma year_days:
  "0 \<le> year d \<Longrightarrow> year d \<le> 9999 \<Longrightarrow>
    - 800000 \<le> days_before_year (year d - 1) \<and> days_before_year (year d + 1) \<le> 3000000"
proof -
  assume "0 \<le> year d" "year d \<le> 9999"
  then have "days_before_year (- 1) \<le> days_before_year (year d - 1)"
    "days_before_year (year d + 1) \<le> days_before_year 10000"
    by (simp_all add: days_before_year_mono)
  moreover have "days_before_year (- 1) = - 719893" "days_before_year 10000 = 2932897"
    by (simp_all add: days_before_year_def leaps_before_def)
  ultimately show ?thesis by linarith
qed

lemma timegm_tm_day:
  assumes "fields_in_range b d"
  shows "timegm (timestamp_tm d) =
    seconds_of (tm_day d) (uint (hour d)) (uint (minute d)) (min (uint (second d)) 59)"
    (is "_ = ?s")
proof -
  note sints = in_range_sint [OF assms]
  have range: "0 \<le> year d" "year d \<le> 9999" using assms by (simp_all add: fields_in_range_def)
  have s: "tm_day d * 86400 \<le> ?s" "?s < tm_day d * 86400 + 86400"
    using seconds_bounds [of "uint (hour d)" "uint (minute d)" "min (uint (second d)) 59" "tm_day d"] sints
    by simp_all
  have day: "- 900000 \<le> tm_day d" "tm_day d \<le> 3000030"
    using tm_day_bounds [OF assms] year_days [OF range] by linarith+
  have "- 67768040609740800 \<le> ?s" using s(1) day(1) by linarith
  moreover have "?s < 67768036191676800" using s(2) day(2) by linarith
  moreover have "day_number (tm_year (timestamp_tm d) + 1900 + tm_mon (timestamp_tm d) div 12)
      (tm_mon (timestamp_tm d) mod 12) (tm_mday (timestamp_tm d)) = tm_day d"
  proof (cases "month d = 0")
    case True
    then show ?thesis by (simp add: timestamp_tm_def tm_day_def civil_month_def)
  next
    case False
    then have "0 \<le> civil_month d" "civil_month d < 12"
      using uint_pos [OF False] sints(1) by (simp_all add: civil_month_def)
    with False show ?thesis by (simp add: timestamp_tm_def tm_day_def)
  qed
  ultimately show ?thesis
    unfolding timegm_def Let_def timegm_range by (simp add: timestamp_tm_def)
qed

lemma timegm_civil:
  "fields_in_range b d \<Longrightarrow> month d \<noteq> 0 \<Longrightarrow> timegm (timestamp_tm d) = civil_seconds d"
  by (simp add: timegm_tm_day tm_day_def civil_seconds_def)

section \<open>Properties\<close>

lemma offset_bound: "fields_in_range b d \<Longrightarrow> utc_offset_minutes d = Some m \<Longrightarrow> \<bar>m\<bar> < 1440"
  by (simp add: fields_in_range_def)

lemma civil_seconds_bounds:
  assumes "fields_in_range b d" and "valid_civil_date d" and "1678 \<le> year d" and "year d \<le> 2261"
  shows "- 9214560000 \<le> civil_seconds d \<and> civil_seconds d < 9214646400"
proof -
  note sints = in_range_sint [OF assms(1)]
  note date = valid_civil_dateD [OF assms(1,2)]
  have day: "days_before_year (year d) \<le> day_number (year d) (civil_month d) (uint (day d))"
    "day_number (year d) (civil_month d) (uint (day d)) < days_before_year (year d + 1)"
    using day_number_valid [of "civil_month d" "uint (day d)" "year d"] date by simp_all
  have "days_before_year 1678 \<le> days_before_year (year d)" "days_before_year (year d + 1) \<le> days_before_year 2262"
    using assms(3,4) by (simp_all add: days_before_year_mono)
  moreover have "days_before_year 1678 = - 106650" "days_before_year 2262 = 106651"
    by (simp_all add: days_before_year_def leaps_before_def)
  ultimately have "- 106650 \<le> day_number (year d) (civil_month d) (uint (day d))"
    "day_number (year d) (civil_month d) (uint (day d)) + 1 \<le> 106651"
    using day by linarith+
  moreover have "day_number (year d) (civil_month d) (uint (day d)) * 86400 \<le> civil_seconds d"
    "civil_seconds d < day_number (year d) (civil_month d) (uint (day d)) * 86400 + 86400"
    using seconds_bounds [of "uint (hour d)" "uint (minute d)" "min (uint (second d)) 59"] sints
    by (simp_all add: civil_seconds_def)
  ultimately have "- 9214560000 \<le> civil_seconds d" "civil_seconds d < 9214646400" by linarith+
  then show ?thesis by simp
qed

lemma to_time_point_value:
  assumes "fields_in_range b d" and "valid_civil_date d" and "1678 \<le> year d" and "year d \<le> 2261"
    and "utc_offset_minutes d = Some m" and "civil_seconds d \<noteq> - 1"
  shows "to_time_point mktime d = Some (Some ((civil_seconds d - m * 60) * 1000000000 + uint (nanosecond d)))"
proof -
  have bounds: "- 9214560000 \<le> civil_seconds d" "civil_seconds d < 9214646400"
    using civil_seconds_bounds [OF assms(1-4)] by simp_all
  have m: "- 86400 < m * 60" "m * 60 < 86400" using offset_bound [OF assms(1,5)] by linarith+
  have ns: "0 \<le> uint (nanosecond d)" "uint (nanosecond d) < 1000000000"
    using in_range_sint(5) [OF assms(1)] by simp_all
  define x where "x = civil_seconds d - m * 60"
  have x: "- 9223372036 < x" "x < 9223372036" using bounds m by (simp_all add: x_def)
  then have one: "fits64 (x * 1000000000) = Some (x * 1000000000)" by (simp add: fits64_def)
  have two: "fits64 (x * 1000000000 + uint (nanosecond d)) = Some (x * 1000000000 + uint (nanosecond d))"
  proof -
    have "- 9223372036854775808 \<le> x * 1000000000 + uint (nanosecond d)"
      "x * 1000000000 + uint (nanosecond d) < 9223372036854775808" using x ns by linarith+
    then show ?thesis by (simp add: fits64_def)
  qed
  have "month d \<noteq> 0" using assms(2) by (simp add: valid_civil_date_def)
  from timegm_civil [OF assms(1) this] show ?thesis
    unfolding to_time_point_utc [OF assms(1,5)] x_def [symmetric] using one two assms(6) by (simp add: x_def)
qed

lemma to_time_point_civil:
  assumes "fields_in_range b d" and "valid_civil_date d" and "1678 \<le> year d" and "year d \<le> 2261"
    and "utc_offset_minutes d = Some m"
  shows "to_time_point mktime d =
    Some (if civil_seconds d = - 1 then None
          else Some ((civil_seconds d - m * 60) * 1000000000 + uint (nanosecond d)))"
proof (cases "civil_seconds d = - 1")
  case True
  have "month d \<noteq> 0" using assms(2) by (simp add: valid_civil_date_def)
  with True timegm_civil [OF assms(1)] show ?thesis by (simp add: to_time_point_utc [OF assms(1,5)])
next
  case False
  with to_time_point_value [OF assms] show ?thesis by simp
qed

text \<open>Property C29. For a date of the calendar in the years 1678 to 2261 with a UTC offset,
  \<open>to_time_point\<close> has no overflow and is the exact instant in nanoseconds: the civil time read as
  UTC minus the offset, a leap second counted as the second 59 before it. The one failure is
  the civil time 1969-12-31 23:59:59, whose epoch second is the error value of \<open>timegm\<close>.\<close>

theorem to_time_point_instant:
  assumes "fields_in_range b d" and "valid_civil_date d" and "1678 \<le> year d" and "year d \<le> 2261"
    and "utc_offset_minutes d = Some m"
  shows "to_time_point mktime d =
    Some (if civil_seconds d = - 1 then None
          else Some ((civil_seconds d - m * 60) * 1000000000 + uint (nanosecond d)))"
  using assms by (rule to_time_point_civil)

text \<open>Property C40. Before the year 1677 and after 2263 the conversion overflows the 64-bit nanosecond
  count, which is undefined behaviour, for every date a format with a UTC token accepts. A
  format without a year leaves year 0, so every such timestamp is in this case.\<close>

theorem to_time_point_overflow:
  assumes "fields_in_range b d" and "utc_offset_minutes d = Some m" and "year d \<le> 1676 \<or> 2264 \<le> year d"
  shows "to_time_point mktime d = None"
proof -
  note sints = in_range_sint [OF assms(1)]
  have m: "- 86400 < m * 60" "m * 60 < 86400" using offset_bound [OF assms(1,2)] by linarith+
  have s: "tm_day d * 86400 \<le> timegm (timestamp_tm d)" "timegm (timestamp_tm d) < tm_day d * 86400 + 86400"
    using seconds_bounds [of "uint (hour d)" "uint (minute d)" "min (uint (second d)) 59" "tm_day d"] sints
    by (simp_all add: timegm_tm_day [OF assms(1)])
  have days: "days_before_year 1677 = - 107015" "days_before_year 2263 = 107016"
    by (simp_all add: days_before_year_def leaps_before_def)
  from assms(3) have "timegm (timestamp_tm d) - m * 60 < - 9223372037 \<or> 9223372037 < timegm (timestamp_tm d) - m * 60"
  proof
    assume "year d \<le> 1676"
    then have "days_before_year (year d + 1) \<le> days_before_year 1677" by (simp add: days_before_year_mono)
    then have "tm_day d + 1 \<le> - 106984" using tm_day_bounds [OF assms(1)] days by linarith
    with s(2) m show ?thesis by linarith
  next
    assume "2264 \<le> year d"
    then have "days_before_year 2263 \<le> days_before_year (year d - 1)" by (simp add: days_before_year_mono)
    then have "107015 \<le> tm_day d" using tm_day_bounds [OF assms(1)] days by linarith
    with s(1) m show ?thesis by linarith
  qed
  then have "fits64 ((timegm (timestamp_tm d) - m * 60) * 1000000000) = None" "timegm (timestamp_tm d) \<noteq> - 1"
    using m by (auto simp: fits64_def)
  then show ?thesis unfolding to_time_point_utc [OF assms(1,2)] by simp
qed

text \<open>The instants follow the calendar: when one date is the civil successor of the
  other (month lengths, leap years and the change of the year included) and time of day and
  offset agree, their time points differ by exactly one day.\<close>

theorem to_time_point_next_day:
  assumes "fields_in_range b d" and "valid_civil_date d" and "1678 \<le> year d"
    and "fields_in_range b' e" and "valid_civil_date e" and "year e \<le> 2261"
    and "next_day (year d, civil_month d, uint (day d)) = (year e, civil_month e, uint (day e))"
    and "hour e = hour d" and "minute e = minute d" and "second e = second d" and "nanosecond e = nanosecond d"
    and "utc_offset_minutes d = Some m" and "utc_offset_minutes e = Some m"
    and "civil_seconds d \<noteq> - 1" and "civil_seconds e \<noteq> - 1"
  shows "\<exists>t. to_time_point mktime d = Some (Some t) \<and> to_time_point mktime e = Some (Some (t + 86400 * 1000000000))"
proof -
  note date = valid_civil_dateD [OF assms(1,2)]
  have years: "year d \<le> year e" "year e \<le> year d + 1"
    using assms(7) by (auto simp: next_day_def split: if_splits)
  have "day_number (year e) (civil_month e) (uint (day e)) = day_number (year d) (civil_month d) (uint (day d)) + 1"
    using day_number_next [OF _ _ _ assms(7)] date by simp
  then have "civil_seconds e = civil_seconds d + 86400"
    using assms(8-10) by (simp add: civil_seconds_def seconds_of_def)
  moreover have "to_time_point mktime d = Some (Some ((civil_seconds d - m * 60) * 1000000000 + uint (nanosecond d)))"
    using to_time_point_value [OF assms(1-3) _ assms(12,14)] years assms(6) by simp
  moreover have "to_time_point mktime e = Some (Some ((civil_seconds e - m * 60) * 1000000000 + uint (nanosecond d)))"
    using to_time_point_value [OF assms(4,5) _ assms(6,13,15)] years assms(3,11) by simp
  ultimately show ?thesis by simp
qed

section \<open>Instances\<close>

definition example_date :: "int \<Rightarrow> u32 \<Rightarrow> u32 \<Rightarrow> DateAndTime" where
  "example_date y m d = DateAndTime_init\<lparr>year := y, month := m, day := d, utc_offset_minutes := Some 60\<rparr>"

lemma example_date_in_range:
  "0 \<le> y \<Longrightarrow> y \<le> 9999 \<Longrightarrow> m \<le> 12 \<Longrightarrow> d \<le> 31 \<Longrightarrow> fields_in_range True (example_date y m d)"
  by (simp add: fields_in_range_def example_date_def DateAndTime_init_def)

lemma example_date_fields [simp]:
  "year (example_date y m d) = y" "month (example_date y m d) = m" "day (example_date y m d) = d"
  "utc_offset_minutes (example_date y m d) = Some 60" "hour (example_date y m d) = 0"
  "minute (example_date y m d) = 0" "second (example_date y m d) = 0" "nanosecond (example_date y m d) = 0"
  by (simp_all add: example_date_def DateAndTime_init_def)

lemma example_days:
  "valid_civil_date (example_date 2024 2 29)" "civil_seconds (example_date 2024 2 29) = 1709164800"
  "valid_civil_date (example_date 2024 3 1)" "civil_seconds (example_date 2024 3 1) = 1709251200"
  by (simp_all add: valid_civil_date_def days_in_month_def civil_seconds_def
      seconds_of_def day_number_def days_before_year_def leaps_before_def days_before_month_def
      month_lengths_def leap_def civil_month_def)

theorem to_time_point_instant_witness:
  "to_time_point (\<lambda>_. 0) (example_date 2024 2 29) = Some (Some 1709161200000000000)"
  using to_time_point_instant [OF example_date_in_range example_days(1), of 60 "\<lambda>_. 0"]
  by (simp add: example_days)

theorem to_time_point_overflow_witness: "to_time_point (\<lambda>_. 0) (example_date 0 2 29) = None"
  by (rule to_time_point_overflow [OF example_date_in_range, of _ _ _ 60]) simp_all

theorem to_time_point_next_day_witness:
  "\<exists>t. to_time_point (\<lambda>_. 0) (example_date 2024 2 29) = Some (Some t) \<and>
    to_time_point (\<lambda>_. 0) (example_date 2024 3 1) = Some (Some (t + 86400 * 1000000000))"
  by (rule to_time_point_next_day [OF example_date_in_range example_days(1) _ example_date_in_range example_days(3)])
    (simp_all add: example_days next_day_def civil_month_def month_lengths_def leap_def)

text \<open>The civil time 1969-12-31 23:59:59 is refused at every UTC offset, not only at
  offset 0 where it is the instant before the epoch.\<close>

theorem to_time_point_refuses_civil_minus_one:
  "to_time_point mktime (DateAndTime_init\<lparr>year := 1969, month := 12, day := 31, hour := 23, minute := 59,
     second := 59, utc_offset_minutes := Some m\<rparr>) = Some None"
  by (simp add: to_time_point_def add_int_def int_min_def int_max_def DateAndTime_init_def timegm_def
      seconds_of_def day_number_def days_before_year_def leaps_before_def days_before_month_def
      month_lengths_def leap_def Let_def)

end
