(* ===== verification/Timestamp_Line.thy ===== *)
theory Timestamp_Line
  imports Timestamp_Print Timestamp_Starts Timestamp_Time
begin

text \<open>
  The parts of the timestamp parser together: a timestamp printed somewhere in a line is among the
  candidate start offsets, the compiled format reads it there in front of whatever follows, and
  \<open>to_time_point\<close> gives the instant that was printed.
\<close>

section \<open>Formats that name an instant\<close>

definition is_hour :: "token \<Rightarrow> bool" where "is_hour k \<longleftrightarrow> (case k of T_hour _ \<Rightarrow> True | _ \<Rightarrow> False)"

definition is_second :: "token \<Rightarrow> bool" where "is_second k \<longleftrightarrow> k \<in> {T_ss, T_sstar}"

definition is_fraction :: "token \<Rightarrow> bool" where
  "is_fraction k \<longleftrightarrow> (case k of T_f _ \<Rightarrow> True | T_fstar \<Rightarrow> True | _ \<Rightarrow> False)"

definition is_offset :: "token \<Rightarrow> bool" where "is_offset k \<longleftrightarrow> k \<in> {T_Z, T_ZZ, T_ZZZ}"

definition names_instant :: "token list \<Rightarrow> bool" where
  "names_instant ks \<longleftrightarrow> list_ex is_year ks \<and> list_ex is_month ks \<and> list_ex is_day ks \<and> list_ex is_hour ks \<and>
     list_ex (\<lambda>k. k = T_mm) ks \<and> list_ex is_second ks \<and> list_ex is_offset ks"

lemmas token_kinds = is_year_def is_month_def is_day_def is_hour_def is_second_def is_fraction_def is_offset_def

lemma copy_fields_snoc: "copy_fields d (ks @ [k]) e = copy_field d k (copy_fields d ks e)"
  by (simp add: copy_fields_def)

lemma copy_fields_time:
  "(list_ex is_hour ks \<longrightarrow> hour (copy_fields d ks e) = hour d) \<and>
   (list_ex (\<lambda>k. k = T_mm) ks \<longrightarrow> minute (copy_fields d ks e) = minute d) \<and>
   (list_ex is_second ks \<longrightarrow> second (copy_fields d ks e) = second d) \<and>
   (list_ex is_offset ks \<longrightarrow> utc_offset_minutes (copy_fields d ks e) = utc_offset_minutes d) \<and>
   nanosecond (copy_fields d ks e) = (if list_ex is_fraction ks then nanosecond d else nanosecond e)"
proof (induction ks rule: rev_induct)
  case Nil
  then show ?case by (simp add: copy_fields_def)
next
  case (snoc k ks)
  then show ?case by (cases k) (simp_all add: copy_fields_snoc token_kinds)
qed

section \<open>The start of a printed timestamp\<close>

lemma parse_starts_here:
  assumes "t \<noteq> []" and "\<not> is_whitespace (hd t)" and "pre = [] \<or> is_whitespace (last pre)"
  shows "length pre \<in> set (parse_starts (pre @ t))"
proof (cases pre rule: rev_cases)
  case (snoc u c)
  have "(pre @ t) ! (length pre - 1) = c" "(pre @ t) ! length pre = hd t"
    using snoc assms(1) by (simp_all add: nth_append hd_conv_nth)
  with snoc assms show ?thesis by (simp add: parse_starts_def del: upt_Suc)
qed (simp add: parse_starts_def)

lemma nth_start_here:
  assumes "k \<in> set (parse_starts s)" and "length s \<le> max_input"
  shows "\<exists>n. nth_parse_start_index s n = Some (int k)"
proof -
  obtain n where "n < length (parse_starts s)" "parse_starts s ! n = k" using assms(1) by (auto simp: in_set_conv_nth)
  with nth_parse_start [OF assms(2), of "int n"] show ?thesis by (intro exI [of _ "int n"]) simp
qed

section \<open>The instant of the fields read\<close>

lemma printed_not_Nil: "list_ex is_year ks \<Longrightarrow> print d ks \<noteq> []"
  by (auto simp: print_def list_ex_iff is_year_def intro: bexI [of _ T_YYYY] bexI [of _ T_YY])

lemma printable_date:
  assumes "list_all (printable d) ks" and "list_ex is_month ks" and "list_ex is_day ks"
  shows "month d \<noteq> 0 \<and> day d \<noteq> 0"
proof -
  have "1 \<le> unat (month d)" "1 \<le> unat (day d)"
    using assms by (auto simp: list_all_iff list_ex_iff is_month_def is_day_def)
  then show ?thesis by auto
qed

lemma printable_offset:
  assumes "list_all (printable d) ks" and "list_ex is_offset ks"
  shows "utc_offset_minutes d = Some (the (utc_offset_minutes d))"
proof -
  obtain k where "printable d k" "is_offset k" using assms by (auto simp: list_all_iff list_ex_iff)
  then show ?thesis by (auto simp: is_offset_def)
qed

lemma printed_instant:
  assumes "list_all wf_token ks" and "list_all (printable d) ks"
    and "names_instant ks" and "list_ex is_fraction ks \<or> nanosecond d = 0"
    and "uint (day d) \<le> days_in_month (leap (year d)) (month d)" and "1678 \<le> year d" and "year d \<le> 2261"
    and "run_ref (token_refs ks) t DateAndTime_init = Some (n, copy_fields d ks DateAndTime_init)"
  shows "to_time_point mktime (copy_fields d ks DateAndTime_init) =
      Some (if civil_seconds d = - 1 then None
            else Some ((civil_seconds d - the (utc_offset_minutes d) * 60) * 1000000000 + uint (nanosecond d)))"
proof -
  let ?e = "copy_fields d ks DateAndTime_init"
  have fields: "year ?e = year d" "month ?e = month d" "day ?e = day d" "hour ?e = hour d" "minute ?e = minute d"
    "second ?e = second d" "nanosecond ?e = nanosecond d" "utc_offset_minutes ?e = utc_offset_minutes d"
    using copy_fields_date [of ks d DateAndTime_init] copy_fields_time [of ks d DateAndTime_init] assms(3,4)
    by (auto simp: names_instant_def DateAndTime_init_def split: if_splits)
  from date_ok_steps [OF assms(8)] tokens_range [OF _ fields_in_range_init assms(1), of t _ ?e "T_sstar \<notin> set ks"]
  have "fields_in_range (T_sstar \<notin> set ks) ?e" by auto
  moreover have "valid_civil_date ?e"
    using printable_date [OF assms(2)] assms(3,5) by (simp add: valid_civil_date_def names_instant_def fields)
  moreover have "utc_offset_minutes ?e = Some (the (utc_offset_minutes d))"
    using printable_offset [OF assms(2)] assms(3) by (simp add: names_instant_def fields)
  moreover have "civil_seconds ?e = civil_seconds d" by (simp add: civil_seconds_def civil_month_def fields)
  ultimately show ?thesis
    using to_time_point_civil [of "T_sstar \<notin> set ks" ?e "the (utc_offset_minutes d)" mktime] assms(6,7)
    by (simp add: fields)
qed

section \<open>Property\<close>

text \<open>Property C2. Whatever stands before and after it in a line, a timestamp printed after whitespace is
  found and read back to the instant it was printed from: its offset is among the candidates of
  \<open>possible_parse_start_indices\<close> and is some \<open>nth_parse_start_index\<close>, the compiled format stops exactly behind it,
  and \<open>to_time_point\<close> of the fields read is the printed civil time minus the printed UTC offset, to
  the nanosecond (the civil time 1969-12-31 23:59:59, whose epoch second is the error value of \<open>timegm\<close>, gives
  no result). The format names all fields of the instant, and the text behind does not go on with
  a digit when the format ends with a variable-length number.\<close>

theorem timestamp_line_instant:
  assumes "CompileFormat format = Some p" and "valid p" and "length format \<le> max_input"
    and "format_tokens format = Some ks" and "delimited ks" and "list_all (printable d) ks"
    and "names_instant ks" and "list_ex is_fraction ks \<or> nanosecond d = 0"
    and "uint (day d) \<le> days_in_month (leap (year d)) (month d)" and "1678 \<le> year d" and "year d \<le> 2261"
    and "length (pre @ print d ks @ post) \<le> max_input"
    and "pre = [] \<or> is_whitespace (last pre)" and "\<not> is_whitespace (hd (print d ks))"
    and "last ks \<in> {T_sstar, T_fstar} \<longrightarrow> post = [] \<or> \<not> is_digit (hd post)"
  shows "\<exists>is n e. all_parse_start_indices (pre @ print d ks @ post) = Some is \<and> int (length pre) \<in> set is \<and>
    nth_parse_start_index (pre @ print d ks @ post) n = Some (int (length pre)) \<and>
    run_steps (steps p) (pre @ print d ks @ post) (int (length pre)) DateAndTime_init =
      Some (Some (int (length (pre @ print d ks)), e)) \<and>
    to_time_point mktime e =
      Some (if civil_seconds d = - 1 then None
            else Some ((civil_seconds d - the (utc_offset_minutes d) * 60) * 1000000000 + uint (nanosecond d)))"
proof -
  let ?line = "pre @ print d ks @ post" and ?e = "copy_fields d ks DateAndTime_init"
  have ks: "steps p = token_program ks" "list_all wf_token ks"
    using compiled_tokens [OF assms(1-3)] assms(4) by auto
  have year: "list_ex is_year ks" and month: "list_ex is_month ks" and day: "list_ex is_day ks"
    using assms(7) by (simp_all add: names_instant_def)
  have read: "run_ref (token_refs ks) (print d ks @ post) DateAndTime_init = Some (length (print d ks), ?e)"
    using assms(15) year by (intro read_printed [OF ks(2) assms(6,5)]) (auto simp: stops_def assms(9))
  have run: "run_steps (steps p) ?line (int (length pre)) DateAndTime_init = Some (Some (int (length (pre @ print d ks)), ?e))"
    using run_program [OF ks(2) assms(12), of "length pre" DateAndTime_init] read ks(1) by simp
  have start: "length pre \<in> set (parse_starts ?line)"
    using parse_starts_here [of "print d ks @ post" pre] assms(13,14) printed_not_Nil [OF year] by simp
  have "to_time_point mktime ?e = Some (if civil_seconds d = - 1 then None
            else Some ((civil_seconds d - the (utc_offset_minutes d) * 60) * 1000000000 + uint (nanosecond d)))"
    using printed_instant [OF ks(2) assms(6-11) read] .
  with all_parse_starts [OF assms(12)] nth_start_here [OF start assms(12)] start run show ?thesis by force
qed

section \<open>An instance\<close>

definition example_tokens :: "token list" where
  "example_tokens = [T_YYYY, T_sep CHR ''-'', T_MM, T_sep CHR ''-'', T_DD, T_sep CHR '' '', T_hour CHR ''h'',
     T_sep CHR '':'', T_mm, T_sep CHR '':'', T_ss, T_Z]"

definition example_instant :: DateAndTime where
  "example_instant = DateAndTime_init\<lparr>year := 2024, month := 2, day := 29, hour := 12, minute := 34, second := 56,
     utc_offset_minutes := Some 0\<rparr>"

lemma example_instant_fields [simp]:
  "year example_instant = 2024" "month example_instant = 2" "day example_instant = 29" "hour example_instant = 12"
  "minute example_instant = 34" "second example_instant = 56" "nanosecond example_instant = 0"
  "utc_offset_minutes example_instant = Some 0"
  by (simp_all add: example_instant_def DateAndTime_init_def)

lemma example_format:
  "tokens 0 ''YYYY-MM-DD hh:mm:ssZ'' = Inr example_tokens"
  "print example_instant example_tokens = ''2024-02-29 12:34:56Z''"
  by code_simp+

lemma example_compiled:
  "CompileFormat ''YYYY-MM-DD hh:mm:ssZ'' = Some \<lparr>steps = token_program example_tokens, error = []\<rparr>"
  "format_tokens ''YYYY-MM-DD hh:mm:ssZ'' = Some example_tokens"
  using CompileFormat_tokens [of "''YYYY-MM-DD hh:mm:ssZ''"] by (simp_all add: example_format format_tokens_def max_input_def)

lemma example_instant_ok:
  "delimited example_tokens" "list_all (printable example_instant) example_tokens" "names_instant example_tokens"
  "uint (day example_instant) \<le> days_in_month (leap (year example_instant)) (month example_instant)"
  "last example_tokens = T_Z"
  by (simp_all add: example_tokens_def names_instant_def token_kinds days_in_month_def month_lengths_def leap_def)

lemma example_civil_seconds: "civil_seconds example_instant = 1709210096"
  by (simp add: civil_seconds_def seconds_of_def day_number_def days_before_year_def leaps_before_def
      days_before_month_def month_lengths_def leap_def civil_month_def)

theorem timestamp_line_instant_witness:
  "\<exists>n e. nth_parse_start_index ''node1 2024-02-29 12:34:56Z up'' n = Some 6 \<and>
    run_steps (token_program example_tokens) ''node1 2024-02-29 12:34:56Z up'' 6 DateAndTime_init = Some (Some (26, e)) \<and>
    to_time_point (\<lambda>_. 0) e = Some (Some 1709210096000000000)"
proof -
  have line: "''node1 2024-02-29 12:34:56Z up'' = ''node1 '' @ print example_instant example_tokens @ '' up''"
    by (simp add: example_format)
  show ?thesis
    unfolding line
    using timestamp_line_instant [OF example_compiled(1) month_day_valid _ example_compiled(2) example_instant_ok(1-3) _
        example_instant_ok(4), of "''node1 ''" "'' up''" "\<lambda>_. 0"]
    by (auto simp: example_format example_civil_seconds max_input_def is_whitespace_def example_instant_ok(5))
qed

end
