(* ===== verification/Transitions.thy ===== *)
theory Transitions
  imports Prelude
begin

text \<open>
  Reachable states of the asynchronous components. A component gives its initial states and its
  step relation (a user call, a completion by the operating system, or the \<open>io_context\<close> running
  one posted handler, in any order); the locales carry an invariant to all reachable states and
  give the stop protocol its shape.
\<close>

inductive reachable :: "('s \<Rightarrow> bool) \<Rightarrow> ('s \<Rightarrow> 's \<Rightarrow> bool) \<Rightarrow> 's \<Rightarrow> bool" for init step where
  start: "init s \<Longrightarrow> reachable init step s"
| more: "reachable init step s \<Longrightarrow> step s s' \<Longrightarrow> reachable init step s'"

locale invariant_system =
  fixes init :: "'s \<Rightarrow> bool" and step :: "'s \<Rightarrow> 's \<Rightarrow> bool" and inv :: "'s \<Rightarrow> bool"
  assumes inv_init: "init s \<Longrightarrow> inv s"
    and inv_step: "inv s \<Longrightarrow> step s s' \<Longrightarrow> inv s'"
begin

lemma reachable_inv: "reachable init step s \<Longrightarrow> inv s"
  by (induction rule: reachable.induct) (auto intro: inv_init inv_step)

end

text \<open>
  A component that is stopped asynchronously: every stop request it accepts registers a callback,
  and it owes that callback exactly one call. \<open>owed\<close> is the number of callbacks still registered,
  \<open>pending\<close> those on their way through the \<open>io_context\<close>, \<open>called\<close> the calls made.
\<close>

locale stop_protocol = invariant_system +
  fixes requests owed pending called :: "'a \<Rightarrow> nat" and idle :: "'a \<Rightarrow> bool"
  assumes balance: "inv s \<Longrightarrow> owed s + pending s + called s = requests s"
    and idle_settled: "inv s \<Longrightarrow> idle s \<Longrightarrow> owed s = 0 \<and> pending s = 0"
begin

lemma called_at_most_requests: "reachable init step s \<Longrightarrow> called s \<le> requests s"
  using balance [OF reachable_inv, of s] by simp

lemma idle_called: "reachable init step s \<Longrightarrow> idle s \<Longrightarrow> called s = requests s"
  using balance [OF reachable_inv, of s] idle_settled [OF reachable_inv, of s] by simp

end

text \<open>
  What the owner of a component relies on when it stops it: \<open>stop\<close> is accepted unless a stop was
  requested before, nothing else requests one, and once it was requested and the component has
  drained its one callback has been called. \<open>run\<close> are the steps of the component that are not
  calls of its owner.
\<close>

locale stoppable =
  fixes ok :: "'s \<Rightarrow> bool" and run :: "'s \<Rightarrow> 's \<Rightarrow> bool" and stop :: "'s \<Rightarrow> bool \<times> 's"
    and requested :: "'s \<Rightarrow> bool" and calls :: "'s \<Rightarrow> nat list" and drained :: "'s \<Rightarrow> bool"
  assumes ok_run: "ok s \<Longrightarrow> run s s' \<Longrightarrow> ok s'"
    and ok_stop: "ok s \<Longrightarrow> ok (snd (stop s))"
    and run_requested: "run s s' \<Longrightarrow> requested s' = requested s"
    and run_calls: "run s s' \<Longrightarrow> length (calls s) \<le> length (calls s')"
    and stop_accepted: "ok s \<Longrightarrow> \<not> requested s \<Longrightarrow> fst (stop s) \<and> requested (snd (stop s))"
    and calls_at_most: "ok s \<Longrightarrow> length (calls s) \<le> of_bool (requested s)"
    and drained_called: "ok s \<Longrightarrow> requested s \<Longrightarrow> drained s \<Longrightarrow> calls s \<noteq> []"
begin

text \<open>The owner has waited for the component: the callback of the only stop has been called.\<close>

definition finished :: "'s \<Rightarrow> bool" where
  "finished s \<longleftrightarrow> ok s \<and> length (calls s) = 1"

lemma finished_run: "finished s \<Longrightarrow> run s s' \<Longrightarrow> finished s'"
  using ok_run [of s s'] run_calls [of s s'] calls_at_most [of s'] by (cases "requested s'") (auto simp: finished_def)

lemma called_finished: "ok s \<Longrightarrow> calls s \<noteq> [] \<Longrightarrow> finished s"
  using calls_at_most [of s] by (cases "calls s"; cases "requested s") (auto simp: finished_def)

lemma drained_finished: "ok s \<Longrightarrow> requested s \<Longrightarrow> drained s \<Longrightarrow> finished s"
  by (rule called_finished [OF _ drained_called])

lemma not_called: "ok s \<Longrightarrow> \<not> requested s \<Longrightarrow> calls s = []"
  using calls_at_most [of s] by simp

end

text \<open>How an asynchronous operation of the operating system ends, as far as the code looks at
  the \<open>boost::system::error_code\<close>.\<close>

datatype error_code = No_error | Operation_aborted | Other_error

text \<open>Counting the handlers of a kind in the queue of an \<open>io_context\<close>.\<close>

definition jobs :: "('h \<Rightarrow> bool) \<Rightarrow> 'h list \<Rightarrow> nat" where
  "jobs P q = length (filter P q)"

lemma jobs_simps [simp]:
  "jobs P [] = 0" "jobs P (h # q) = (if P h then 1 else 0) + jobs P q" "jobs P (q @ r) = jobs P q + jobs P r"
  by (simp_all add: jobs_def)

lemma jobs_map_const [simp]: "jobs P (map (\<lambda>_. h) xs) = (if P h then length xs else 0)"
  by (induction xs) simp_all

lemma jobs_replicate [simp]: "jobs P (replicate n h) = (if P h then n else 0)"
  by (induction n) simp_all

lemma jobs_mem: "h \<in> set q \<Longrightarrow> P h \<Longrightarrow> 1 \<le> jobs P q"
  by (induction q) auto

lemma jobs_0: "jobs P q = 0 \<longleftrightarrow> (\<forall>h \<in> set q. \<not> P h)"
  by (simp add: jobs_def filter_empty_conv)

end
