(* ===== verification/Spinlock.thy ===== *)
theory Spinlock
  imports Transitions
begin

text \<open>
  \<open>eestv/threading/spinlock_mutex.hpp\<close>: a mutex on one atomic flag, under any number of threads.
  Every \<open>test_and_set\<close> and every \<open>clear\<close> is one atomic step, so the loop of \<open>lock\<close> is a thread that
  may take its next iteration at any time.
\<close>

section \<open>Model\<close>

text \<open>\<open>std::atomic_flag::test_and_set\<close> returns the old value.\<close>

definition test_and_set :: "bool \<Rightarrow> bool \<times> bool" where
  "test_and_set flag = (flag, True)"

datatype spin_pc = Outside | In_lock | Holding

record 'tid Spinlock =
  spin_flag :: bool
  pc :: "'tid \<Rightarrow> spin_pc"

definition SpinlockMutex_new :: "'tid Spinlock" where
  "SpinlockMutex_new = \<lparr>spin_flag = False, pc = (\<lambda>_. Outside)\<rparr>"

text \<open>One iteration of the loop in \<open>lock\<close>: the thread leaves it when the flag was clear.\<close>

definition lock_iteration :: "'tid \<Rightarrow> 'tid Spinlock \<Rightarrow> 'tid Spinlock" where
  "lock_iteration t s =
     (let (old, new) = test_and_set (spin_flag s)
      in if old then s\<lparr>spin_flag := new\<rparr>
         else s\<lparr>spin_flag := new, pc := (pc s)(t := Holding)\<rparr>)"

definition unlock :: "'tid \<Rightarrow> 'tid Spinlock \<Rightarrow> 'tid Spinlock" where
  "unlock t s = s\<lparr>spin_flag := False, pc := (pc s)(t := Outside)\<rparr>"

text \<open>Threads call \<open>lock\<close> when they do not hold the mutex and \<open>unlock\<close> when they do.\<close>

inductive spin_step :: "'tid Spinlock \<Rightarrow> 'tid Spinlock \<Rightarrow> bool" where
  call_lock: "pc s t = Outside \<Longrightarrow> spin_step s (s\<lparr>pc := (pc s)(t := In_lock)\<rparr>)"
| spin: "pc s t = In_lock \<Longrightarrow> spin_step s (lock_iteration t s)"
| release: "pc s t = Holding \<Longrightarrow> spin_step s (unlock t s)"

definition spin_init :: "'tid Spinlock \<Rightarrow> bool" where
  "spin_init s \<longleftrightarrow> s = SpinlockMutex_new"

section \<open>Invariant\<close>

definition spin_inv :: "'tid Spinlock \<Rightarrow> bool" where
  "spin_inv s \<longleftrightarrow>
     (\<forall>t u. pc s t = Holding \<and> pc s u = Holding \<longrightarrow> t = u) \<and> (spin_flag s \<longleftrightarrow> (\<exists>t. pc s t = Holding))"

lemma lock_iteration_free: "\<not> spin_flag s \<Longrightarrow> lock_iteration t s = s\<lparr>spin_flag := True, pc := (pc s)(t := Holding)\<rparr>"
  by (simp add: lock_iteration_def test_and_set_def)

lemma lock_iteration_taken: "spin_flag s \<Longrightarrow> lock_iteration t s = s"
  by (simp add: lock_iteration_def test_and_set_def)

lemma spin_step_inv:
  assumes "spin_step s s'" and "spin_inv s"
  shows "spin_inv s'"
  using assms(1)
proof cases
  case (call_lock t)
  then have "pc s' u = Holding \<longleftrightarrow> pc s u = Holding" for u by simp
  with call_lock assms(2) show ?thesis by (simp add: spin_inv_def)
next
  case (spin t)
  with assms(2) show ?thesis
    by (cases "spin_flag s") (auto simp: spin_inv_def lock_iteration_free lock_iteration_taken)
next
  case (release t)
  with assms(2) show ?thesis by (auto simp: spin_inv_def unlock_def)
qed

interpretation spinlock: invariant_system spin_init spin_step spin_inv
proof
  show "spin_init s \<Longrightarrow> spin_inv s" for s :: "'tid Spinlock"
    by (simp add: spin_init_def SpinlockMutex_new_def spin_inv_def)
qed (rule spin_step_inv)

section \<open>Properties\<close>

text \<open>Property C34. Mutual exclusion and progress: in every interleaving at most one thread holds the
  spinlock; while it is free, the next iteration of any thread in \<open>lock\<close> takes it; while it is
  held, an iteration changes nothing; and a release lets the next iteration of any waiting thread
  succeed.\<close>

theorem spinlock_mutual_exclusion:
  assumes "reachable spin_init spin_step s"
  shows "(\<forall>t u. pc s t = Holding \<and> pc s u = Holding \<longrightarrow> t = u) \<and>
    (\<forall>t. pc s t = In_lock \<longrightarrow>
      (if \<exists>u. pc s u = Holding then lock_iteration t s = s else pc (lock_iteration t s) t = Holding)) \<and>
    (\<forall>t u. pc s t = Holding \<and> pc s u = In_lock \<longrightarrow> pc (lock_iteration u (unlock t s)) u = Holding)"
proof -
  have inv: "spin_inv s" by (rule spinlock.reachable_inv [OF assms])
  then have "if \<exists>u. pc s u = Holding then lock_iteration t s = s else pc (lock_iteration t s) t = Holding" for t
    by (cases "spin_flag s") (auto simp: spin_inv_def lock_iteration_free lock_iteration_taken)
  moreover have "pc (lock_iteration u (unlock t s)) u = Holding" for t u
    by (simp add: unlock_def lock_iteration_free)
  ultimately show ?thesis using inv by (auto simp: spin_inv_def)
qed

text \<open>Two threads, of which the first has taken the lock.\<close>

definition taken_lock :: "bool Spinlock" where
  "taken_lock = lock_iteration True (SpinlockMutex_new\<lparr>pc := ((\<lambda>_. Outside)(True := In_lock))(False := In_lock)\<rparr>)"

theorem spinlock_mutual_exclusion_witness:
  "pc taken_lock True = Holding \<and> lock_iteration False taken_lock = taken_lock"
proof -
  let ?s = "SpinlockMutex_new :: bool Spinlock"
  let ?a = "?s\<lparr>pc := (pc ?s)(True := In_lock)\<rparr>"
  let ?b = "?a\<lparr>pc := (pc ?a)(False := In_lock)\<rparr>"
  have b: "?b = ?s\<lparr>pc := ((\<lambda>_. Outside)(True := In_lock))(False := In_lock)\<rparr>"
    by (simp add: SpinlockMutex_new_def)
  have "reachable spin_init spin_step ?s" by (rule reachable.start) (simp add: spin_init_def)
  then have "reachable spin_init spin_step ?a"
    by (rule reachable.more) (rule spin_step.call_lock, simp add: SpinlockMutex_new_def)
  then have "reachable spin_init spin_step ?b"
    by (rule reachable.more) (rule spin_step.call_lock, simp add: SpinlockMutex_new_def)
  then have "reachable spin_init spin_step taken_lock"
    unfolding taken_lock_def b [symmetric] by (rule reachable.more) (rule spin_step.spin, simp)
  moreover have "pc taken_lock True = Holding" "pc taken_lock False = In_lock"
    by (simp_all add: taken_lock_def lock_iteration_free SpinlockMutex_new_def)
  moreover from this have "\<exists>u. pc taken_lock u = Holding" by blast
  ultimately show ?thesis
    using spinlock_mutual_exclusion [of taken_lock, THEN conjunct2, THEN conjunct1, THEN spec [of _ False]] by auto
qed

end
