(* ===== verification/Linear_Buffer.thy ===== *)
theory Linear_Buffer
  imports Prelude
begin

text \<open>
  \<open>eestv/data/linear_buffer.{hpp,cpp}\<close>: \<open>LinearBuffer\<close>, a byte vector with a write index, a
  read index and a fill count. Pointers into the vector are offsets; a copy through the write
  pointer is \<open>write_bytes\<close>, undefined outside the vector. The locale \<open>byte_queue\<close> states what
  the serializers and the connections (whose templates take any buffer class) rely on.
\<close>

section \<open>State and operations\<close>

record LinearBuffer =
  buffer :: "byte list"
  head :: nat
  tail :: nat
  bsize :: nat

definition LinearBuffer_new :: "nat \<Rightarrow> LinearBuffer" where
  "LinearBuffer_new n = \<lparr>buffer = replicate n 0, head = 0, tail = 0, bsize = 0\<rparr>"

text \<open>
  \<open>get_read_head\<close> returns the number of readable bytes and the read pointer. The address of
  \<open>_buffer[_tail]\<close> exists only inside the vector.
\<close>

definition get_read_head :: "LinearBuffer \<Rightarrow> nat \<times> nat option" where
  "get_read_head b = (bsize b, if bsize b > 0 then Some (tail b) else None)"

definition reset_if_empty :: "LinearBuffer \<Rightarrow> LinearBuffer" where
  "reset_if_empty b = (if bsize b = 0 then b\<lparr>head := 0, tail := 0\<rparr> else b)"

definition consume :: "nat \<Rightarrow> LinearBuffer \<Rightarrow> bool \<times> LinearBuffer" where
  "consume n b =
     (if n > bsize b then (False, b)
      else (True, reset_if_empty (b\<lparr>tail := tail b + n, bsize := bsize b - n\<rparr>)))"

definition get_write_head :: "LinearBuffer \<Rightarrow> nat \<times> nat option" where
  "get_write_head b =
     (let space_to_end = length (buffer b) - head b;
          total_free = length (buffer b) - bsize b;
          size_out = (if space_to_end < total_free then space_to_end else total_free)
      in (size_out, if size_out > 0 then Some (head b) else None))"

definition commit :: "nat \<Rightarrow> LinearBuffer \<Rightarrow> bool \<times> LinearBuffer" where
  "commit n b =
     (let writable = fst (get_write_head b)
      in if n > writable then (False, b)
         else (True, b\<lparr>head := head b + n, bsize := bsize b + n\<rparr>))"

text \<open>
  Storing through the write pointer (\<open>memcpy\<close>, \<open>write_head[i] = x\<close>, the kernel filling the
  region of an \<open>async_read_some\<close>) and loading through the read pointer.
\<close>

definition write_bytes :: "nat \<Rightarrow> byte list \<Rightarrow> LinearBuffer \<Rightarrow> LinearBuffer ub" where
  "write_bytes p bs b =
     (if p + length bs \<le> length (buffer b)
      then Some (b\<lparr>buffer := take p (buffer b) @ bs @ drop (p + length bs) (buffer b)\<rparr>)
      else None)"

definition read_bytes :: "nat \<Rightarrow> nat \<Rightarrow> LinearBuffer \<Rightarrow> byte list ub" where
  "read_bytes p n b =
     (if p + n \<le> length (buffer b) then Some (take n (drop p (buffer b))) else None)"

section \<open>Invariant and abstraction\<close>

text \<open>
  The readable bytes are the segment between the two indices, which lies inside the vector;
  an empty buffer that has been consumed starts again at 0 (\<open>reset_if_empty\<close>), a fresh
  one does so by construction, so an empty buffer always has its whole capacity free.
\<close>

definition buffer_inv :: "LinearBuffer \<Rightarrow> bool" where
  "buffer_inv b \<longleftrightarrow> head b = tail b + bsize b \<and> head b \<le> length (buffer b) \<and> (bsize b = 0 \<longrightarrow> tail b = 0)"

definition contents :: "LinearBuffer \<Rightarrow> byte list" where
  "contents b = take (bsize b) (drop (tail b) (buffer b))"

definition capacity :: "LinearBuffer \<Rightarrow> nat" where
  "capacity b = length (buffer b)"

definition writable :: "LinearBuffer \<Rightarrow> nat" where
  "writable b = fst (get_write_head b)"

text \<open>The idiom of every producer: copy through the write pointer, then commit.\<close>

definition append_bytes :: "byte list \<Rightarrow> LinearBuffer \<Rightarrow> LinearBuffer" where
  "append_bytes bs b =
     (case write_bytes (head b) bs b of None \<Rightarrow> b | Some b' \<Rightarrow> snd (commit (length bs) b'))"

lemma buffer_inv_new [simp]: "buffer_inv (LinearBuffer_new n)"
  by (simp add: buffer_inv_def LinearBuffer_new_def)

lemma writable_eq: "buffer_inv b \<Longrightarrow> writable b = capacity b - head b"
  by (auto simp: writable_def get_write_head_def buffer_inv_def capacity_def Let_def)

lemma get_write_head_eq:
  "get_write_head b = (writable b, if writable b > 0 then Some (head b) else None)"
  unfolding writable_def get_write_head_def Let_def by simp

lemma length_contents [buffer_simps]: "buffer_inv b \<Longrightarrow> length (contents b) = bsize b"
  by (auto simp: buffer_inv_def contents_def)

lemma get_read_head_eq [buffer_simps]:
  "buffer_inv b \<Longrightarrow>
    get_read_head b = (length (contents b), if contents b = [] then None else Some (tail b))"
  by (auto simp: get_read_head_def length_contents simp flip: length_greater_0_conv)

lemma commit_inv: "buffer_inv b \<Longrightarrow> buffer_inv (snd (commit n b))"
  by (cases "n = 0")
    (auto simp: commit_def Let_def writable_def [symmetric] writable_eq buffer_inv_def capacity_def)

lemma consume_inv: "buffer_inv b \<Longrightarrow> buffer_inv (snd (consume n b))"
  by (auto simp: consume_def reset_if_empty_def buffer_inv_def)

lemma write_bytes_inv: "buffer_inv b \<Longrightarrow> write_bytes p bs b = Some b' \<Longrightarrow> buffer_inv b'"
  by (auto simp: write_bytes_def buffer_inv_def split: if_splits)

lemma write_bytes_Some:
  "buffer_inv b \<Longrightarrow> length bs \<le> writable b \<Longrightarrow> write_bytes (head b) bs b \<noteq> None"
  by (auto simp: write_bytes_def writable_eq buffer_inv_def capacity_def)

lemma fst_commit: "fst (commit n b) \<longleftrightarrow> n \<le> writable b"
  by (simp add: commit_def writable_def Let_def)

lemma fst_consume: "buffer_inv b \<Longrightarrow> fst (consume n b) \<longleftrightarrow> n \<le> length (contents b)"
  by (simp add: consume_def length_contents)

lemma consume_contents [buffer_simps]:
  assumes "buffer_inv b"
  shows "contents (snd (consume n b)) = (if n \<le> length (contents b) then drop n (contents b) else contents b)"
proof -
  have "contents (reset_if_empty b') = contents b'" for b'
    by (simp add: reset_if_empty_def contents_def)
  moreover have "take (bsize b - n) (drop (tail b + n) (buffer b)) = drop n (contents b)"
    by (simp add: contents_def drop_take add.commute)
  ultimately show ?thesis
    using assms by (auto simp: consume_def length_contents) (auto simp: contents_def)
qed

lemma consume_capacity [buffer_simps]: "capacity (snd (consume n b)) = capacity b"
  by (simp add: consume_def capacity_def reset_if_empty_def)

text \<open>Writing at the write index leaves the readable bytes alone; committing exposes them.\<close>

lemma write_bytes_frame:
  assumes "buffer_inv b" and "write_bytes (head b) bs b = Some b'"
  shows "head b' = head b" "tail b' = tail b" "bsize b' = bsize b" "capacity b' = capacity b"
    "contents b' = contents b" "writable b' = writable b"
proof -
  from assms(2) have b': "b' = b\<lparr>buffer := take (head b) (buffer b) @ bs @ drop (head b + length bs) (buffer b)\<rparr>"
    and len: "head b + length bs \<le> length (buffer b)"
    by (auto simp: write_bytes_def split: if_splits)
  show "head b' = head b" "tail b' = tail b" "bsize b' = bsize b" "capacity b' = capacity b"
    using len by (simp_all add: b' capacity_def)
  show "contents b' = contents b"
    using assms(1) len by (simp add: b' contents_def buffer_inv_def take_drop min_def)
  show "writable b' = writable b"
    using len by (simp add: b' writable_def get_write_head_def Let_def)
qed

lemma append_bytes_props:
  assumes "buffer_inv b" and "length bs \<le> writable b"
  shows "contents (append_bytes bs b) = contents b @ bs"
    and "writable (append_bytes bs b) = writable b - length bs"
    and "capacity (append_bytes bs b) = capacity b"
    and "buffer_inv (append_bytes bs b)"
    and "head (append_bytes bs b) = head b + length bs"
    and "tail (append_bytes bs b) = tail b"
proof -
  obtain b' where b': "write_bytes (head b) bs b = Some b'"
    using write_bytes_Some [OF assms] by blast
  note fr = write_bytes_frame [OF assms(1) b']
  have inv': "buffer_inv b'" using assms(1) b' by (rule write_bytes_inv)
  have ap: "append_bytes bs b = b'\<lparr>head := head b + length bs, bsize := bsize b + length bs\<rparr>"
    using assms(2) fr by (simp add: append_bytes_def b' commit_def writable_def Let_def)
  have buf: "buffer b' = take (head b) (buffer b) @ bs @ drop (head b + length bs) (buffer b)"
    and len: "head b + length bs \<le> length (buffer b)"
    using b' by (auto simp: write_bytes_def split: if_splits)
  show inv: "buffer_inv (append_bytes bs b)"
    using commit_inv [OF inv'] by (simp add: append_bytes_def b')
  show "head (append_bytes bs b) = head b + length bs" "tail (append_bytes bs b) = tail b"
    by (simp_all add: ap fr)
  show cap: "capacity (append_bytes bs b) = capacity b"
    using fr by (simp add: ap capacity_def)
  show "writable (append_bytes bs b) = writable b - length bs"
    by (simp only: writable_eq [OF inv] writable_eq [OF assms(1)] cap) (simp add: ap)
  have "take (bsize b + length bs) (drop (tail b) (take (head b) (buffer b) @ bs @ rest)) =
      take (bsize b) (drop (tail b) (buffer b)) @ bs" for rest
    using assms(1) len by (simp add: buffer_inv_def drop_take take_add)
  moreover have "contents (append_bytes bs b) = take (bsize b + length bs) (drop (tail b) (buffer b'))"
    by (simp add: ap contents_def fr)
  ultimately show "contents (append_bytes bs b) = contents b @ bs"
    by (simp only: buf contents_def)
qed

text \<open>Overwriting committed bytes through a saved write pointer.\<close>

lemma take_patch:
  assumes "t + (q + length bs) \<le> length xs"
  shows "take (q + length bs + r) (drop t (take (t + q) xs @ bs @ drop (t + (q + length bs)) xs)) =
    take q (take (q + length bs + r) (drop t xs)) @ bs @ drop (q + length bs) (take (q + length bs + r) (drop t xs))"
proof -
  have "drop t (take (t + q) xs @ bs @ drop (t + (q + length bs)) xs) =
      take q (drop t xs) @ bs @ drop (q + length bs) (drop t xs)"
    using assms by (simp add: drop_take min_def add_ac)
  moreover have "length (take q (drop t xs)) = q" using assms by simp
  ultimately show ?thesis by (simp add: drop_take min_def)
qed

lemma write_bytes_within:
  assumes "buffer_inv b" and "tail b \<le> p" and "p + length bs \<le> head b"
  obtains b' where "write_bytes p bs b = Some b'" and "buffer_inv b'" and "tail b' = tail b"
    and "writable b' = writable b" and "capacity b' = capacity b"
    and "contents b' = take (p - tail b) (contents b) @ bs @ drop (p - tail b + length bs) (contents b)"
proof -
  let ?b = "b\<lparr>buffer := take p (buffer b) @ bs @ drop (p + length bs) (buffer b)\<rparr>"
  have le: "p + length bs \<le> length (buffer b)" and hd: "head b = tail b + bsize b"
    using assms by (auto simp: buffer_inv_def)
  have w: "write_bytes p bs b = Some ?b" using le by (simp add: write_bytes_def)
  have inv: "buffer_inv ?b" using write_bytes_inv [OF assms(1) w] .
  have cap: "capacity ?b = capacity b" using le by (simp add: capacity_def)
  have wr: "writable ?b = writable b"
    by (simp only: writable_eq [OF inv] writable_eq [OF assms(1)] cap) simp
  define q where "q = p - tail b"
  define r where "r = bsize b - (q + length bs)"
  have q: "p = tail b + q" and r: "bsize b = q + length bs + r"
    using assms(2,3) hd by (simp_all add: q_def r_def)
  have "tail b + (q + length bs) \<le> length (buffer b)" using le q by simp
  note patch = take_patch [OF this, of r]
  have f: "bsize ?b = bsize b" "tail ?b = tail b"
    "buffer ?b = take (tail b + q) (buffer b) @ bs @ drop (tail b + (q + length bs)) (buffer b)"
    by (simp_all add: q add.assoc)
  have new: "contents ?b = take (q + length bs + r)
      (drop (tail b) (take (tail b + q) (buffer b) @ bs @ drop (tail b + (q + length bs)) (buffer b)))"
    by (simp only: contents_def f r)
  have old: "contents b = take (q + length bs + r) (drop (tail b) (buffer b))"
    by (simp only: contents_def r)
  have "p - tail b = q" using q by simp
  then have "contents ?b = take (p - tail b) (contents b) @ bs @ drop (p - tail b + length bs) (contents b)"
    by (simp only: new old patch)
  from that [OF w inv _ wr cap this] show thesis by simp
qed

section \<open>The interface the clients rely on\<close>

text \<open>
  A bounded first-in first-out byte queue. \<open>room q\<close> is what the producer may write without
  being refused; it shrinks by what is written and is the whole capacity when the queue is
  empty (but need not grow with every byte consumed).
\<close>

locale byte_queue =
  fixes inv :: "'q \<Rightarrow> bool"
    and data :: "'q \<Rightarrow> byte list"
    and room :: "'q \<Rightarrow> nat"
    and cap :: "'q \<Rightarrow> nat"
    and app :: "byte list \<Rightarrow> 'q \<Rightarrow> 'q"
    and del :: "nat \<Rightarrow> 'q \<Rightarrow> 'q"
  assumes inv_app: "inv q \<Longrightarrow> length bs \<le> room q \<Longrightarrow> inv (app bs q)"
    and inv_del: "inv q \<Longrightarrow> inv (del n q)"
    and data_app: "inv q \<Longrightarrow> length bs \<le> room q \<Longrightarrow> data (app bs q) = data q @ bs"
    and room_app: "inv q \<Longrightarrow> length bs \<le> room q \<Longrightarrow> room (app bs q) = room q - length bs"
    and data_del: "inv q \<Longrightarrow> n \<le> length (data q) \<Longrightarrow> data (del n q) = drop n (data q)"
    and cap_app: "inv q \<Longrightarrow> length bs \<le> room q \<Longrightarrow> cap (app bs q) = cap q"
    and cap_del: "inv q \<Longrightarrow> cap (del n q) = cap q"
    and room_empty: "inv q \<Longrightarrow> data q = [] \<Longrightarrow> room q = cap q"
    and room_le: "inv q \<Longrightarrow> room q + length (data q) \<le> cap q"
begin

lemma app_app:
  assumes "inv q" and "length xs + length ys \<le> room q"
  shows "inv (app ys (app xs q))" "data (app ys (app xs q)) = data q @ xs @ ys"
    "room (app ys (app xs q)) = room q - length xs - length ys"
  using assms by (simp_all add: inv_app data_app room_app)

lemma del_front:
  assumes "inv q" and "data q = xs @ ys"
  shows "data (del (length xs) q) = ys"
  using assms by (simp add: data_del)

lemma drained_room:
  assumes "inv q"
  shows "room (del (length (data q)) q) = cap q"
  using assms by (simp add: room_empty inv_del data_del cap_del)

lemma fold_app:
  assumes "inv q" and "length (concat bss) \<le> room q"
  shows "inv (fold app bss q) \<and> data (fold app bss q) = data q @ concat bss
    \<and> room (fold app bss q) = room q - length (concat bss)"
  using assms by (induction bss arbitrary: q) (auto simp: inv_app data_app room_app)

end

lemma buffer_empty_writable:
  "buffer_inv b \<Longrightarrow> contents b = [] \<Longrightarrow> writable b = capacity b"
  using length_contents [of b] by (simp add: writable_eq buffer_inv_def)

lemma writable_contents_le: "buffer_inv b \<Longrightarrow> writable b + length (contents b) \<le> capacity b"
  by (simp add: writable_eq length_contents) (simp add: buffer_inv_def capacity_def)

interpretation lb: byte_queue buffer_inv contents writable capacity append_bytes "\<lambda>n b. snd (consume n b)"
  by unfold_locales
    (simp_all add: append_bytes_props consume_inv consume_contents consume_capacity
      buffer_empty_writable writable_contents_le)

section \<open>Runs of producer and consumer\<close>

text \<open>
  A run of a client that follows the protocol of the header: a producer asks
  \<open>get_write_head\<close>, copies only what fits, and commits it; a consumer asks
  \<open>get_read_head\<close>, copies up to what is there, and consumes it. The result is
  the bytes accepted, the bytes delivered and the buffer, or \<^const>\<open>None\<close> when a copy left
  the vector.
\<close>

datatype buffer_op = Produce "byte list" | Take_bytes nat

definition produce :: "byte list \<Rightarrow> LinearBuffer \<Rightarrow> (byte list \<times> LinearBuffer) ub" where
  "produce bs b =
     (case get_write_head b of
        (n, Some p) \<Rightarrow> do {
          let src = take n bs;
          b' \<leftarrow> write_bytes p src b;
          Some (src, snd (commit (length src) b'))
        }
      | (n, None) \<Rightarrow> Some ([], b))"

definition take_bytes :: "nat \<Rightarrow> LinearBuffer \<Rightarrow> (byte list \<times> LinearBuffer) ub" where
  "take_bytes k b =
     (case get_read_head b of
        (n, Some p) \<Rightarrow> do {
          bs \<leftarrow> read_bytes p (min k n) b;
          Some (bs, snd (consume (min k n) b))
        }
      | (n, None) \<Rightarrow> Some ([], b))"

fun buffer_run :: "buffer_op list \<Rightarrow> LinearBuffer \<Rightarrow> (byte list \<times> byte list \<times> LinearBuffer) ub" where
  "buffer_run [] b = Some ([], [], b)"
| "buffer_run (Produce bs # ops) b = do {
     (acc, b') \<leftarrow> produce bs b;
     (i, d, b'') \<leftarrow> buffer_run ops b';
     Some (acc @ i, d, b'')
   }"
| "buffer_run (Take_bytes k # ops) b = do {
     (bs, b') \<leftarrow> take_bytes k b;
     (i, d, b'') \<leftarrow> buffer_run ops b';
     Some (i, bs @ d, b'')
   }"

lemma produce_eq:
  assumes "buffer_inv b"
  shows "produce bs b = Some (take (writable b) bs, append_bytes (take (writable b) bs) b)"
proof (cases "writable b = 0")
  case True
  have "append_bytes [] b = b"
    using assms by (simp add: append_bytes_def write_bytes_def commit_def buffer_inv_def Let_def)
  with True show ?thesis by (simp add: produce_def get_write_head_eq)
next
  case False
  obtain b' where "write_bytes (head b) (take (writable b) bs) b = Some b'"
    using write_bytes_Some [OF assms, of "take (writable b) bs"] by auto
  with False show ?thesis
    by (simp add: produce_def get_write_head_eq append_bytes_def Let_def)
qed

lemma read_bytes_contents:
  assumes "buffer_inv b" and "n \<le> length (contents b)"
  shows "read_bytes (tail b) n b = Some (take n (contents b))"
  using assms by (simp add: read_bytes_def length_contents) (simp add: buffer_inv_def contents_def min_def)

lemma take_bytes_eq:
  assumes "buffer_inv b"
  shows "take_bytes k b = Some (take k (contents b), snd (consume (min k (length (contents b))) b))"
proof (cases "contents b = []")
  case True
  then have "consume 0 b = (True, b)"
    using assms length_contents [OF assms] by (simp add: consume_def reset_if_empty_def buffer_inv_def)
  with True assms show ?thesis by (simp add: take_bytes_def get_read_head_eq)
next
  case False
  with assms show ?thesis
    by (simp add: take_bytes_def get_read_head_eq read_bytes_contents) (simp add: min_def)
qed

lemma buffer_run_correct:
  "buffer_inv b \<Longrightarrow> \<exists>i d b'. buffer_run ops b = Some (i, d, b') \<and> buffer_inv b'
    \<and> contents b @ i = d @ contents b' \<and> capacity b' = capacity b"
proof (induction ops arbitrary: b)
  case Nil
  then show ?case by simp
next
  case (Cons x ops)
  show ?case
  proof (cases x)
    case (Produce bs)
    let ?b = "append_bytes (take (writable b) bs) b"
    have b: "buffer_inv ?b" "contents ?b = contents b @ take (writable b) bs" "capacity ?b = capacity b"
      using Cons.prems by (simp_all add: append_bytes_props)
    obtain i d b' where "buffer_run ops ?b = Some (i, d, b')" "buffer_inv b'"
      "contents ?b @ i = d @ contents b'" "capacity b' = capacity ?b"
      using Cons.IH [OF b(1)] by blast
    then show ?thesis
      by (simp add: Produce produce_eq [OF Cons.prems] b)
  next
    case (Take_bytes k)
    let ?b = "snd (consume (min k (length (contents b))) b)"
    have b: "buffer_inv ?b" "contents ?b = drop k (contents b)" "capacity ?b = capacity b"
      using Cons.prems by (auto simp: consume_inv consume_contents consume_capacity min_def)
    obtain i d b' where "buffer_run ops ?b = Some (i, d, b')" "buffer_inv b'"
      "contents ?b @ i = d @ contents b'" "capacity b' = capacity ?b"
      using Cons.IH [OF b(1)] by blast
    moreover have "contents b @ i = take k (contents b) @ drop k (contents b) @ i"
      by (simp flip: append_assoc)
    ultimately show ?thesis
      by (simp add: Take_bytes take_bytes_eq [OF Cons.prems] b)
  qed
qed

text \<open>
  Property C5. Any sequence of protocol-conforming writes and reads on a fresh buffer
  touches only memory inside the vector, and what has been delivered followed by what is still
  readable is exactly what was accepted, in order: no byte is lost, duplicated or reordered,
  whatever resets of the indices happen on the way; the capacity never changes and no more
  than the capacity is ever held.
\<close>

theorem linear_buffer_fifo:
  "\<exists>i d b. buffer_run ops (LinearBuffer_new n) = Some (i, d, b)
     \<and> i = d @ contents b \<and> buffer_inv b \<and> capacity b = n \<and> length (contents b) \<le> n"
proof -
  have "contents (LinearBuffer_new n) = []" "capacity (LinearBuffer_new n) = n"
    by (simp_all add: contents_def capacity_def LinearBuffer_new_def)
  then obtain i d b where run: "buffer_run ops (LinearBuffer_new n) = Some (i, d, b)"
    and b: "buffer_inv b" "i = d @ contents b" "capacity b = n"
    using buffer_run_correct [of "LinearBuffer_new n" ops] by auto
  moreover have "length (contents b) \<le> n"
    using writable_contents_le [OF b(1)] b(3) by simp
  ultimately show ?thesis by blast
qed

text \<open>
  The exact effect and result of every operation on a well-formed buffer, errors
  included: \<open>commit\<close> and \<open>consume\<close> report failure and change nothing exactly when asked for
  more than is writable or readable, the invariant survives both, and consuming everything
  makes the whole capacity writable again.
\<close>

theorem linear_buffer_operations:
  assumes "buffer_inv b"
  shows "(fst (commit n b) \<longleftrightarrow> n \<le> writable b) \<and> (\<not> fst (commit n b) \<longrightarrow> snd (commit n b) = b)
    \<and> buffer_inv (snd (commit n b))
    \<and> (fst (consume n b) \<longleftrightarrow> n \<le> length (contents b))
    \<and> (\<not> fst (consume n b) \<longrightarrow> snd (consume n b) = b)
    \<and> (n \<le> length (contents b) \<longrightarrow> contents (snd (consume n b)) = drop n (contents b))
    \<and> buffer_inv (snd (consume n b))
    \<and> writable (snd (consume (length (contents b)) b)) = capacity b
    \<and> (length bs \<le> writable b \<longrightarrow> contents (append_bytes bs b) = contents b @ bs)"
proof -
  have "\<not> fst (commit n b) \<longrightarrow> snd (commit n b) = b"
    by (simp add: commit_def Let_def)
  moreover have "\<not> fst (consume n b) \<longrightarrow> snd (consume n b) = b"
    by (simp add: consume_def)
  ultimately show ?thesis
    using lb.drained_room [OF assms]
    by (simp add: fst_commit fst_consume assms commit_inv consume_inv consume_contents append_bytes_props)
qed

theorem linear_buffer_operations_witness:
  "buffer_inv (LinearBuffer_new 4) \<and> fst (commit 4 (LinearBuffer_new 4)) \<and> \<not> fst (commit 5 (LinearBuffer_new 4))
    \<and> contents (append_bytes [7, 8] (LinearBuffer_new 4)) = [7, 8]"
proof -
  have w: "writable (LinearBuffer_new 4) = 4" and c: "contents (LinearBuffer_new 4) = []"
    by (simp_all add: writable_def get_write_head_def LinearBuffer_new_def contents_def)
  show ?thesis
    using linear_buffer_operations [of "LinearBuffer_new 4" 4 "[7, 8]"]
      linear_buffer_operations [of "LinearBuffer_new 4" 5 "[]"]
    by (simp add: w c)
qed

end
