(* ===== verification/Serial.thy ===== *)
theory Serial
  imports Linear_Buffer
begin

text \<open>
  \<open>eestv/serial/serializer.hpp\<close>, \<open>deserializer.hpp\<close>, \<open>serialize_helper.hpp\<close>: the archive
  classes \<open>Serializer\<close> and \<open>Deserializer\<close>, which copy the object representations of
  arithmetic values into and out of a \<open>LinearBuffer\<close>. A user type is what its \<open>serialize\<close>
  function visits: a tree of members in visiting order. The byte order of the platform, which
  \<open>memcpy\<close> exposes, is a parameter.
\<close>

section \<open>Values\<close>

text \<open>
  Arithmetic values by width (a signed type or \<open>bool\<close> has the representation of the
  unsigned type of its size); floating point types are rejected by
  \<open>check_if_type_is_serializable\<close> at compile time.
\<close>

datatype arith = U8 byte | U16 u16 | U32 u32 | U64 u64

datatype obj = Arith arith | Struct "obj list"

datatype byte_order = Little_endian | Big_endian

fun size_of :: "arith \<Rightarrow> nat" where
  "size_of (U8 _) = 1"
| "size_of (U16 _) = 2"
| "size_of (U32 _) = 4"
| "size_of (U64 _) = 8"

fun arith_val :: "arith \<Rightarrow> nat" where
  "arith_val (U8 w) = unat w"
| "arith_val (U16 w) = unat w"
| "arith_val (U32 w) = unat w"
| "arith_val (U64 w) = unat w"

definition ordered :: "byte_order \<Rightarrow> byte list \<Rightarrow> byte list" where
  "ordered e bs = (case e of Little_endian \<Rightarrow> bs | Big_endian \<Rightarrow> rev bs)"

definition object_rep :: "byte_order \<Rightarrow> arith \<Rightarrow> byte list" where
  "object_rep e a = ordered e (le_bytes (size_of a) (arith_val a))"

text \<open>\<open>memcpy(&value, p, sizeof(T))\<close>: the type of the destination fixes the width.\<close>

fun load_arith :: "byte_order \<Rightarrow> arith \<Rightarrow> byte list \<Rightarrow> arith" where
  "load_arith e (U8 _) bs = U8 (of_nat (of_le_bytes (ordered e bs)))"
| "load_arith e (U16 _) bs = U16 (of_nat (of_le_bytes (ordered e bs)))"
| "load_arith e (U32 _) bs = U32 (of_nat (of_le_bytes (ordered e bs)))"
| "load_arith e (U64 _) bs = U64 (of_nat (of_le_bytes (ordered e bs)))"

fun same_arith :: "arith \<Rightarrow> arith \<Rightarrow> bool" where
  "same_arith (U8 _) (U8 _) = True"
| "same_arith (U16 _) (U16 _) = True"
| "same_arith (U32 _) (U32 _) = True"
| "same_arith (U64 _) (U64 _) = True"
| "same_arith _ _ = False"

text \<open>Two objects of one C++ type: the same members with the same widths.\<close>

fun same_type :: "obj \<Rightarrow> obj \<Rightarrow> bool" where
  "same_type (Arith a) (Arith b) = same_arith a b"
| "same_type (Struct os) (Struct ps) = list_all2 same_type os ps"
| "same_type _ _ = False"

lemma length_ordered [simp]: "length (ordered e bs) = length bs"
  by (cases e) (simp_all add: ordered_def)

lemma ordered_ordered [simp]: "ordered e (ordered e bs) = bs"
  by (cases e) (simp_all add: ordered_def)

lemma length_object_rep [simp]: "length (object_rep e a) = size_of a"
  by (simp add: object_rep_def)

lemma size_of_pos [simp]: "0 < size_of a"
  by (cases a) simp_all

lemma object_rep_not_Nil [simp]: "object_rep e a \<noteq> []"
  by (simp flip: length_greater_0_conv)

lemma same_arith_size: "same_arith a b \<Longrightarrow> size_of a = size_of b"
  by (cases a; cases b) simp_all

lemma unat_mod_len: "2 ^ LENGTH('a) = k \<Longrightarrow> unat (w :: 'a::len word) mod k = unat w"
  using unsigned_less [of w, where ?'a = nat] by auto

lemma unat_mod_self:
  "unat (w :: byte) mod 256 = unat w" "unat (x :: u16) mod 65536 = unat x"
  "unat (y :: u32) mod 4294967296 = unat y" "unat (z :: u64) mod 18446744073709551616 = unat z"
  by (rule unat_mod_len, simp)+

lemma load_object_rep: "same_arith d a \<Longrightarrow> load_arith e d (object_rep e a) = a"
  by (cases d; cases a) (simp_all add: object_rep_def unat_mod_self del: le_bytes.simps)

section \<open>The archives\<close>

record Serializer =
  ser_buffer :: LinearBuffer
  bytes_written :: nat

definition serialize_arith :: "byte_order \<Rightarrow> arith \<Rightarrow> Serializer \<Rightarrow> Serializer ub" where
  "serialize_arith e a s =
     (case get_write_head (ser_buffer s) of
        (available, None) \<Rightarrow> Some s
      | (available, Some write_head) \<Rightarrow>
          if available \<ge> size_of a then do {
            b \<leftarrow> write_bytes write_head (object_rep e a) (ser_buffer s);
            let (ok, b') = commit (size_of a) b;
            Some (s\<lparr>ser_buffer := b',
              bytes_written := (if ok then bytes_written s + size_of a else bytes_written s)\<rparr>)
          }
          else Some s)"

fun serialize_value :: "byte_order \<Rightarrow> obj \<Rightarrow> Serializer \<Rightarrow> Serializer ub"
  and serialize_members :: "byte_order \<Rightarrow> obj list \<Rightarrow> Serializer \<Rightarrow> Serializer ub" where
  "serialize_value e (Arith a) s = serialize_arith e a s"
| "serialize_value e (Struct os) s = serialize_members e os s"
| "serialize_members e [] s = Some s"
| "serialize_members e (v # vs) s = do { s' \<leftarrow> serialize_value e v s; serialize_members e vs s' }"

record Deserializer =
  des_buffer :: LinearBuffer
  bytes_read :: nat

definition deserialize_arith :: "byte_order \<Rightarrow> arith \<Rightarrow> Deserializer \<Rightarrow> (arith \<times> Deserializer) ub" where
  "deserialize_arith e a s =
     (case get_read_head (des_buffer s) of
        (available, None) \<Rightarrow> Some (a, s)
      | (available, Some read_head) \<Rightarrow>
          if available \<ge> size_of a then do {
            bs \<leftarrow> read_bytes read_head (size_of a) (des_buffer s);
            let (ok, b') = consume (size_of a) (des_buffer s);
            Some (load_arith e a bs, s\<lparr>des_buffer := b',
              bytes_read := (if ok then bytes_read s + size_of a else bytes_read s)\<rparr>)
          }
          else Some (a, s))"

fun deserialize_value :: "byte_order \<Rightarrow> obj \<Rightarrow> Deserializer \<Rightarrow> (obj \<times> Deserializer) ub"
  and deserialize_members :: "byte_order \<Rightarrow> obj list \<Rightarrow> Deserializer \<Rightarrow> (obj list \<times> Deserializer) ub" where
  "deserialize_value e (Arith a) s = do { (a', s') \<leftarrow> deserialize_arith e a s; Some (Arith a', s') }"
| "deserialize_value e (Struct os) s = do { (os', s') \<leftarrow> deserialize_members e os s; Some (Struct os', s') }"
| "deserialize_members e [] s = Some ([], s)"
| "deserialize_members e (v # vs) s = do {
     (v', s') \<leftarrow> deserialize_value e v s;
     (vs', s'') \<leftarrow> deserialize_members e vs s';
     Some (v' # vs', s'')
   }"

definition Serializer_new :: "LinearBuffer \<Rightarrow> Serializer" where
  "Serializer_new b = \<lparr>ser_buffer = b, bytes_written = 0\<rparr>"

definition Deserializer_new :: "LinearBuffer \<Rightarrow> Deserializer" where
  "Deserializer_new b = \<lparr>des_buffer = b, bytes_read = 0\<rparr>"

definition serializer_reset :: "Serializer \<Rightarrow> Serializer" where
  "serializer_reset s = s\<lparr>bytes_written := 0\<rparr>"

definition deserializer_reset :: "Deserializer \<Rightarrow> Deserializer" where
  "deserializer_reset s = s\<lparr>bytes_read := 0\<rparr>"

section \<open>What the serializer writes\<close>

text \<open>The arithmetic members in visiting order, and their bytes.\<close>

fun flat :: "obj \<Rightarrow> arith list" where
  "flat (Arith a) = [a]"
| "flat (Struct os) = concat (map flat os)"

definition arith_bytes :: "byte_order \<Rightarrow> arith list \<Rightarrow> byte list" where
  "arith_bytes e as = concat (map (object_rep e) as)"

definition obj_bytes :: "byte_order \<Rightarrow> obj \<Rightarrow> byte list" where
  "obj_bytes e v = arith_bytes e (flat v)"

text \<open>The members that find room, when each is skipped on its own if it does not fit.\<close>

fun accepted :: "nat \<Rightarrow> arith list \<Rightarrow> arith list" where
  "accepted room [] = []"
| "accepted room (a # as) =
     (if size_of a \<le> room then a # accepted (room - size_of a) as else accepted room as)"

lemma arith_bytes_simps [simp]:
  "arith_bytes e [] = []" "arith_bytes e (a # as) = object_rep e a @ arith_bytes e as"
  "arith_bytes e (as @ bs) = arith_bytes e as @ arith_bytes e bs"
  by (simp_all add: arith_bytes_def)

lemma accepted_all: "length (arith_bytes e as) \<le> room \<Longrightarrow> accepted room as = as"
  by (induction as arbitrary: room) auto

lemma accepted_fits: "length (arith_bytes e (accepted room as)) \<le> room"
proof (induction as arbitrary: room)
  case Nil
  then show ?case by simp
next
  case (Cons a as)
  show ?case
    using Cons [of "room - size_of a"] Cons [of room] by auto
qed

text \<open>A buffer to which exactly \<open>bs\<close> has been appended.\<close>

definition appended :: "byte list \<Rightarrow> LinearBuffer \<Rightarrow> LinearBuffer \<Rightarrow> bool" where
  "appended bs b b' \<longleftrightarrow> buffer_inv b' \<and> contents b' = contents b @ bs \<and> tail b' = tail b
     \<and> writable b' = writable b - length bs \<and> capacity b' = capacity b"

lemma appended_refl: "buffer_inv b \<Longrightarrow> appended [] b b"
  by (simp add: appended_def)

lemma appended_trans: "appended bs b b' \<Longrightarrow> appended cs b' b'' \<Longrightarrow> appended (bs @ cs) b b''"
  by (simp add: appended_def)

lemma appended_append_bytes:
  "buffer_inv b \<Longrightarrow> length bs \<le> writable b \<Longrightarrow> appended bs b (append_bytes bs b)"
  by (simp add: appended_def append_bytes_props)

lemma serialize_arith_eq:
  assumes "buffer_inv (ser_buffer s)"
  shows "serialize_arith e a s =
     Some (if size_of a \<le> writable (ser_buffer s)
       then s\<lparr>ser_buffer := append_bytes (object_rep e a) (ser_buffer s),
              bytes_written := bytes_written s + size_of a\<rparr>
       else s)"
proof (cases "size_of a \<le> writable (ser_buffer s)")
  case True
  obtain b where b: "write_bytes (head (ser_buffer s)) (object_rep e a) (ser_buffer s) = Some b"
    using write_bytes_Some [OF assms, of "object_rep e a"] True by auto
  have "fst (commit (size_of a) b)"
    using True write_bytes_frame(6) [OF assms b] by (simp add: fst_commit)
  moreover have "0 < writable (ser_buffer s)" using True size_of_pos [of a] by linarith
  ultimately show ?thesis
    using True by (auto simp: serialize_arith_def get_write_head_eq append_bytes_def b split: prod.split)
next
  case False
  then show ?thesis by (simp add: serialize_arith_def get_write_head_eq)
qed

lemma serialize_exact:
  "buffer_inv (ser_buffer s) \<Longrightarrow> \<exists>s'. serialize_value e v s = Some s'
     \<and> appended (arith_bytes e (accepted (writable (ser_buffer s)) (flat v))) (ser_buffer s) (ser_buffer s')
     \<and> bytes_written s' = bytes_written s + length (arith_bytes e (accepted (writable (ser_buffer s)) (flat v)))"
  "buffer_inv (ser_buffer s) \<Longrightarrow> \<exists>s'. serialize_members e vs s = Some s'
     \<and> appended (arith_bytes e (accepted (writable (ser_buffer s)) (concat (map flat vs)))) (ser_buffer s) (ser_buffer s')
     \<and> bytes_written s' = bytes_written s
         + length (arith_bytes e (accepted (writable (ser_buffer s)) (concat (map flat vs))))"
proof (induction e v s and e vs s rule: serialize_value_serialize_members.induct)
  case (1 e a s)
  then show ?case
    by (auto simp: serialize_arith_eq appended_refl appended_append_bytes)
next
  case (2 e os s)
  then show ?case by simp
next
  case (3 e s)
  then show ?case by (simp add: appended_refl)
next
  case (4 e v vs s)
  let ?w = "writable (ser_buffer s)"
  let ?xs = "accepted ?w (flat v)"
  have acc: "accepted r (as @ bs) = accepted r as @ accepted (r - length (arith_bytes e (accepted r as))) bs"
    for r as bs
    by (induction as arbitrary: r) auto
  from "4.IH"(1) [OF "4.prems"] obtain s1 where s1: "serialize_value e v s = Some s1"
    "appended (arith_bytes e ?xs) (ser_buffer s) (ser_buffer s1)"
    "bytes_written s1 = bytes_written s + length (arith_bytes e ?xs)"
    by blast
  then have inv1: "buffer_inv (ser_buffer s1)" and w1: "writable (ser_buffer s1) = ?w - length (arith_bytes e ?xs)"
    by (simp_all add: appended_def)
  from "4.IH"(2) [OF s1(1) inv1] s1 w1 show ?case
    by (auto simp: acc intro: appended_trans)
qed

lemma serialize_fits:
  assumes "buffer_inv (ser_buffer s)" and "length (obj_bytes e v) \<le> writable (ser_buffer s)"
  obtains s' where "serialize_value e v s = Some s'"
    and "appended (obj_bytes e v) (ser_buffer s) (ser_buffer s')"
    and "bytes_written s' = bytes_written s + length (obj_bytes e v)"
proof -
  have "accepted (writable (ser_buffer s)) (flat v) = flat v"
    using assms(2) by (simp add: obj_bytes_def accepted_all)
  with serialize_exact(1) [OF assms(1), of e v] that show thesis
    by (auto simp: obj_bytes_def)
qed

text \<open>The counter is what was appended since the counter was reset, by any number of values.\<close>

lemma written_since_reset:
  assumes "buffer_inv (ser_buffer s)"
  shows "\<exists>s'. serialize_members e vs (serializer_reset s) = Some s'
    \<and> length (contents (ser_buffer s')) = length (contents (ser_buffer s)) + bytes_written s'"
  using serialize_exact(2) [of "serializer_reset s" e vs] assms by (auto simp: serializer_reset_def appended_def)

section \<open>What the deserializer reads\<close>

lemma deserialize_arith_inv:
  assumes "buffer_inv (des_buffer s)"
  shows "\<exists>a' s'. deserialize_arith e a s = Some (a', s') \<and> buffer_inv (des_buffer s') \<and> same_arith a' a"
proof -
  have sa: "same_arith (load_arith e a bs) a" "same_arith a a" for bs by (cases a; simp)+
  show ?thesis
    using assms consume_inv [OF assms, of "size_of a"] read_bytes_contents [OF assms, of "size_of a"]
    by (auto simp: deserialize_arith_def get_read_head_eq sa split: prod.split)
qed

lemma deserialize_arith_front:
  assumes "buffer_inv (des_buffer s)" and "contents (des_buffer s) = object_rep e a @ rest"
    and "same_arith d a"
  obtains s' where "deserialize_arith e d s = Some (a, s')" and "buffer_inv (des_buffer s')"
    and "contents (des_buffer s') = rest" and "bytes_read s' = bytes_read s + size_of a"
proof -
  let ?b = "des_buffer s"
  have sz: "size_of d = size_of a" using assms(3) by (rule same_arith_size)
  have ne: "contents ?b \<noteq> []" by (simp add: assms(2))
  have rd: "read_bytes (tail ?b) (size_of a) ?b = Some (object_rep e a)"
    using read_bytes_contents [OF assms(1), of "size_of a"] assms(2) by simp
  have "fst (consume (size_of a) ?b)"
    using assms(1,2) by (simp add: fst_consume)
  then obtain b' where b': "consume (size_of a) ?b = (True, b')"
    by (cases "consume (size_of a) ?b") auto
  have "contents b' = rest" "buffer_inv b'"
    using lb.del_front [OF assms(1,2)] consume_inv [OF assms(1), of "size_of a"] by (simp_all add: b')
  then show thesis
    using assms ne rd
    by (intro that [of "s\<lparr>des_buffer := b', bytes_read := bytes_read s + size_of a\<rparr>"])
      (simp_all add: deserialize_arith_def get_read_head_eq sz load_object_rep b')
qed

lemma deserialize_arith_short:
  "buffer_inv (des_buffer s) \<Longrightarrow> length (contents (des_buffer s)) < size_of d \<Longrightarrow>
    deserialize_arith e d s = Some (d, s)"
  by (simp add: deserialize_arith_def get_read_head_eq)

lemma deserialize_front:
  "buffer_inv (des_buffer s) \<Longrightarrow> contents (des_buffer s) = obj_bytes e v @ rest \<Longrightarrow> same_type d v \<Longrightarrow>
     \<exists>s'. deserialize_value e d s = Some (v, s') \<and> buffer_inv (des_buffer s')
       \<and> contents (des_buffer s') = rest \<and> bytes_read s' = bytes_read s + length (obj_bytes e v)"
  "buffer_inv (des_buffer s) \<Longrightarrow> contents (des_buffer s) = arith_bytes e (concat (map flat vs)) @ rest \<Longrightarrow>
     list_all2 same_type ds vs \<Longrightarrow>
     \<exists>s'. deserialize_members e ds s = Some (vs, s') \<and> buffer_inv (des_buffer s')
       \<and> contents (des_buffer s') = rest
       \<and> bytes_read s' = bytes_read s + length (arith_bytes e (concat (map flat vs)))"
proof (induction e d s and e ds s arbitrary: v rest and vs rest
    rule: deserialize_value_deserialize_members.induct)
  case (1 e d s)
  then obtain a where v: "v = Arith a" and sa: "same_arith d a" by (cases v) auto
  with "1.prems" have "contents (des_buffer s) = object_rep e a @ rest" by (simp add: obj_bytes_def)
  then show ?case
    using deserialize_arith_front [OF "1.prems"(1) _ sa] by (metis (no_types, lifting) append_Nil2
      arith_bytes_simps(1,2) bind.bind_lunit case_prod_conv deserialize_value.simps(1) flat.simps(1)
      length_object_rep obj_bytes_def v)
next
  case (2 e ds s)
  then obtain vs where v: "v = Struct vs" and sa: "list_all2 same_type ds vs" by (cases v) auto
  from "2.IH" [OF "2.prems"(1) _ sa] "2.prems"(2) show ?case
    by (auto simp: v obj_bytes_def)
next
  case (3 e s)
  then show ?case by simp
next
  case (4 e d ds s)
  then obtain v vs' where vs: "vs = v # vs'" and st: "same_type d v" "list_all2 same_type ds vs'"
    by (cases vs) auto
  have "contents (des_buffer s) = obj_bytes e v @ arith_bytes e (concat (map flat vs')) @ rest"
    using "4.prems"(2) by (simp add: vs obj_bytes_def)
  from "4.IH"(1) [OF "4.prems"(1) this st(1)] obtain s1 where s1:
    "deserialize_value e d s = Some (v, s1)" "buffer_inv (des_buffer s1)"
    "contents (des_buffer s1) = arith_bytes e (concat (map flat vs')) @ rest"
    "bytes_read s1 = bytes_read s + length (obj_bytes e v)"
    by blast
  from "4.IH"(2) [OF s1(1) refl s1(2,3) st(2)] s1(1,4) show ?case
    by (auto simp: vs obj_bytes_def)
qed

lemma deserialize_total:
  "buffer_inv (des_buffer s) \<Longrightarrow> \<exists>v' s'. deserialize_value e v s = Some (v', s') \<and> buffer_inv (des_buffer s')"
  "buffer_inv (des_buffer s) \<Longrightarrow> \<exists>vs' s'. deserialize_members e vs s = Some (vs', s') \<and> buffer_inv (des_buffer s')"
proof (induction e v s and e vs s rule: deserialize_value_deserialize_members.induct)
  case (1 e a s)
  from deserialize_arith_inv [OF this, of e a] show ?case by auto
next
  case (2 e os s)
  then show ?case by fastforce
next
  case (3 e s)
  then show ?case by simp
next
  case (4 e v vs s)
  from "4.IH"(1) [OF "4.prems"] obtain v' s1 where
    s1: "deserialize_value e v s = Some (v', s1)" "buffer_inv (des_buffer s1)" by blast
  from "4.IH"(2) [OF s1(1) refl s1(2)] s1(1) show ?case by auto
qed

section \<open>Properties\<close>

text \<open>
  Round trip: a value serialized into a well-formed buffer with room for it, and
  deserialized once everything ahead of it has been consumed, comes back unchanged whatever
  the destination object held, both counters report exactly its size, and what follows it in
  the buffer is left for the next reader.
\<close>

theorem serialize_roundtrip:
  assumes "buffer_inv b" and "length (obj_bytes e v) \<le> writable b" and "same_type d v"
  shows "\<exists>s s'. serialize_value e v (Serializer_new b) = Some s
     \<and> bytes_written s = length (obj_bytes e v)
     \<and> deserialize_value e d (Deserializer_new (snd (consume (length (contents b)) (ser_buffer s)))) = Some (v, s')
     \<and> bytes_read s' = length (obj_bytes e v) \<and> contents (des_buffer s') = [] \<and> buffer_inv (des_buffer s')"
proof -
  obtain s where s: "serialize_value e v (Serializer_new b) = Some s"
    and ap: "appended (obj_bytes e v) b (ser_buffer s)" and n: "bytes_written s = length (obj_bytes e v)"
    by (rule serialize_fits [of "Serializer_new b" e v]) (use assms in \<open>auto simp: Serializer_new_def\<close>)
  let ?b = "snd (consume (length (contents b)) (ser_buffer s))"
  have inv: "buffer_inv (ser_buffer s)" and "contents (ser_buffer s) = contents b @ obj_bytes e v"
    using ap by (simp_all add: appended_def)
  then have "buffer_inv ?b" "contents ?b = obj_bytes e v @ []"
    by (simp_all add: consume_inv lb.del_front)
  then obtain s' where "deserialize_value e d (Deserializer_new ?b) = Some (v, s')"
      "buffer_inv (des_buffer s')" "contents (des_buffer s') = []" "bytes_read s' = length (obj_bytes e v)"
    using deserialize_front(1) [of "Deserializer_new ?b" e v "[]" d] assms(3)
    by (auto simp: Deserializer_new_def)
  with s n show ?thesis by blast
qed

theorem serialize_roundtrip_witness:
  "\<exists>s s'. serialize_value Big_endian (Struct [Arith (U16 258), Arith (U8 7)]) (Serializer_new (LinearBuffer_new 3)) = Some s
     \<and> bytes_written s = 3
     \<and> deserialize_value Big_endian (Struct [Arith (U16 0), Arith (U8 0)])
         (Deserializer_new (snd (consume 0 (ser_buffer s))))
       = Some (Struct [Arith (U16 258), Arith (U8 7)], s')"
proof -
  let ?v = "Struct [Arith (U16 258), Arith (U8 7)]" and ?d = "Struct [Arith (U16 0), Arith (U8 0)]"
  have "writable (LinearBuffer_new 3) = 3" "contents (LinearBuffer_new 3) = []"
    by (simp_all add: writable_def get_write_head_def LinearBuffer_new_def contents_def)
  moreover have "length (obj_bytes Big_endian ?v) = 3" by (simp add: obj_bytes_def)
  moreover have "same_type ?d ?v" by simp
  ultimately show ?thesis
    using serialize_roundtrip [of "LinearBuffer_new 3" Big_endian ?v ?d] by (auto simp del: serialize_value.simps)
qed

text \<open>
  What a serializer really writes when room runs out, member by member: each
  arithmetic member that does not fit in what is left is skipped without any report and
  later, smaller members may still be written; the stored bytes are the concatenated
  representations of exactly the accepted members, the counter counts exactly those bytes,
  no write leaves the vector, and the value is complete if and only if the whole of it fits.
\<close>

theorem serializer_truncates_per_member:
  assumes "buffer_inv b"
  shows "\<exists>s. serialize_value e v (Serializer_new b) = Some s \<and> buffer_inv (ser_buffer s)
    \<and> contents (ser_buffer s) = contents b @ arith_bytes e (accepted (writable b) (flat v))
    \<and> bytes_written s = length (arith_bytes e (accepted (writable b) (flat v)))
    \<and> (bytes_written s = length (obj_bytes e v) \<longleftrightarrow> length (obj_bytes e v) \<le> writable b)"
proof -
  have "buffer_inv (ser_buffer (Serializer_new b))" using assms by (simp add: Serializer_new_def)
  from serialize_exact(1) [OF this, of e v] obtain s where
    s: "serialize_value e v (Serializer_new b) = Some s"
      "appended (arith_bytes e (accepted (writable b) (flat v))) b (ser_buffer s)"
      "bytes_written s = length (arith_bytes e (accepted (writable b) (flat v)))"
    by (auto simp: Serializer_new_def)
  have "length (obj_bytes e v) \<le> writable b" if "bytes_written s = length (obj_bytes e v)"
    using accepted_fits [of e "writable b" "flat v"] s(3) that by simp
  moreover have "bytes_written s = length (obj_bytes e v)" if "length (obj_bytes e v) \<le> writable b"
    using that s(3) by (simp add: obj_bytes_def accepted_all)
  ultimately show ?thesis
    using s by (auto simp: appended_def)
qed

theorem serializer_truncates_per_member_witness:
  "buffer_inv (LinearBuffer_new 1) \<and> (\<exists>s.
     serialize_value Little_endian (Struct [Arith (U32 5), Arith (U8 9)]) (Serializer_new (LinearBuffer_new 1)) = Some s
     \<and> contents (ser_buffer s) = [9] \<and> bytes_written s = 1)"
proof -
  have "writable (LinearBuffer_new 1) = 1" "contents (LinearBuffer_new 1) = []"
    by (simp_all add: writable_def get_write_head_def LinearBuffer_new_def contents_def)
  moreover have "object_rep Little_endian (U8 9) = [9]" by (simp add: object_rep_def ordered_def)
  ultimately show ?thesis
    using serializer_truncates_per_member [of "LinearBuffer_new 1" Little_endian "Struct [Arith (U32 5), Arith (U8 9)]"]
    by (auto simp del: serialize_value.simps)
qed

end
