(* ===== verification/Serial_Mux.thy ===== *)
theory Serial_Mux
  imports Serial
begin

unbundle bit_operations_syntax

text \<open>
  \<open>eestv/serial/multiplexing_serializer.hpp\<close>, \<open>demultiplexing_deserializer.hpp\<close>,
  \<open>serialization_mux_common.hpp\<close>: framed messages \<open>[type index][size low][size high][payload]\<close>.
  The template pack \<open>Types...\<close> is a list of pairs of a type and its value-initialised object
  \<open>T {}\<close>; a \<open>std::variant\<close> is its index and its object.
\<close>

definition max_types :: nat where "max_types = 255"

definition header_size :: nat where "header_size = 3"

definition max_payload_size :: nat where "max_payload_size = 65535"

definition byte_mask :: nat where "byte_mask = 255"

definition bits_per_byte :: nat where "bits_per_byte = 8"

text \<open>\<^const>\<open>None\<close> is the pack without the type, which has no specialisation and does not compile.\<close>

fun type_index_impl :: "'t \<Rightarrow> 't list \<Rightarrow> nat option" where
  "type_index_impl t [] = None"
| "type_index_impl t (first # rest) =
     (if t = first then Some 0 else map_option Suc (type_index_impl t rest))"

type_synonym 't registry = "('t \<times> obj) list"

section \<open>MultiplexingSerializer\<close>

definition mux_serialize :: "byte_order \<Rightarrow> nat \<Rightarrow> obj \<Rightarrow> LinearBuffer \<Rightarrow> (bool \<times> LinearBuffer) ub" where
  "mux_serialize e type_index v b =
     (case get_write_head b of
        (available, None) \<Rightarrow> Some (False, b)
      | (available, Some write_head) \<Rightarrow>
          if available < header_size then Some (False, b)
          else do {
            b1 \<leftarrow> write_bytes write_head [of_nat type_index, 0, 0] b;
            (case commit header_size b1 of
               (False, b2) \<Rightarrow> Some (False, b2)
             | (True, b2) \<Rightarrow> do {
                 ser \<leftarrow> serialize_value e v (Serializer_new b2);
                 let payload_size = bytes_written ser;
                 (if payload_size > max_payload_size then Some (False, ser_buffer ser)
                  else do {
                    b3 \<leftarrow> write_bytes (write_head + 1)
                      [of_nat (payload_size AND byte_mask),
                       of_nat (drop_bit bits_per_byte payload_size AND byte_mask)] (ser_buffer ser);
                    Some (True, b3)
                  })
               })
          })"

section \<open>DemultiplexingDeserializer\<close>

type_synonym variant_type = "nat \<times> obj"

definition variant_default :: "'t registry \<Rightarrow> variant_type" where
  "variant_default types = (0, snd (hd types))"

definition read_header :: "LinearBuffer \<Rightarrow> ((byte \<times> u16) option \<times> LinearBuffer) ub" where
  "read_header b =
     (case get_read_head b of
        (available, None) \<Rightarrow> Some (None, b)
      | (available, Some read_head) \<Rightarrow>
          if available < header_size then Some (None, b)
          else do {
            header \<leftarrow> read_bytes read_head header_size b;
            let b' = snd (consume header_size b);
            Some (Some (header ! 0,
              ucast (header ! 1) OR push_bit bits_per_byte (ucast (header ! 2))), b')
          })"

definition deserialize_type ::
  "byte_order \<Rightarrow> nat \<Rightarrow> obj \<Rightarrow> u16 \<Rightarrow> variant_type \<Rightarrow> LinearBuffer \<Rightarrow> (bool \<times> variant_type \<times> LinearBuffer) ub" where
  "deserialize_type e i d payload_size result b =
     (if payload_size = 0 then do {
        (value, deser) \<leftarrow> deserialize_value e d (Deserializer_new b);
        Some (True, (i, value), des_buffer deser)
      }
      else do {
        let available_before = fst (get_read_head b);
        (value, deser) \<leftarrow> deserialize_value e d (Deserializer_new b);
        let available_after = fst (get_read_head (des_buffer deser));
        let bytes_consumed = (if available_before \<ge> available_after then available_before - available_after else 0);
        (if bytes_consumed \<noteq> unat payload_size then Some (False, result, des_buffer deser)
         else Some (True, (i, value), des_buffer deser))
      })"

text \<open>The fold expression tries the indices in order and stops at the first match.\<close>

fun deserialize_by_index_impl ::
  "byte_order \<Rightarrow> byte \<Rightarrow> u16 \<Rightarrow> variant_type \<Rightarrow> nat \<Rightarrow> 't registry \<Rightarrow> LinearBuffer
     \<Rightarrow> (bool \<times> variant_type \<times> LinearBuffer) ub" where
  "deserialize_by_index_impl e type_index payload_size result i [] b = Some (False, result, b)"
| "deserialize_by_index_impl e type_index payload_size result i ((t, d) # types) b =
     (if unat type_index = i then deserialize_type e i d payload_size result b
      else deserialize_by_index_impl e type_index payload_size result (Suc i) types b)"

definition demux_deserialize ::
  "byte_order \<Rightarrow> 't registry \<Rightarrow> LinearBuffer \<Rightarrow> (bool \<times> variant_type \<times> LinearBuffer) ub" where
  "demux_deserialize e types b = do {
     (hdr, b') \<leftarrow> read_header b;
     (case hdr of
        None \<Rightarrow> Some (False, variant_default types, b')
      | Some (type_index, payload_size) \<Rightarrow>
          if unat type_index \<ge> length types then Some (False, variant_default types, b')
          else if payload_size > 0 \<and>
              (case get_read_head b' of (available, read_head) \<Rightarrow> read_head = None \<or> available < unat payload_size)
          then Some (False, variant_default types, b')
          else deserialize_by_index_impl e type_index payload_size (variant_default types) 0 types b')
   }"

section \<open>Frames\<close>

definition header_bytes :: "nat \<Rightarrow> nat \<Rightarrow> byte list" where
  "header_bytes i n = [of_nat i, of_nat n, of_nat (n div 256)]"

definition frame :: "byte_order \<Rightarrow> nat \<Rightarrow> obj \<Rightarrow> byte list" where
  "frame e i v = header_bytes i (length (obj_bytes e v)) @ obj_bytes e v"

lemma length_header_bytes [simp]: "length (header_bytes i n) = 3"
  by (simp add: header_bytes_def)

lemma low_byte: "(of_nat (n AND byte_mask) :: byte) = of_nat n"
proof -
  have "n AND byte_mask = n mod 256"
    using take_bit_eq_mask [of 8 n] by (simp add: byte_mask_def take_bit_eq_mod mask_eq_exp_minus_1)
  then show ?thesis by (simp add: word_of_nat_eq_iff take_bit_eq_mod)
qed

lemma drop_byte: "drop_bit bits_per_byte n = (n div 256 :: nat)"
  by (simp add: bits_per_byte_def drop_bit_eq_div)

lemma u16_of_bytes:
  "(ucast (a :: byte) OR push_bit 8 (ucast (b :: byte)) :: u16) = (of_nat (unat a + 256 * unat b) :: u16)"
proof -
  have "(ucast a OR push_bit 8 (ucast b) :: u16) = ucast a + push_bit 8 (ucast b)"
    by (rule disjunctive_add [symmetric]) (auto simp: bit_simps dest: bit_imp_le_length)
  then show ?thesis by (simp add: push_bit_eq_mult mult.commute)
qed

lemma header_size_word:
  assumes "n \<le> 65535"
  shows "unat (ucast (of_nat n :: byte)
    OR push_bit bits_per_byte (ucast (of_nat (n div 256) :: byte)) :: u16) = n"
proof -
  have "n mod 256 + 256 * (n div 256 mod 256) = n" using assms by simp
  then show ?thesis
    using assms by (simp add: u16_of_bytes bits_per_byte_def unat_of_nat)
qed

section \<open>What the multiplexer writes\<close>

text \<open>
  Every branch of \<open>serialize\<close>: too little room for the header, a payload that is counted in
  16 bits, and a payload that is not. The payload is what the archive accepted.
\<close>

definition payload :: "byte_order \<Rightarrow> obj \<Rightarrow> LinearBuffer \<Rightarrow> byte list" where
  "payload e v b = arith_bytes e (accepted (writable b - header_size) (flat v))"

lemma mux_serialize_no_room:
  "writable b < header_size \<Longrightarrow> mux_serialize e i v b = Some (False, b)"
  by (simp add: mux_serialize_def get_write_head_eq)

lemma mux_serialize_body:
  assumes "buffer_inv b" and "header_size \<le> writable b"
  obtains b1 ser where "appended [of_nat i, 0, 0] b b1" and "head b1 = head b + 3"
    and "serialize_value e v (Serializer_new b1) = Some ser"
    and "appended (payload e v b) b1 (ser_buffer ser)"
    and "bytes_written ser = length (payload e v b)"
    and "mux_serialize e i v b =
      (if length (payload e v b) > max_payload_size then Some (False, ser_buffer ser)
       else do { b3 \<leftarrow> write_bytes (head b + 1)
              [of_nat (length (payload e v b)), of_nat (length (payload e v b) div 256)] (ser_buffer ser);
            Some (True, b3) })"
proof -
  let ?h = "[of_nat i, 0, 0] :: byte list"
  let ?b1 = "append_bytes ?h b"
  have room: "length ?h \<le> writable b" using assms(2) by (simp add: header_size_def)
  note ap = append_bytes_props [OF assms(1) room]
  obtain b0 where b0: "write_bytes (head b) ?h b = Some b0"
    using write_bytes_Some [OF assms(1) room] by blast
  have "fst (commit header_size b0)"
    using assms(2) write_bytes_frame(6) [OF assms(1) b0] by (simp add: fst_commit)
  moreover have b1: "?b1 = snd (commit header_size b0)"
    by (simp add: append_bytes_def b0 header_size_def eval_nat_numeral)
  ultimately have cm: "commit header_size b0 = (True, ?b1)" by (simp add: prod_eq_iff)
  have w3: "writable ?b1 = writable b - header_size" using ap(2) by (simp add: header_size_def eval_nat_numeral)
  have "buffer_inv (ser_buffer (Serializer_new ?b1))" using ap(4) by (simp add: Serializer_new_def)
  from serialize_exact(1) [OF this, of e v] obtain ser where
    ser: "serialize_value e v (Serializer_new ?b1) = Some ser"
      "appended (payload e v b) ?b1 (ser_buffer ser)" "bytes_written ser = length (payload e v b)"
    by (auto simp: Serializer_new_def payload_def w3)
  have "get_write_head b = (writable b, Some (head b))"
    using assms(2) by (simp add: get_write_head_eq header_size_def)
  then have mux: "mux_serialize e i v b =
      (if length (payload e v b) > max_payload_size then Some (False, ser_buffer ser)
       else do { b3 \<leftarrow> write_bytes (head b + 1)
              [of_nat (length (payload e v b)), of_nat (length (payload e v b) div 256)] (ser_buffer ser);
            Some (True, b3) })"
    using assms(2) by (simp add: mux_serialize_def b0 cm ser low_byte drop_byte Let_def)
  show thesis
    by (rule that [OF _ _ ser mux])
      (use appended_append_bytes [OF assms(1) room] ap(5) in simp_all)
qed

lemma mux_serialize_oversize:
  assumes "buffer_inv b" and "header_size \<le> writable b" and "max_payload_size < length (payload e v b)"
  obtains b' where "mux_serialize e i v b = Some (False, b')"
    and "appended ([of_nat i, 0, 0] @ payload e v b) b b'"
  by (rule mux_serialize_body [OF assms(1,2), of i e v]) (use assms(3) that appended_trans in force)

lemma mux_serialize_sent:
  assumes "buffer_inv b" and "header_size \<le> writable b" and "length (payload e v b) \<le> max_payload_size"
  obtains b' where "mux_serialize e i v b = Some (True, b')"
    and "appended (header_bytes i (length (payload e v b)) @ payload e v b) b b'"
proof -
  let ?p = "payload e v b" and ?h = "[of_nat i, 0, 0] :: byte list"
  let ?sz = "[of_nat (length ?p), of_nat (length ?p div 256)] :: byte list"
  obtain b1 ser where b1: "appended ?h b b1" and "head b1 = head b + 3"
    and "serialize_value e v (Serializer_new b1) = Some ser" and ser: "appended ?p b1 (ser_buffer ser)"
    and "bytes_written ser = length ?p" and body: "mux_serialize e i v b =
      (if length ?p > max_payload_size then Some (False, ser_buffer ser)
       else do { b3 \<leftarrow> write_bytes (head b + 1) ?sz (ser_buffer ser); Some (True, b3) })"
    by (rule mux_serialize_body [OF assms(1,2), of i e v])
  from body have mux: "mux_serialize e i v b =
      do { b3 \<leftarrow> write_bytes (head b + 1) ?sz (ser_buffer ser); Some (True, b3) }"
    using assms(3) by simp
  let ?s = "ser_buffer ser"
  have s: "appended (?h @ ?p) b ?s" using b1 ser by (rule appended_trans)
  then have inv: "buffer_inv ?s" and c: "contents ?s = contents b @ ?h @ ?p" and t: "tail ?s = tail b"
    by (simp_all add: appended_def)
  have hd: "head b = tail b + length (contents b)" "head ?s = tail b + length (contents ?s)"
    using assms(1) inv t by (simp_all add: length_contents) (simp_all add: buffer_inv_def)
  then have "tail ?s \<le> head b + 1" and "head b + 1 + length ?sz \<le> head ?s"
    using c t by simp_all
  from write_bytes_within [OF inv this] obtain b3 where w: "write_bytes (head b + 1) ?sz ?s = Some b3"
    and b3: "buffer_inv b3" "tail b3 = tail ?s" "writable b3 = writable ?s" "capacity b3 = capacity ?s"
    and c3: "contents b3 = take (head b + 1 - tail ?s) (contents ?s) @ ?sz
        @ drop (head b + 1 - tail ?s + length ?sz) (contents ?s)"
    by blast
  have "contents b3 = contents b @ header_bytes i (length ?p) @ ?p"
    by (simp add: c3 c t hd(1) header_bytes_def)
  then have "appended (header_bytes i (length ?p) @ ?p) b b3"
    using s b3 by (simp add: appended_def)
  with mux w that show thesis by simp
qed

lemma payload_complete:
  "length (obj_bytes e v) \<le> writable b - header_size \<Longrightarrow> payload e v b = obj_bytes e v"
  by (simp add: payload_def obj_bytes_def accepted_all)

lemma mux_serialize_fits:
  assumes "buffer_inv b" and "length (frame e i v) \<le> writable b" and "length (obj_bytes e v) \<le> max_payload_size"
  obtains b' where "mux_serialize e i v b = Some (True, b')" and "appended (frame e i v) b b'"
proof -
  have "payload e v b = obj_bytes e v"
    using assms(2) by (intro payload_complete) (simp add: frame_def header_size_def)
  moreover have "header_size \<le> writable b" using assms(2) by (simp add: frame_def header_size_def)
  ultimately show thesis
    using mux_serialize_sent [OF assms(1), of e v i] assms(3) that by (metis frame_def)
qed

section \<open>What the demultiplexer reads\<close>

lemma read_header_short:
  "buffer_inv b \<Longrightarrow> length (contents b) < header_size \<Longrightarrow> read_header b = Some (None, b)"
  by (simp add: read_header_def get_read_head_eq)

lemma read_header_front:
  assumes "buffer_inv b" and "contents b = h # s1 # s2 # rest"
  obtains b' where "read_header b = Some (Some (h, of_nat (unat s1 + 256 * unat s2)), b')"
    and "buffer_inv b'" and "contents b' = rest"
proof -
  let ?b = "snd (consume header_size b)"
  have "read_bytes (tail b) header_size b = Some [h, s1, s2]"
    using read_bytes_contents [OF assms(1), of header_size] by (simp add: assms(2) header_size_def)
  moreover have "contents ?b = rest" "buffer_inv ?b"
    using assms by (simp_all add: consume_inv consume_contents header_size_def)
  ultimately show thesis
    using assms that
    by (simp add: read_header_def get_read_head_eq header_size_def u16_of_bytes bits_per_byte_def)
qed

lemma by_index_hit:
  "unat ti = i + k \<Longrightarrow> k < length types \<Longrightarrow>
     deserialize_by_index_impl e ti n r i types b = deserialize_type e (i + k) (snd (types ! k)) n r b"
proof (induction types arbitrary: i k)
  case Nil
  then show ?case by simp
next
  case (Cons td types)
  obtain t d where td: "td = (t, d)" by (cases td)
  show ?case
  proof (cases k)
    case 0
    with Cons.prems show ?thesis by (simp add: td)
  next
    case (Suc k')
    with Cons.IH [of "Suc i" k'] Cons.prems show ?thesis by (simp add: td)
  qed
qed

lemma deserialize_type_front:
  assumes "buffer_inv b" and "contents b = obj_bytes e v @ rest" and "same_type d v"
    and "unat n = length (obj_bytes e v)"
  obtains b' where "deserialize_type e i d n r b = Some (True, (i, v), b')"
    and "buffer_inv b'" and "contents b' = rest"
proof -
  obtain s where s: "deserialize_value e d (Deserializer_new b) = Some (v, s)"
    "buffer_inv (des_buffer s)" "contents (des_buffer s) = rest"
    using deserialize_front(1) [of "Deserializer_new b" e v rest d] assms
    by (auto simp: Deserializer_new_def)
  have "deserialize_type e i d n r b = Some (True, (i, v), des_buffer s)"
    using assms s by (simp add: deserialize_type_def get_read_head_eq Let_def)
  with s that show thesis by blast
qed

lemma demux_front:
  assumes "buffer_inv b" and "contents b = frame e i v @ rest" and "i < length types" and "i < 256"
    and "same_type (snd (types ! i)) v" and "length (obj_bytes e v) \<le> max_payload_size"
  obtains b' where "demux_deserialize e types b = Some (True, (i, v), b')"
    and "buffer_inv b'" and "contents b' = rest"
proof -
  let ?n = "length (obj_bytes e v)"
  let ?w = "of_nat (unat (of_nat ?n :: byte) + 256 * unat (of_nat (?n div 256) :: byte)) :: u16"
  have n: "unat ?w = ?n"
    using header_size_word [of ?n] assms(6) by (simp add: u16_of_bytes bits_per_byte_def max_payload_size_def)
  obtain b1 where b1: "read_header b = Some (Some (of_nat i, ?w), b1)" "buffer_inv b1"
    "contents b1 = obj_bytes e v @ rest"
    by (rule read_header_front [OF assms(1), of "of_nat i" "of_nat ?n" "of_nat (?n div 256)" "obj_bytes e v @ rest"])
      (use assms(2) in \<open>simp_all add: frame_def header_bytes_def\<close>)
  have i: "unat (of_nat i :: byte) = i" using assms(4) by (simp add: unat_of_nat)
  have "\<not> (?w > 0 \<and> (contents b1 = [] \<or> length (contents b1) < unat ?w))"
    using n by (auto simp: b1(3) word_gt_0 simp flip: unat_eq_0)
  then have "demux_deserialize e types b =
      deserialize_by_index_impl e (of_nat i) ?w (variant_default types) 0 types b1"
    using assms(3) i by (auto simp: demux_deserialize_def b1(1) get_read_head_eq [OF b1(2)] split: if_splits)
  also have "\<dots> = deserialize_type e i (snd (types ! i)) ?w (variant_default types) b1"
    using by_index_hit [of "of_nat i" 0 i types] assms(3) i by simp
  finally have dm: "demux_deserialize e types b = deserialize_type e i (snd (types ! i)) ?w (variant_default types) b1" .
  show thesis
    using deserialize_type_front [OF b1(2,3) assms(5) n] dm that by metis
qed

section \<open>Streams of messages\<close>

text \<open>\<open>mux.serialize(v)\<close> for a \<open>v\<close> of type \<open>t\<close>: the index is resolved at compile time.\<close>

definition mux_send :: "byte_order \<Rightarrow> 't registry \<Rightarrow> 't \<times> obj \<Rightarrow> LinearBuffer \<Rightarrow> (bool \<times> LinearBuffer) ub" where
  "mux_send e types m b =
     (case type_index_impl (fst m) (map fst types) of
        None \<Rightarrow> None
      | Some i \<Rightarrow> mux_serialize e i (snd m) b)"

fun mux_all :: "byte_order \<Rightarrow> 't registry \<Rightarrow> ('t \<times> obj) list \<Rightarrow> LinearBuffer \<Rightarrow> (bool list \<times> LinearBuffer) ub" where
  "mux_all e types [] b = Some ([], b)"
| "mux_all e types (m # ms) b = do {
     (ok, b') \<leftarrow> mux_send e types m b;
     (oks, b'') \<leftarrow> mux_all e types ms b';
     Some (ok # oks, b'')
   }"

fun demux_all :: "byte_order \<Rightarrow> 't registry \<Rightarrow> nat \<Rightarrow> LinearBuffer \<Rightarrow> ((bool \<times> variant_type) list \<times> LinearBuffer) ub" where
  "demux_all e types 0 b = Some ([], b)"
| "demux_all e types (Suc n) b = do {
     (ok, v, b') \<leftarrow> demux_deserialize e types b;
     (vs, b'') \<leftarrow> demux_all e types n b';
     Some ((ok, v) # vs, b'')
   }"

text \<open>A message of a registered type whose payload size fits the 16-bit size field.\<close>

definition wf_message :: "byte_order \<Rightarrow> 't registry \<Rightarrow> 't \<times> obj \<Rightarrow> bool" where
  "wf_message e types m =
     (case type_index_impl (fst m) (map fst types) of
        None \<Rightarrow> False
      | Some i \<Rightarrow> same_type (snd (types ! i)) (snd m) \<and> length (obj_bytes e (snd m)) \<le> max_payload_size)"

definition message_index :: "'t registry \<Rightarrow> 't \<times> obj \<Rightarrow> nat" where
  "message_index types m = the (type_index_impl (fst m) (map fst types))"

definition message_frame :: "byte_order \<Rightarrow> 't registry \<Rightarrow> 't \<times> obj \<Rightarrow> byte list" where
  "message_frame e types m = frame e (message_index types m) (snd m)"

lemma type_index_impl_Some:
  "type_index_impl t ts = Some i \<Longrightarrow> i < length ts \<and> ts ! i = t \<and> t \<notin> set (take i ts)"
  by (induction ts arbitrary: i) (auto split: if_splits simp: nth_Cons' take_Cons')

lemma wf_messageD:
  assumes "wf_message e types m"
  shows "type_index_impl (fst m) (map fst types) = Some (message_index types m)"
    and "message_index types m < length types"
    and "same_type (snd (types ! message_index types m)) (snd m)"
    and "length (obj_bytes e (snd m)) \<le> max_payload_size"
  using assms type_index_impl_Some [of "fst m" "map fst types"]
  by (auto simp: wf_message_def message_index_def split: option.splits)

lemma mux_all_fits:
  assumes "list_all (wf_message e types) ms" and "buffer_inv b"
    and "length (concat (map (message_frame e types) ms)) \<le> writable b"
  shows "\<exists>b'. mux_all e types ms b = Some (replicate (length ms) True, b')
    \<and> appended (concat (map (message_frame e types) ms)) b b'"
  using assms
proof (induction ms arbitrary: b)
  case Nil
  then show ?case by (simp add: appended_refl)
next
  case (Cons m ms)
  then have wf: "wf_message e types m" by simp
  obtain b1 where b1: "mux_serialize e (message_index types m) (snd m) b = Some (True, b1)"
    "appended (message_frame e types m) b b1"
    by (rule mux_serialize_fits [OF Cons.prems(2), of e "message_index types m" "snd m"])
      (use Cons.prems(3) wf_messageD(4) [OF wf] in \<open>simp_all add: message_frame_def\<close>)
  have "\<exists>b'. mux_all e types ms b1 = Some (replicate (length ms) True, b')
      \<and> appended (concat (map (message_frame e types) ms)) b1 b'"
    by (rule Cons.IH) (use Cons.prems b1(2) in \<open>simp_all add: appended_def\<close>)
  with b1 show ?case
    by (auto simp: mux_send_def wf_messageD(1) [OF wf] intro: appended_trans)
qed

lemma demux_all_front:
  assumes "list_all (wf_message e types) ms" and "length types \<le> max_types" and "buffer_inv b"
    and "contents b = concat (map (message_frame e types) ms) @ rest"
  shows "\<exists>b'. demux_all e types (length ms) b = Some (map (\<lambda>m. (True, message_index types m, snd m)) ms, b')
    \<and> buffer_inv b' \<and> contents b' = rest"
  using assms
proof (induction ms arbitrary: b)
  case Nil
  then show ?case by simp
next
  case (Cons m ms)
  then have wf: "wf_message e types m" by simp
  note wfm = wf_messageD [OF wf]
  have "contents b = frame e (message_index types m) (snd m) @ concat (map (message_frame e types) ms) @ rest"
    using Cons.prems(4) by (simp add: message_frame_def [of e types m])
  moreover have "message_index types m < 256" using wfm(2) Cons.prems(2) by (simp add: max_types_def)
  ultimately obtain b1 where b1: "demux_deserialize e types b = Some (True, (message_index types m, snd m), b1)"
    "buffer_inv b1" "contents b1 = concat (map (message_frame e types) ms) @ rest"
    using demux_front [OF Cons.prems(3) _ wfm(2) _ wfm(3,4)] by blast
  have "\<exists>b'. demux_all e types (length ms) b1 = Some (map (\<lambda>m. (True, message_index types m, snd m)) ms, b')
      \<and> buffer_inv b' \<and> contents b' = rest"
    by (rule Cons.IH) (use Cons.prems b1 in simp_all)
  with b1(1) show ?case by auto
qed

text \<open>
  Property C3. A stream of messages of registered types that together fit the buffer is
  transported exactly: every \<open>serialize\<close> reports success, and as many calls of
  \<open>deserialize\<close> return, with success, the same values tagged with the index of their
  type, in order, and leave the buffer empty. The index is that of the first occurrence of the
  type in the pack.
\<close>

theorem mux_demux_stream:
  assumes "list_all (wf_message e types) ms" and "length types \<le> max_types"
    and "buffer_inv b" and "contents b = []"
    and "length (concat (map (message_frame e types) ms)) \<le> writable b"
  shows "\<exists>b1 b2. mux_all e types ms b = Some (replicate (length ms) True, b1)
    \<and> demux_all e types (length ms) b1 = Some (map (\<lambda>m. (True, message_index types m, snd m)) ms, b2)
    \<and> contents b2 = [] \<and> writable b2 = capacity b2"
proof -
  obtain b1 where b1: "mux_all e types ms b = Some (replicate (length ms) True, b1)"
    and ap: "appended (concat (map (message_frame e types) ms)) b b1"
    using mux_all_fits [OF assms(1,3,5)] by blast
  then have "buffer_inv b1" "contents b1 = concat (map (message_frame e types) ms) @ []"
    using assms(4) by (simp_all add: appended_def)
  from demux_all_front [OF assms(1,2) this] obtain b2 where
    "demux_all e types (length ms) b1 = Some (map (\<lambda>m. (True, message_index types m, snd m)) ms, b2)"
    "buffer_inv b2" "contents b2 = []" by blast
  with b1 buffer_empty_writable show ?thesis by blast
qed

theorem mux_demux_stream_witness:
  "\<exists>b1 b2. mux_all Little_endian [(''A'', Struct [Arith (U16 0)]), (''B'', Struct [])]
       [(''B'', Struct []), (''A'', Struct [Arith (U16 513)])] (LinearBuffer_new 8) = Some ([True, True], b1)
    \<and> demux_all Little_endian [(''A'', Struct [Arith (U16 0)]), (''B'', Struct [])] 2 b1
      = Some ([(True, 1, Struct []), (True, 0, Struct [Arith (U16 513)])], b2)"
proof -
  let ?types = "[(''A'', Struct [Arith (U16 0)]), (''B'', Struct [])]"
  let ?ms = "[(''B'', Struct []), (''A'', Struct [Arith (U16 513)])]"
  have wf: "list_all (wf_message Little_endian ?types) ?ms"
    by (simp add: wf_message_def obj_bytes_def max_payload_size_def)
  have room: "length (concat (map (message_frame Little_endian ?types) ?ms)) \<le> writable (LinearBuffer_new 8)"
    by (simp add: message_frame_def frame_def obj_bytes_def writable_def get_write_head_def LinearBuffer_new_def)
  have empty: "contents (LinearBuffer_new 8) = []" by (simp add: contents_def LinearBuffer_new_def)
  have pack: "length ?types \<le> max_types" by (simp add: max_types_def)
  obtain b1 b2 where
    st: "mux_all Little_endian ?types ?ms (LinearBuffer_new 8) = Some (replicate (length ?ms) True, b1)"
    "demux_all Little_endian ?types (length ?ms) b1 = Some (map (\<lambda>m. (True, message_index ?types m, snd m)) ?ms, b2)"
    using mux_demux_stream [OF wf pack buffer_inv_new empty room] by blast
  have len: "length ?ms = 2" "replicate 2 True = [True, True]" by (simp_all add: numeral_2_eq_2)
  have res: "map (\<lambda>m. (True, message_index ?types m, snd m)) ?ms
      = [(True, 1, Struct []), (True, 0, Struct [Arith (U16 513)])]"
    by (simp add: message_index_def)
  show ?thesis
    by (rule exI [of _ b1], rule exI [of _ b2]) (use st in \<open>simp only: len res\<close>)
qed

section \<open>Every branch of the two classes\<close>

text \<open>
  Property C35. The result of \<open>MultiplexingSerializer::serialize\<close> on every branch: without
  room for the header it fails and changes nothing; otherwise the header and the members
  that find room are appended, and the call succeeds exactly when that payload is counted by
  16 bits, the size field then holding its length; a longer payload is reported as a failure
  but stays in the buffer behind a header whose size field is 0.
\<close>

theorem mux_serialize_result:
  assumes "buffer_inv b"
  shows "\<exists>ok b'. mux_serialize e i v b = Some (ok, b') \<and> buffer_inv b'
    \<and> (ok \<longleftrightarrow> header_size \<le> writable b \<and> length (payload e v b) \<le> max_payload_size)
    \<and> contents b' = contents b @
        (if writable b < header_size then []
         else header_bytes i (if ok then length (payload e v b) else 0) @ payload e v b)"
proof (cases "writable b < header_size")
  case True
  then show ?thesis
    using assms by (intro exI [of _ False] exI [of _ b]) (simp add: mux_serialize_no_room)
next
  case False
  then have room: "header_size \<le> writable b" by simp
  show ?thesis
  proof (cases "length (payload e v b) \<le> max_payload_size")
    case True
    obtain b' where "mux_serialize e i v b = Some (True, b')"
      "appended (header_bytes i (length (payload e v b)) @ payload e v b) b b'"
      using mux_serialize_sent [OF assms room True] by blast
    with False True show ?thesis
      by (intro exI [of _ True] exI [of _ b']) (simp add: appended_def)
  next
    case big: False
    then obtain b' where "mux_serialize e i v b = Some (False, b')"
      "appended ([of_nat i, 0, 0] @ payload e v b) b b'"
      using mux_serialize_oversize [OF assms room, of e v i] by auto
    with False big show ?thesis
      by (intro exI [of _ False] exI [of _ b']) (simp add: appended_def header_bytes_def)
  qed
qed

theorem mux_serialize_result_witness:
  "buffer_inv (LinearBuffer_new 2) \<and> mux_serialize Little_endian 0 (Arith (U8 1)) (LinearBuffer_new 2)
    = Some (False, LinearBuffer_new 2)"
proof -
  have w: "writable (LinearBuffer_new 2) = 2"
    by (simp add: writable_def get_write_head_def LinearBuffer_new_def)
  obtain ok b' where "mux_serialize Little_endian 0 (Arith (U8 1)) (LinearBuffer_new 2) = Some (ok, b')"
    "ok \<longleftrightarrow> header_size \<le> writable (LinearBuffer_new 2)
       \<and> length (payload Little_endian (Arith (U8 1)) (LinearBuffer_new 2)) \<le> max_payload_size"
    using mux_serialize_result [of "LinearBuffer_new 2" Little_endian 0 "Arith (U8 1)"] by auto
  moreover have "mux_serialize Little_endian 0 (Arith (U8 1)) (LinearBuffer_new 2) = Some (False, LinearBuffer_new 2)"
    by (rule mux_serialize_no_room) (simp add: w header_size_def)
  ultimately show ?thesis by (metis buffer_inv_new)
qed

lemma unat_of_nat_u16: "k < 65536 \<Longrightarrow> unat (of_nat k :: u16) = k"
  by (simp add: unat_of_nat)

lemma demux_rejects:
  assumes "buffer_inv b" and "contents b = h # s1 # s2 # rest"
    and "unat h \<ge> length types \<or> length rest < unat s1 + 256 * unat s2"
  shows "\<exists>b'. demux_deserialize e types b = Some (False, variant_default types, b')
    \<and> buffer_inv b' \<and> contents b' = rest"
proof -
  let ?w = "of_nat (unat s1 + 256 * unat s2) :: u16"
  have "unat s1 + 256 * unat s2 < 65536" using unat_byte_less [of s1] unat_byte_less [of s2] by linarith
  then have w: "unat ?w = unat s1 + 256 * unat s2" by (rule unat_of_nat_u16)
  obtain b1 where b1: "read_header b = Some (Some (h, ?w), b1)" "buffer_inv b1" "contents b1 = rest"
    by (rule read_header_front [OF assms(1,2)])
  have "?w > 0" if "length rest < unat s1 + 256 * unat s2"
    using that w by (auto simp: word_gt_0 simp flip: unat_eq_0)
  moreover have "(case get_read_head b1 of (available, read_head) \<Rightarrow> read_head = None \<or> available < unat ?w)
      \<longleftrightarrow> rest = [] \<or> length rest < unat ?w"
    by (simp add: get_read_head_eq [OF b1(2)] b1(3))
  ultimately have "demux_deserialize e types b = Some (False, variant_default types, b1)"
    using assms(3) w by (auto simp: demux_deserialize_def b1(1))
  with b1 show ?thesis by blast
qed

text \<open>
  Rejected input of \<open>DemultiplexingDeserializer::deserialize\<close>: with fewer than
  three readable bytes nothing is consumed; an unregistered type index, or a size field larger
  than what is readable, is reported as a failure after the header has been consumed, so that
  the payload bytes of the rejected message stay in front of the next call. The result is then
  the value-initialised first type.
\<close>

theorem demux_rejections:
  assumes "buffer_inv b"
  shows "(length (contents b) < header_size \<longrightarrow>
      demux_deserialize e types b = Some (False, variant_default types, b))
    \<and> (\<forall>h s1 s2 rest. contents b = h # s1 # s2 # rest
        \<and> (unat h \<ge> length types \<or> length rest < unat s1 + 256 * unat s2) \<longrightarrow>
       (\<exists>b'. demux_deserialize e types b = Some (False, variant_default types, b')
          \<and> buffer_inv b' \<and> contents b' = rest))"
proof (intro conjI allI impI)
  show "demux_deserialize e types b = Some (False, variant_default types, b)" if "length (contents b) < header_size"
    using that assms by (simp add: demux_deserialize_def read_header_short)
qed (use demux_rejects [OF assms] in blast)

lemma contents_append_new: "length bs \<le> n \<Longrightarrow> contents (append_bytes bs (LinearBuffer_new n)) = bs"
  "length bs \<le> n \<Longrightarrow> buffer_inv (append_bytes bs (LinearBuffer_new n))"
proof -
  assume "length bs \<le> n"
  then have "length bs \<le> writable (LinearBuffer_new n)"
    by (simp add: writable_def get_write_head_def LinearBuffer_new_def)
  from append_bytes_props(1,4) [OF buffer_inv_new this]
  show "contents (append_bytes bs (LinearBuffer_new n)) = bs" "buffer_inv (append_bytes bs (LinearBuffer_new n))"
    by (simp_all add: contents_def LinearBuffer_new_def)
qed

theorem demux_rejections_witness:
  "\<exists>b'. demux_deserialize Little_endian [(''A'', Arith (U8 0))] (append_bytes [1, 2, 0, 7, 7] (LinearBuffer_new 8))
     = Some (False, (0, Arith (U8 0)), b') \<and> contents b' = [7, 7]"
proof -
  let ?b = "append_bytes [1, 2, 0, 7, 7] (LinearBuffer_new 8)"
  have "buffer_inv ?b" "contents ?b = 1 # 2 # 0 # [7, 7]"
    by (simp_all add: contents_append_new)
  moreover have "unat (1 :: byte) \<ge> length [(''A'', Arith (U8 0))]" by simp
  ultimately show ?thesis
    using demux_rejections [of ?b Little_endian "[(''A'', Arith (U8 0))]"]
    by (auto simp: variant_default_def)
qed

text \<open>
  A message that does not fit is reported as sent, and can be received as a
  different message without any error: with 4 free bytes, a record of a 32-bit and an
  8-bit member is stored without its first member, \<open>serialize\<close> returns true, and
  \<open>deserialize\<close> returns success with the first member 0.
\<close>

theorem mux_truncated_message_accepted:
  "\<exists>b b'. mux_send Little_endian [(''R'', Struct [Arith (U32 0), Arith (U8 0)])]
        (''R'', Struct [Arith (U32 5), Arith (U8 9)]) (LinearBuffer_new 4) = Some (True, b)
    \<and> demux_deserialize Little_endian [(''R'', Struct [Arith (U32 0), Arith (U8 0)])] b
        = Some (True, (0, Struct [Arith (U32 0), Arith (U8 9)]), b')"
proof -
  let ?v = "Struct [Arith (U32 5), Arith (U8 9)]" and ?d = "Struct [Arith (U32 0), Arith (U8 0)]"
  have w: "writable (LinearBuffer_new 4) = 4" "contents (LinearBuffer_new 4) = []"
    by (simp_all add: writable_def get_write_head_def LinearBuffer_new_def contents_def)
  have rep: "object_rep Little_endian (U8 9) = [9]" by (simp add: object_rep_def ordered_def)
  then have p: "payload Little_endian ?v (LinearBuffer_new 4) = [9]"
    by (simp add: payload_def w header_size_def)
  obtain b where b: "mux_serialize Little_endian 0 ?v (LinearBuffer_new 4) = Some (True, b)"
    and ap: "appended (header_bytes 0 1 @ [9]) (LinearBuffer_new 4) b"
    using mux_serialize_sent [OF buffer_inv_new, of 4 Little_endian ?v 0] by (auto simp: p w header_size_def max_payload_size_def)
  then have inv: "buffer_inv b" and "contents b = 0 # 1 # 0 # [9]"
    by (simp_all add: appended_def w header_bytes_def)
  then obtain b1 where b1: "read_header b = Some (Some (0, 1), b1)" "buffer_inv b1" "contents b1 = [9]"
    by (metis (no_types) One_nat_def mult_0_right add_0_right of_nat_1 read_header_front unat_0 unat_1)
  let ?s = "Deserializer_new b1"
  have s: "buffer_inv (des_buffer ?s)" "contents (des_buffer ?s) = object_rep Little_endian (U8 9) @ []"
    using b1 rep by (simp_all add: Deserializer_new_def)
  obtain s' where s': "deserialize_arith Little_endian (U8 0) ?s = Some (U8 9, s')"
    "buffer_inv (des_buffer s')" "contents (des_buffer s') = []"
    by (rule deserialize_arith_front [OF s, of "U8 0"]) simp_all
  moreover have "deserialize_arith Little_endian (U32 0) ?s = Some (U32 0, ?s)"
    using s by (simp add: deserialize_arith_short rep)
  ultimately have "deserialize_value Little_endian ?d ?s = Some (Struct [Arith (U32 0), Arith (U8 9)], s')"
    by simp
  then have "demux_deserialize Little_endian [(''R'', ?d)] b
      = Some (True, (0, Struct [Arith (U32 0), Arith (U8 9)]), des_buffer s')"
    using b1 s' by (simp add: demux_deserialize_def deserialize_type_def get_read_head_eq)
  with b show ?thesis by (auto simp: mux_send_def)
qed

end
