(* ===== verification/Serial_Types.thy ===== *)
theory Serial_Types
  imports Serial_Mux
begin

text \<open>
  The compile-time side of the archives: \<open>allowed_types.hpp\<close>, the traits of
  \<open>serialize_helper.hpp\<close>, the \<open>operator&\<close> of both archives with its dispatch, and the static
  assertions of the multiplexer classes. What the demultiplexer makes of arbitrary bytes, typed.
\<close>

section \<open>Types\<close>

text \<open>
  Arithmetic types by their size, and the floating point types. A class is what its \<open>serialize\<close>
  functions visit: the member function and the free function found by argument dependent lookup,
  each present or not, both templates on the archive.
\<close>

datatype arith_type = Bits8 | Bits16 | Bits32 | Bits64 | Float | Double | Long_double

datatype cpp_type = Arithmetic arith_type | Class "cpp_type list option" "cpp_type list option"

definition check_if_type_is_serializable :: "cpp_type \<Rightarrow> bool" where
  "check_if_type_is_serializable t \<longleftrightarrow>
     t \<noteq> Arithmetic Float \<and> t \<noteq> Arithmetic Double \<and> t \<noteq> Arithmetic Long_double"

fun has_member_serialize :: "cpp_type \<Rightarrow> bool" where
  "has_member_serialize (Class (Some _) _) \<longleftrightarrow> True"
| "has_member_serialize _ \<longleftrightarrow> False"

fun has_adl_serialize :: "cpp_type \<Rightarrow> bool" where
  "has_adl_serialize (Class _ (Some _)) \<longleftrightarrow> True"
| "has_adl_serialize _ \<longleftrightarrow> False"

text \<open>\<open>compiled\<close>: \<^const>\<open>None\<close> is a program that a static assertion rejects.\<close>

type_synonym 'a compiled = "'a option"

text \<open>The dispatch on a class: the function that \<open>serialize_value\<close> calls, and the members it visits.\<close>

fun visited :: "cpp_type \<Rightarrow> cpp_type list compiled" where
  "visited (Arithmetic _) = None"
| "visited (Class member adl) =
     (if has_member_serialize (Class member adl) then member
      else if has_adl_serialize (Class member adl) then adl
      else None)"

lemma visited_cases: "visited (Class member adl) = (case member of Some ts \<Rightarrow> Some ts | None \<Rightarrow> adl)"
  by (cases member; cases adl) simp_all

declare visited.simps(2) [simp del]

lemma visited_size: "visited t = Some ts \<Longrightarrow> u \<in> set ts \<Longrightarrow> size u < size t"
proof (cases t)
  case (Class member adl)
  assume "visited t = Some ts" "u \<in> set ts"
  moreover from this(2) have "size u < Suc (size_list size ts)"
    by (induction ts) auto
  ultimately show ?thesis by (auto simp: Class visited_cases split: option.splits)
qed simp

text \<open>The arithmetic object of a type, with the value 0.\<close>

fun arith_zero :: "arith_type \<Rightarrow> arith compiled" where
  "arith_zero Bits8 = Some (U8 0)"
| "arith_zero Bits16 = Some (U16 0)"
| "arith_zero Bits32 = Some (U32 0)"
| "arith_zero Bits64 = Some (U64 0)"
| "arith_zero _ = None"

text \<open>\<open>archive & x\<close> compiles: the check of the type, then the dispatch, which instantiates the
  same operator for the members that are visited.\<close>

function operator_compiles :: "cpp_type \<Rightarrow> bool" where
  "operator_compiles t \<longleftrightarrow>
     check_if_type_is_serializable t \<and>
     (case t of
        Arithmetic _ \<Rightarrow> True
      | Class _ _ \<Rightarrow> (case visited t of None \<Rightarrow> False | Some ts \<Rightarrow> (\<forall>u \<in> set ts. operator_compiles u)))"
  by pat_completeness auto
termination
  by (relation "measure size") (auto dest: visited_size)

declare operator_compiles.simps [simp del]

section \<open>Typed objects\<close>

text \<open>
  An object as an archive sees it: an arithmetic value of the width of its type, or the members
  that the \<open>serialize\<close> function of its class visits, where a member function hides the free one.
  Objects without such a view (of a floating point type, of a class without either function) exist
  in C++ but have no place here.
\<close>

fun has_width :: "arith \<Rightarrow> arith_type \<Rightarrow> bool" where
  "has_width (U8 _) Bits8 \<longleftrightarrow> True"
| "has_width (U16 _) Bits16 \<longleftrightarrow> True"
| "has_width (U32 _) Bits32 \<longleftrightarrow> True"
| "has_width (U64 _) Bits64 \<longleftrightarrow> True"
| "has_width _ _ \<longleftrightarrow> False"

function has_type :: "obj \<Rightarrow> cpp_type \<Rightarrow> bool" where
  "has_type (Arith a) t \<longleftrightarrow> (case t of Arithmetic k \<Rightarrow> has_width a k | Class _ _ \<Rightarrow> False)"
| "has_type (Struct os) t \<longleftrightarrow>
     (case t of
        Class (Some ts) _ \<Rightarrow> list_all2 has_type os ts
      | Class None (Some ts) \<Rightarrow> list_all2 has_type os ts
      | _ \<Rightarrow> False)"
  by pat_completeness auto
termination
  by (relation "measure (\<lambda>(v, t). size v)") (auto simp: less_Suc_eq_le dest!: size_list_estimation' [of _ _ _ size, OF _ order_refl])

lemma has_width_zero: "has_width a k \<longleftrightarrow> (\<exists>z. arith_zero k = Some z \<and> same_arith z a)"
  by (cases k; cases a) simp_all

lemma has_type_Arith: "has_type (Arith a) (Arithmetic k) \<longleftrightarrow> (\<exists>z. arith_zero k = Some z \<and> same_arith z a)"
  by (simp add: has_width_zero)

lemma has_type_Class: "has_type v (Class m f) \<longleftrightarrow> (\<exists>os ts. v = Struct os \<and> visited (Class m f) = Some ts \<and> list_all2 has_type os ts)"
  by (cases v; cases m; cases f) (simp_all add: visited_cases)

lemma has_type_Arithmetic: "has_type v (Arithmetic k) \<longleftrightarrow> (\<exists>a z. v = Arith a \<and> arith_zero k = Some z \<and> same_arith z a)"
  by (cases v) (simp_all add: has_width_zero)

declare has_type.simps [simp del]

text \<open>\<open>T {}\<close> for a class without initialisers of its own.\<close>

function value_init :: "cpp_type \<Rightarrow> obj compiled" where
  "value_init t =
     (case t of
        Arithmetic k \<Rightarrow> map_option Arith (arith_zero k)
      | Class _ _ \<Rightarrow>
          (case visited t of
             None \<Rightarrow> None
           | Some ts \<Rightarrow> (if \<forall>u \<in> set ts. value_init u \<noteq> None then Some (Struct (map (\<lambda>u. the (value_init u)) ts)) else None)))"
  by pat_completeness auto
termination
  by (relation "measure size") (auto dest: visited_size)

declare value_init.simps [simp del]

lemma check_arith: "check_if_type_is_serializable (Arithmetic k) \<longleftrightarrow> arith_zero k \<noteq> None"
  by (cases k) (simp_all add: check_if_type_is_serializable_def)

lemma check_class [simp]: "check_if_type_is_serializable (Class m f)"
  by (simp add: check_if_type_is_serializable_def)

lemma operator_compiles_arith [simp]: "operator_compiles (Arithmetic k) \<longleftrightarrow> arith_zero k \<noteq> None"
  by (subst operator_compiles.simps) (simp add: check_arith)

lemma operator_compiles_class [simp]:
  "operator_compiles (Class m f) \<longleftrightarrow> (\<exists>ts. visited (Class m f) = Some ts \<and> (\<forall>u \<in> set ts. operator_compiles u))"
  by (subst operator_compiles.simps) (simp split: option.split)

lemma same_arith_refl [simp]: "same_arith a a"
  by (cases a) simp_all

lemma value_init_typed: "operator_compiles t \<Longrightarrow> \<exists>v. value_init t = Some v \<and> has_type v t"
proof (induction t rule: measure_induct_rule [where f = size])
  case (less t)
  show ?case
  proof (cases t)
    case (Arithmetic k)
    with less.prems show ?thesis by (auto simp: value_init.simps [of "Arithmetic k"] has_type_Arith)
  next
    case (Class m f)
    with less.prems obtain ts where ts: "visited t = Some ts" "\<forall>u \<in> set ts. operator_compiles u" by auto
    then have IH: "\<exists>v. value_init u = Some v \<and> has_type v u" if "u \<in> set ts" for u
      using less.IH [OF visited_size [OF ts(1) that]] that by simp
    then have "list_all2 has_type (map (\<lambda>u. the (value_init u)) ts) ts" by (induction ts) fastforce+
    with IH ts(1) show ?thesis by (auto simp: value_init.simps [of "Class m f"] Class has_type_Class)
  qed
qed

lemma has_type_compiles: "has_type v t \<Longrightarrow> operator_compiles t"
proof (induction v arbitrary: t)
  case (Arith a)
  then show ?case by (cases t) (auto simp: has_type_Arithmetic has_type_Class)
next
  case (Struct os)
  from Struct.prems obtain m f ts where t: "t = Class m f" "visited t = Some ts" "list_all2 has_type os ts"
    by (cases t) (auto simp: has_type_Arithmetic has_type_Class)
  have "\<exists>v \<in> set os. has_type v u" if "u \<in> set ts" for u
    using t(3) that by (metis in_set_conv_nth list_all2_conv_all_nth nth_mem)
  then have "\<forall>u \<in> set ts. operator_compiles u" using Struct.IH by blast
  with t show ?case by simp
qed

text \<open>
  The types an archive accepts, by rules of their own: the arithmetic types of 1, 2, 4 and 8 bytes,
  a class with a \<open>serialize\<close> member function, whatever free function there is beside it, and a class
  with the free function alone, when the members it visits are accepted.
\<close>

inductive serializable :: "cpp_type \<Rightarrow> bool" where
  integral: "k \<in> {Bits8, Bits16, Bits32, Bits64} \<Longrightarrow> serializable (Arithmetic k)"
| member: "\<forall>u \<in> set ts. serializable u \<Longrightarrow> serializable (Class (Some ts) adl)"
| free: "\<forall>u \<in> set ts. serializable u \<Longrightarrow> serializable (Class None (Some ts))"

lemma serializable_compiles: "serializable t \<Longrightarrow> operator_compiles t"
  by (induction rule: serializable.induct) (auto simp: visited_cases)

lemma compiles_serializable: "operator_compiles t \<Longrightarrow> serializable t"
proof (induction t rule: measure_induct_rule [where f = size])
  case (less t)
  show ?case
  proof (cases t)
    case (Arithmetic k)
    with less.prems show ?thesis by (cases k) (auto intro: serializable.integral)
  next
    case (Class m f)
    with less.prems obtain ts where ts: "visited t = Some ts" "\<forall>u \<in> set ts. operator_compiles u" by auto
    then have "\<forall>u \<in> set ts. serializable u" using less.IH [OF visited_size [OF ts(1)]] by blast
    with ts(1) Class show ?thesis by (cases m) (auto simp: visited_cases intro: serializable.intros)
  qed
qed

section \<open>The bytes of a type\<close>

definition wire_size :: "cpp_type \<Rightarrow> nat" where
  "wire_size t = (case value_init t of None \<Rightarrow> 0 | Some v \<Rightarrow> sum_list (map size_of (flat v)))"

lemma same_arith_trans: "same_arith z a \<Longrightarrow> same_arith z b \<Longrightarrow> same_arith a b"
  by (cases z; cases a; cases b) simp_all

lemma same_arith_sym: "same_arith a b \<Longrightarrow> same_arith b a"
  by (cases a; cases b) simp_all

lemma same_type_typed: "same_type v w \<Longrightarrow> has_type v t \<Longrightarrow> has_type w t"
proof (induction v w arbitrary: t rule: same_type.induct)
  case (1 a b)
  then show ?case by (cases t) (auto simp: has_type_Arithmetic has_type_Class intro: same_arith_trans same_arith_sym)
next
  case (2 os ps)
  from "2.prems"(2) obtain m f ts where t: "t = Class m f" "visited t = Some ts" "list_all2 has_type os ts"
    by (cases t) (auto simp: has_type_Arithmetic has_type_Class)
  have "list_all2 has_type ps ts"
    unfolding list_all2_conv_all_nth
  proof (intro conjI allI impI)
    show "length ps = length ts" using t(3) "2.prems"(1) by (simp add: list_all2_conv_all_nth)
    show "has_type (ps ! i) (ts ! i)" if "i < length ps" for i
      using that t(3) "2.prems"(1) by (intro "2.IH" [of "os ! i" "ps ! i"]) (auto simp: list_all2_conv_all_nth)
  qed
  with t show ?case by (auto simp: has_type_Class)
qed simp_all

lemma typed_same_type: "has_type v t \<Longrightarrow> has_type w t \<Longrightarrow> same_type v w"
proof (induction v arbitrary: t w)
  case (Arith a)
  then show ?case by (cases t) (auto simp: has_type_Arithmetic has_type_Class intro: same_arith_trans)
next
  case (Struct os)
  from Struct.prems obtain m f ts ps where t: "t = Class m f" "visited t = Some ts" "list_all2 has_type os ts"
    "w = Struct ps" "list_all2 has_type ps ts"
    by (cases t) (auto simp: has_type_Arithmetic has_type_Class)
  have "list_all2 same_type os ps"
    unfolding list_all2_conv_all_nth
  proof (intro conjI allI impI)
    show "length os = length ps" using t(3,5) by (simp add: list_all2_lengthD)
    show "same_type (os ! i) (ps ! i)" if "i < length os" for i
      using that t(3,5) by (intro Struct.IH [of "os ! i" "ts ! i" "ps ! i"]) (auto simp: list_all2_conv_all_nth)
  qed
  with t(4) show ?case by simp
qed

lemma same_type_sizes: "same_type v w \<Longrightarrow> map size_of (flat v) = map size_of (flat w)"
proof (induction v w rule: same_type.induct)
  case (2 os ps)
  then have "map (\<lambda>v. map size_of (flat v)) os = map (\<lambda>v. map size_of (flat v)) ps"
    by (simp add: list_all2_conv_all_nth list_eq_iff_nth_eq [of "map f os" "map f ps" for f] del: map_eq_conv)
  then show ?case by (simp add: map_concat comp_def)
qed (simp_all add: same_arith_size)

lemma length_arith_bytes: "length (arith_bytes e as) = sum_list (map size_of as)"
  by (induction as) simp_all

lemma wire_size_typed: "has_type v t \<Longrightarrow> length (obj_bytes e v) = wire_size t"
proof -
  assume v: "has_type v t"
  obtain w where w: "value_init t = Some w" "has_type w t" using value_init_typed [OF has_type_compiles [OF v]] by blast
  with same_type_sizes [OF typed_same_type [OF v w(2)]] show ?thesis
    by (simp add: wire_size_def obj_bytes_def length_arith_bytes)
qed

section \<open>The operators of the archives\<close>

text \<open>
  \<open>archive & value\<close> for a value of a type: the check, then the dispatch, each visited member through
  the same operator.
\<close>

fun serializer_operator :: "byte_order \<Rightarrow> cpp_type \<Rightarrow> obj \<Rightarrow> Serializer \<Rightarrow> Serializer ub compiled"
  and serializer_visit :: "byte_order \<Rightarrow> cpp_type list \<Rightarrow> obj list \<Rightarrow> Serializer \<Rightarrow> Serializer ub compiled" where
  "serializer_operator e t (Arith a) s =
     (if \<not> check_if_type_is_serializable t then None
      else (case t of Arithmetic _ \<Rightarrow> Some (serialize_arith e a s) | Class _ _ \<Rightarrow> None))"
| "serializer_operator e t (Struct vs) s =
     (if \<not> check_if_type_is_serializable t then None
      else (case visited t of None \<Rightarrow> None | Some ts \<Rightarrow> serializer_visit e ts vs s))"
| "serializer_visit e [] [] s = Some (Some s)"
| "serializer_visit e (t # ts) (v # vs) s =
     (case serializer_operator e t v s of
        None \<Rightarrow> None
      | Some None \<Rightarrow> Some None
      | Some (Some s') \<Rightarrow> serializer_visit e ts vs s')"
| "serializer_visit e _ _ s = None"

fun deserializer_operator :: "byte_order \<Rightarrow> cpp_type \<Rightarrow> obj \<Rightarrow> Deserializer \<Rightarrow> (obj \<times> Deserializer) ub compiled"
  and deserializer_visit :: "byte_order \<Rightarrow> cpp_type list \<Rightarrow> obj list \<Rightarrow> Deserializer \<Rightarrow> (obj list \<times> Deserializer) ub compiled" where
  "deserializer_operator e t (Arith a) s =
     (if \<not> check_if_type_is_serializable t then None
      else (case t of
          Arithmetic _ \<Rightarrow> Some (do { (a', s') \<leftarrow> deserialize_arith e a s; Some (Arith a', s') })
        | Class _ _ \<Rightarrow> None))"
| "deserializer_operator e t (Struct vs) s =
     (if \<not> check_if_type_is_serializable t then None
      else (case visited t of
          None \<Rightarrow> None
        | Some ts \<Rightarrow> map_option (\<lambda>r. do { (vs', s') \<leftarrow> r; Some (Struct vs', s') }) (deserializer_visit e ts vs s)))"
| "deserializer_visit e [] [] s = Some (Some ([], s))"
| "deserializer_visit e (t # ts) (v # vs) s =
     (case deserializer_operator e t v s of
        None \<Rightarrow> None
      | Some None \<Rightarrow> Some None
      | Some (Some (v', s')) \<Rightarrow>
          map_option (\<lambda>r. do { (vs', s'') \<leftarrow> r; Some (v' # vs', s'') }) (deserializer_visit e ts vs s'))"
| "deserializer_visit e _ _ s = None"

lemma serializer_operator_typed:
  "has_type v t \<Longrightarrow> serializer_operator e t v s = Some (serialize_value e v s)"
  "list_all2 has_type vs ts \<Longrightarrow> serializer_visit e ts vs s = Some (serialize_members e vs s)"
proof (induction e t v s and e ts vs s rule: serializer_operator_serializer_visit.induct)
  case (1 e t a s)
  then show ?case using has_type_compiles [OF 1] by (cases t) (auto simp: has_type_Class check_arith)
next
  case (2 e t vs s)
  then show ?case by (cases t) (auto simp: has_type_Class has_type_Arithmetic)
next
  case (4 e t ts v vs s)
  then show ?case by (cases "serialize_value e v s") simp_all
qed simp_all

lemma deserializer_operator_typed:
  "has_type v t \<Longrightarrow> deserializer_operator e t v s = Some (deserialize_value e v s)"
  "list_all2 has_type vs ts \<Longrightarrow> deserializer_visit e ts vs s = Some (deserialize_members e vs s)"
proof (induction e t v s and e ts vs s rule: deserializer_operator_deserializer_visit.induct)
  case (1 e t a s)
  then show ?case using has_type_compiles [OF 1] by (cases t) (auto simp: has_type_Class check_arith)
next
  case (2 e t vs s)
  then show ?case by (cases t) (auto simp: has_type_Class has_type_Arithmetic)
next
  case (4 e t ts v vs s)
  then show ?case by (cases "deserialize_value e v s") (auto split: prod.splits)
qed simp_all

section \<open>What is read from arbitrary bytes\<close>

text \<open>The members after reading: each takes its bytes from the front, or keeps its value when too few are left.\<close>

fun loaded :: "byte_order \<Rightarrow> arith list \<Rightarrow> byte list \<Rightarrow> arith list" where
  "loaded e [] bs = []"
| "loaded e (a # as) bs =
     (if size_of a \<le> length bs then load_arith e a (take (size_of a) bs) # loaded e as (drop (size_of a) bs)
      else a # loaded e as bs)"

definition taken :: "nat \<Rightarrow> arith list \<Rightarrow> nat" where
  "taken n as = sum_list (map size_of (accepted n as))"

lemma taken_simps [simp]:
  "taken n [] = 0"
  "taken n (a # as) = (if size_of a \<le> n then size_of a + taken (n - size_of a) as else taken n as)"
  by (simp_all add: taken_def)

lemma taken_append: "taken n (as @ bs) = taken n as + taken (n - taken n as) bs"
  by (induction as arbitrary: n) auto

lemma taken_le: "taken n as \<le> n \<and> taken n as \<le> sum_list (map size_of as)"
proof (induction as arbitrary: n)
  case (Cons a as)
  show ?case using Cons [of n] Cons [of "n - size_of a"] by auto
qed simp

lemma taken_all: "sum_list (map size_of as) \<le> n \<Longrightarrow> taken n as = sum_list (map size_of as)"
  by (induction as arbitrary: n) auto

lemma loaded_append: "loaded e (as @ bs) xs = loaded e as xs @ loaded e bs (drop (taken (length xs) as) xs)"
  by (induction as arbitrary: xs) (auto simp: add.commute)

lemma deserialize_arith_exact:
  assumes "buffer_inv (des_buffer s)"
  shows "\<exists>a' s'. deserialize_arith e a s = Some (a', s') \<and> buffer_inv (des_buffer s') \<and> same_arith a a'
    \<and> [a'] = loaded e [a] (contents (des_buffer s))
    \<and> contents (des_buffer s') = drop (taken (length (contents (des_buffer s))) [a]) (contents (des_buffer s))
    \<and> bytes_read s' = bytes_read s + taken (length (contents (des_buffer s))) [a]"
proof (cases "size_of a \<le> length (contents (des_buffer s))")
  case True
  have "fst (consume (size_of a) (des_buffer s))" using assms True by (simp add: fst_consume)
  then obtain b' where c: "consume (size_of a) (des_buffer s) = (True, b')"
    by (cases "consume (size_of a) (des_buffer s)") auto
  have "contents (des_buffer s) \<noteq> []" using True size_of_pos [of a] by (cases "contents (des_buffer s)") auto
  moreover have "same_arith a (load_arith e a bs)" for bs by (cases a) simp_all
  ultimately show ?thesis
    using assms True consume_inv [OF assms, of "size_of a"] consume_contents [OF assms, of "size_of a"] c
    by (simp add: deserialize_arith_def get_read_head_eq read_bytes_contents)
next
  case False
  then show ?thesis using assms by (simp add: deserialize_arith_short)
qed

lemma deserialize_exact:
  "buffer_inv (des_buffer s) \<Longrightarrow> \<exists>v' s'. deserialize_value e v s = Some (v', s') \<and> buffer_inv (des_buffer s')
     \<and> same_type v v' \<and> flat v' = loaded e (flat v) (contents (des_buffer s))
     \<and> contents (des_buffer s') = drop (taken (length (contents (des_buffer s))) (flat v)) (contents (des_buffer s))
     \<and> bytes_read s' = bytes_read s + taken (length (contents (des_buffer s))) (flat v)"
  "buffer_inv (des_buffer s) \<Longrightarrow> \<exists>vs' s'. deserialize_members e vs s = Some (vs', s') \<and> buffer_inv (des_buffer s')
     \<and> list_all2 same_type vs vs' \<and> concat (map flat vs') = loaded e (concat (map flat vs)) (contents (des_buffer s))
     \<and> contents (des_buffer s') = drop (taken (length (contents (des_buffer s))) (concat (map flat vs))) (contents (des_buffer s))
     \<and> bytes_read s' = bytes_read s + taken (length (contents (des_buffer s))) (concat (map flat vs))"
proof (induction e v s and e vs s rule: deserialize_value_deserialize_members.induct)
  case (1 e a s)
  from deserialize_arith_exact [OF 1, of e a] obtain a' s' where "deserialize_arith e a s = Some (a', s')"
    "buffer_inv (des_buffer s')" "same_arith a a'" "[a'] = loaded e [a] (contents (des_buffer s))"
    "contents (des_buffer s') = drop (taken (length (contents (des_buffer s))) [a]) (contents (des_buffer s))"
    "bytes_read s' = bytes_read s + taken (length (contents (des_buffer s))) [a]" by blast
  then show ?case by (simp del: loaded.simps taken_simps)
next
  case (2 e os s)
  then show ?case by fastforce
next
  case (3 e s)
  then show ?case by simp
next
  case (4 e v vs s)
  let ?c = "contents (des_buffer s)"
  from "4.IH"(1) [OF "4.prems"] obtain v' s1 where s1: "deserialize_value e v s = Some (v', s1)" "buffer_inv (des_buffer s1)"
    "same_type v v'" "flat v' = loaded e (flat v) ?c" "contents (des_buffer s1) = drop (taken (length ?c) (flat v)) ?c"
    "bytes_read s1 = bytes_read s + taken (length ?c) (flat v)" by blast
  from "4.IH"(2) [OF s1(1) refl s1(2)] s1 show ?case
    by (auto simp: taken_append loaded_append add.commute)
qed

section \<open>The demultiplexer on arbitrary bytes\<close>

lemma deserialize_type_exact:
  assumes "buffer_inv b"
  shows "\<exists>v b'. deserialize_type e i d sz r b =
      Some (sz = 0 \<or> unat sz = taken (length (contents b)) (flat d),
        if sz = 0 \<or> unat sz = taken (length (contents b)) (flat d) then (i, v) else r, b')
    \<and> buffer_inv b' \<and> contents b' = drop (taken (length (contents b)) (flat d)) (contents b)
    \<and> same_type d v \<and> flat v = loaded e (flat d) (contents b)"
proof -
  have "buffer_inv (des_buffer (Deserializer_new b))" using assms by (simp add: Deserializer_new_def)
  from deserialize_exact(1) [OF this, of e d] obtain v s where
    s: "deserialize_value e d (Deserializer_new b) = Some (v, s)" "buffer_inv (des_buffer s)" "same_type d v"
      "flat v = loaded e (flat d) (contents b)"
      "contents (des_buffer s) = drop (taken (length (contents b)) (flat d)) (contents b)"
    by (auto simp: Deserializer_new_def)
  have "taken (length (contents b)) (flat d) \<le> length (contents b)" using taken_le by blast
  with s assms show ?thesis by (auto simp: deserialize_type_def get_read_head_eq)
qed

lemma demux_header:
  assumes "buffer_inv b" and "contents b = h # s1 # s2 # rest" and "unat h < length types"
    and "unat s1 + 256 * unat s2 \<le> length rest"
  shows "\<exists>b1 sz. demux_deserialize e types b = deserialize_type e (unat h) (snd (types ! unat h)) sz (variant_default types) b1
    \<and> buffer_inv b1 \<and> contents b1 = rest \<and> unat sz = unat s1 + 256 * unat s2"
proof -
  let ?w = "of_nat (unat s1 + 256 * unat s2) :: u16"
  have "unat s1 + 256 * unat s2 < 65536" using unat_byte_less [of s1] unat_byte_less [of s2] by linarith
  then have w: "unat ?w = unat s1 + 256 * unat s2" by (rule unat_of_nat_u16)
  obtain b1 where b1: "read_header b = Some (Some (h, ?w), b1)" "buffer_inv b1" "contents b1 = rest"
    by (rule read_header_front [OF assms(1,2)])
  have "\<not> (?w > 0 \<and> (rest = [] \<or> length rest < unat ?w))"
    using w assms(4) by (auto simp: word_gt_0 simp flip: unat_eq_0)
  then have "demux_deserialize e types b = deserialize_by_index_impl e h ?w (variant_default types) 0 types b1"
    using assms(3) by (auto simp: demux_deserialize_def b1(1) get_read_head_eq [OF b1(2)] b1(3) split: if_splits)
  with by_index_hit [of h 0 "unat h" types] assms(3) b1 w show ?thesis by auto
qed

lemma demux_exact:
  assumes "buffer_inv b"
  shows "\<exists>ok r b'. demux_deserialize e types b = Some (ok, r, b') \<and> buffer_inv b' \<and> (ok \<or> r = variant_default types) \<and>
    (case contents b of
       h # s1 # s2 # rest \<Rightarrow>
         (let sz = unat s1 + 256 * unat s2; d = snd (types ! unat h); n = taken (length rest) (flat d)
          in if unat h \<ge> length types \<or> length rest < sz then \<not> ok \<and> contents b' = rest
             else (ok \<longleftrightarrow> sz = 0 \<or> sz = n) \<and> contents b' = drop n rest \<and>
               (if ok then fst r = unat h \<and> same_type d (snd r) \<and> flat (snd r) = loaded e (flat d) rest else True))
     | _ \<Rightarrow> \<not> ok \<and> b' = b)"
proof (cases "length (contents b) < header_size")
  case True
  then have "(case contents b of h # s1 # s2 # rest \<Rightarrow> P h s1 s2 rest | _ \<Rightarrow> Q) = Q" for P and Q :: bool
    by (auto simp: header_size_def split: list.split)
  with True assms show ?thesis
    by (intro exI [of _ False] exI [of _ "variant_default types"] exI [of _ b]) (simp add: demux_deserialize_def read_header_short)
next
  case False
  then obtain h s1 s2 rest where c: "contents b = h # s1 # s2 # rest"
    by (auto simp: header_size_def not_less numeral_3_eq_3 Suc_le_length_iff)
  show ?thesis
  proof (cases "unat h \<ge> length types \<or> length rest < unat s1 + 256 * unat s2")
    case True
    with demux_rejects [OF assms c True, of e] obtain b' where
      "demux_deserialize e types b = Some (False, variant_default types, b')" "buffer_inv b'" "contents b' = rest" by blast
    with True show ?thesis by (intro exI [of _ False] exI [of _ "variant_default types"] exI [of _ b']) (simp add: c)
  next
    case False
    then obtain b1 sz where b1: "demux_deserialize e types b =
        deserialize_type e (unat h) (snd (types ! unat h)) sz (variant_default types) b1"
      "buffer_inv b1" "contents b1 = rest" "unat sz = unat s1 + 256 * unat s2"
      using demux_header [OF assms c, of types e] by auto
    have zero: "sz = 0 \<longleftrightarrow> unat s1 + 256 * unat s2 = 0" using b1(4) by (simp flip: unat_eq_0)
    let ?d = "snd (types ! unat h)"
    let ?ok = "sz = 0 \<or> unat sz = taken (length rest) (flat ?d)"
    obtain v b' where v: "demux_deserialize e types b = Some (?ok, if ?ok then (unat h, v) else variant_default types, b')"
      "buffer_inv b'" "contents b' = drop (taken (length rest) (flat ?d)) rest" "same_type ?d v" "flat v = loaded e (flat ?d) rest"
      using deserialize_type_exact [OF b1(2), of e "unat h" ?d sz "variant_default types"] b1(1,3) by auto
    show ?thesis
      by (rule exI [of _ ?ok], rule exI [of _ "if ?ok then (unat h, v) else variant_default types"], rule exI [of _ b'])
        (use v False b1(4) zero in \<open>simp add: c Let_def\<close>)
  qed
qed

text \<open>
  Property C25. The result of \<open>DemultiplexingDeserializer::deserialize\<close> on arbitrary bytes, every branch. With fewer than
  three readable bytes nothing is consumed; an unregistered type index, or a size field larger than what is readable, is a
  failure that consumes the header only. Otherwise the object of the registered type is read member by member, each one
  from the front of everything readable, or left alone when too few bytes remain; the call succeeds exactly when the
  bytes consumed are the size field, or the size field is 0. A failure returns the value-initialised first type.
\<close>

theorem demux_result:
  assumes "buffer_inv b"
  shows "\<exists>ok r b'. demux_deserialize e types b = Some (ok, r, b') \<and> buffer_inv b' \<and> (ok \<or> r = variant_default types) \<and>
    (case contents b of
       h # s1 # s2 # rest \<Rightarrow>
         (let sz = unat s1 + 256 * unat s2; d = snd (types ! unat h); n = taken (length rest) (flat d)
          in if unat h \<ge> length types \<or> length rest < sz then \<not> ok \<and> contents b' = rest
             else (ok \<longleftrightarrow> sz = 0 \<or> sz = n) \<and> contents b' = drop n rest \<and>
               (if ok then fst r = unat h \<and> same_type d (snd r) \<and> flat (snd r) = loaded e (flat d) rest else True))
     | _ \<Rightarrow> \<not> ok \<and> b' = b)"
  by (rule demux_exact [OF assms])

section \<open>The multiplexer classes\<close>

text \<open>
  The static assertions of the two classes on their pack, and of \<open>serialize\<close> on its argument. (A pack
  that names a type twice satisfies the assertions; the demultiplexer's assignment to the variant is then
  ambiguous and does not compile. Such packs are only extra cases here.)
\<close>

definition mux_compiles :: "cpp_type list \<Rightarrow> bool" where
  "mux_compiles types \<longleftrightarrow> length types > 0 \<and> length types \<le> max_types \<and> (\<forall>t \<in> set types. operator_compiles t)"

definition mux_serialize_compiles :: "cpp_type list \<Rightarrow> cpp_type \<Rightarrow> bool" where
  "mux_serialize_compiles types t \<longleftrightarrow> mux_compiles types \<and> t \<in> set types"

text \<open>A pack of which every value-initialised object has its type.\<close>

definition typed_registry :: "cpp_type registry \<Rightarrow> bool" where
  "typed_registry types \<longleftrightarrow> mux_compiles (map fst types) \<and> (\<forall>(t, d) \<in> set types. has_type d t)"

lemma typed_registry_nth: "typed_registry types \<Longrightarrow> i < length types \<Longrightarrow> has_type (snd (types ! i)) (fst (types ! i))"
  by (auto simp: typed_registry_def split_def dest: nth_mem)

lemma typed_registry_default: "typed_registry types \<Longrightarrow> has_type (snd (hd types)) (fst (types ! 0))"
  using typed_registry_nth [of types 0] by (simp add: typed_registry_def mux_compiles_def hd_conv_nth)

text \<open>
  Property C15. Type safety of \<open>DemultiplexingDeserializer::deserialize\<close>: for a pack that the static assertions accept,
  whatever bytes the buffer holds, the call neither reads nor writes outside the buffer, and the variant it returns has an
  index of the pack and holds an object of the type at that index, with success or without. It consumes at most the
  header and the bytes of one object of a registered type, and with success the index is the one in the header.
\<close>

theorem demux_type_safe:
  assumes "typed_registry types" and "buffer_inv b"
  shows "\<exists>ok i v b' n. demux_deserialize e types b = Some (ok, (i, v), b') \<and> i < length types \<and> has_type v (fst (types ! i)) \<and>
    buffer_inv b' \<and> contents b' = drop n (contents b) \<and>
    (n = 0 \<or> (\<exists>t \<in> set (map fst types). n \<le> header_size + wire_size t)) \<and>
    (ok \<longrightarrow> 0 < length (contents b) \<and> i = unat (hd (contents b)))"
proof -
  have first: "0 < length types" "has_type (snd (hd types)) (fst (types ! 0))"
    using typed_registry_default [OF assms(1)] assms(1) by (simp_all add: typed_registry_def mux_compiles_def)
  obtain ok r b' where r: "demux_deserialize e types b = Some (ok, r, b')" "buffer_inv b'" "ok \<or> r = variant_default types"
    and c: "case contents b of
       h # s1 # s2 # rest \<Rightarrow>
         (let sz = unat s1 + 256 * unat s2; d = snd (types ! unat h); n = taken (length rest) (flat d)
          in if unat h \<ge> length types \<or> length rest < sz then \<not> ok \<and> contents b' = rest
             else (ok \<longleftrightarrow> sz = 0 \<or> sz = n) \<and> contents b' = drop n rest \<and>
               (if ok then fst r = unat h \<and> same_type d (snd r) \<and> flat (snd r) = loaded e (flat d) rest else True))
     | _ \<Rightarrow> \<not> ok \<and> b' = b"
    using demux_exact [OF assms(2), of e types] by blast
  have typed: "fst r < length types \<and> has_type (snd r) (fst (types ! fst r))" if "\<not> ok"
    using r(3) that first by (simp add: variant_default_def)
  consider "\<not> ok" "b' = b" | h s1 s2 rest where "contents b = h # s1 # s2 # rest" "\<not> ok" "contents b' = rest"
    | h s1 s2 rest where "contents b = h # s1 # s2 # rest" "unat h < length types"
        "contents b' = drop (taken (length rest) (flat (snd (types ! unat h)))) rest"
        "ok \<longrightarrow> fst r = unat h \<and> same_type (snd (types ! unat h)) (snd r)"
    using c by (simp add: Let_def split: list.splits if_splits)
  then obtain n where n: "contents b' = drop n (contents b)" "n = 0 \<or> (\<exists>t \<in> set (map fst types). n \<le> header_size + wire_size t)"
      "ok \<longrightarrow> 0 < length (contents b) \<and> fst r = unat (hd (contents b))"
    and r': "fst r < length types \<and> has_type (snd r) (fst (types ! fst r))"
  proof cases
    case 1
    with that [of 0] typed show thesis by simp
  next
    case (2 h s1 s2 rest)
    have "\<exists>t \<in> set (map fst types). 3 \<le> header_size + wire_size t"
      using first(1) by (cases types) (auto simp: header_size_def)
    with that [of 3] 2 typed show thesis by simp
  next
    case (3 h s1 s2 rest)
    let ?d = "snd (types ! unat h)" and ?t = "fst (types ! unat h)"
    have d: "has_type ?d ?t" by (rule typed_registry_nth [OF assms(1) 3(2)])
    have "taken (length rest) (flat ?d) \<le> wire_size ?t"
      using taken_le [of "length rest" "flat ?d"] wire_size_typed [OF d] by (simp add: obj_bytes_def length_arith_bytes)
    moreover have "?t \<in> set (map fst types)" using 3(2) by simp
    ultimately have "\<exists>t \<in> set (map fst types). 3 + taken (length rest) (flat ?d) \<le> header_size + wire_size t"
      by (intro bexI [of _ ?t]) (simp_all add: header_size_def)
    moreover have "fst r < length types \<and> has_type (snd r) (fst (types ! fst r))"
      using 3(2,4) typed same_type_typed [OF _ d] by (cases ok) simp_all
    moreover have "contents b' = drop (3 + taken (length rest) (flat ?d)) (contents b)"
      using 3(1,3) by (simp add: eval_nat_numeral)
    ultimately show thesis using that [of "3 + taken (length rest) (flat ?d)"] 3(1,4) by simp
  qed
  show ?thesis
    by (rule exI [of _ ok], rule exI [of _ "fst r"], rule exI [of _ "snd r"], rule exI [of _ b'], rule exI [of _ n])
      (use r(1,2) n r' in simp)
qed

text \<open>A pack of a record and an 8-bit number, and bytes that announce the record but stop short of it.\<close>

definition record_type :: cpp_type where
  "record_type = Class (Some [Arithmetic Bits16, Arithmetic Bits8]) None"

definition example_pack :: "cpp_type registry" where
  "example_pack = [(record_type, Struct [Arith (U16 0), Arith (U8 0)]), (Arithmetic Bits8, Arith (U8 0))]"

lemma example_pack_typed: "typed_registry example_pack"
proof -
  have "has_type (Struct [Arith (U16 0), Arith (U8 0)]) record_type" "has_type (Arith (U8 0)) (Arithmetic Bits8)"
    by (simp_all add: record_type_def has_type_Class visited_cases has_type_Arith)
  then show ?thesis
    by (auto simp: typed_registry_def mux_compiles_def example_pack_def max_types_def dest: has_type_compiles)
qed

theorem demux_type_safe_witness:
  "\<exists>ok i v b' n. demux_deserialize Big_endian example_pack (append_bytes [0, 3, 0, 7] (LinearBuffer_new 8)) = Some (ok, (i, v), b')
    \<and> has_type v (fst (example_pack ! i)) \<and> contents b' = drop n [0, 3, 0, 7]"
proof -
  have "buffer_inv (append_bytes [0, 3, 0, 7] (LinearBuffer_new 8))"
    "contents (append_bytes [0, 3, 0, 7] (LinearBuffer_new 8)) = [0, 3, 0, 7]"
    by (simp_all add: contents_append_new)
  with demux_type_safe [OF example_pack_typed, of "append_bytes [0, 3, 0, 7] (LinearBuffer_new 8)" Big_endian]
  show ?thesis by (simp only: ) blast
qed

theorem demux_result_witness:
  "\<exists>r b'. demux_deserialize Big_endian example_pack (append_bytes [1, 1, 0, 7, 9] (LinearBuffer_new 8)) = Some (True, r, b')
    \<and> fst r = 1 \<and> contents b' = [9]"
proof -
  let ?b = "append_bytes [1, 1, 0, 7, 9] (LinearBuffer_new 8)"
  have b: "buffer_inv ?b" "contents ?b = [1, 1, 0, 7, 9]" by (simp_all add: contents_append_new)
  have p: "snd (example_pack ! Suc 0) = Arith (U8 0)" "length example_pack = 2" by (simp_all add: example_pack_def)
  from demux_result [OF b(1), of Big_endian example_pack] obtain ok r b' where
    "demux_deserialize Big_endian example_pack ?b = Some (ok, r, b') \<and> ok \<and> fst r = 1 \<and> contents b' = [9]"
    by (simp add: b(2) p Let_def split: if_splits) (metis fst_conv)
  then show ?thesis by auto
qed

section \<open>Typed transport\<close>

text \<open>
  Property C26. \<open>archive & value\<close>. The expression compiles exactly for the serializable types: the arithmetic types
  except the floating point ones, and classes with a \<open>serialize\<close> function whose members are serializable in turn; of two
  such functions only the member function counts. Exactly these types have a value in the view of an archive. Every
  such value is written as the same number of bytes, and reading into any other value of the type gives
  it back, through the same dispatch, with both counters at that number.
\<close>

theorem archive_typed:
  assumes "buffer_inv b" and "wire_size t \<le> writable b"
  shows "(operator_compiles t \<longleftrightarrow> serializable t) \<and> (serializable t \<longleftrightarrow> (\<exists>v. has_type v t)) \<and>
    (has_type v t \<and> has_type d t \<longrightarrow>
      (\<exists>s s'. serializer_operator e t v (Serializer_new b) = Some (Some s) \<and> bytes_written s = wire_size t \<and>
        deserializer_operator e t d (Deserializer_new (snd (consume (length (contents b)) (ser_buffer s)))) = Some (Some (v, s')) \<and>
        bytes_read s' = wire_size t \<and> contents (des_buffer s') = []))"
proof (intro conjI impI)
  show compiles: "operator_compiles t \<longleftrightarrow> serializable t" using serializable_compiles compiles_serializable by blast
  show "serializable t \<longleftrightarrow> (\<exists>v. has_type v t)"
    using value_init_typed [of t] has_type_compiles [of _ t] compiles by blast
  assume "has_type v t \<and> has_type d t"
  then have v: "has_type v t" and d: "has_type d t" by simp_all
  obtain s where s: "serialize_value e v (Serializer_new b) = Some s" "appended (obj_bytes e v) b (ser_buffer s)"
    "bytes_written s = length (obj_bytes e v)"
    by (rule serialize_fits [of "Serializer_new b" e v])
      (use assms wire_size_typed [OF v] in \<open>auto simp: Serializer_new_def\<close>)
  let ?b = "snd (consume (length (contents b)) (ser_buffer s))"
  have "buffer_inv (ser_buffer s)" "contents (ser_buffer s) = contents b @ obj_bytes e v"
    using s(2) by (simp_all add: appended_def)
  then have "buffer_inv ?b" "contents ?b = obj_bytes e v @ []" by (simp_all add: consume_inv consume_contents)
  then obtain s' where "deserialize_value e d (Deserializer_new ?b) = Some (v, s')" "contents (des_buffer s') = []"
      "bytes_read s' = length (obj_bytes e v)"
    using deserialize_front(1) [of "Deserializer_new ?b" e v "[]" d] typed_same_type [OF d v]
    by (auto simp: Deserializer_new_def)
  with s show "\<exists>s s'. serializer_operator e t v (Serializer_new b) = Some (Some s) \<and> bytes_written s = wire_size t \<and>
      deserializer_operator e t d (Deserializer_new (snd (consume (length (contents b)) (ser_buffer s)))) = Some (Some (v, s')) \<and>
      bytes_read s' = wire_size t \<and> contents (des_buffer s') = []"
    by (auto simp: serializer_operator_typed(1) [OF v] deserializer_operator_typed(1) [OF d] wire_size_typed [OF v])
qed

text \<open>The record with a free function beside its member function; the free one would visit a \<open>float\<close>.\<close>

definition both_type :: cpp_type where
  "both_type = Class (Some [Arithmetic Bits16, Arithmetic Bits8]) (Some [Arithmetic Float])"

lemma example_both: "has_type (Struct [Arith (U16 x), Arith (U8 y)]) both_type" "wire_size both_type = 3"
proof -
  show typed: "has_type (Struct [Arith (U16 x), Arith (U8 y)]) both_type" for x y
    by (simp add: both_type_def has_type_Class visited_cases has_type_Arith)
  show "wire_size both_type = 3" using wire_size_typed [OF typed [of 0 0], of Big_endian] by (simp add: obj_bytes_def)
qed

theorem archive_typed_witness:
  "operator_compiles both_type \<and> serializable both_type \<and>
   (\<exists>s. serializer_operator Big_endian both_type (Struct [Arith (U16 258), Arith (U8 7)]) (Serializer_new (LinearBuffer_new 3)) =
    Some (Some s) \<and> bytes_written s = 3)"
proof -
  have "writable (LinearBuffer_new 3) = 3" by (simp add: writable_def get_write_head_def LinearBuffer_new_def)
  with archive_typed [of "LinearBuffer_new 3" both_type "Struct [Arith (U16 258), Arith (U8 7)]" "Struct [Arith (U16 0), Arith (U8 0)]" Big_endian]
  show ?thesis using example_both by (auto simp del: serializer_operator.simps deserializer_operator.simps operator_compiles_class)
qed

section \<open>A message without room\<close>

text \<open>
  A payload of which no member finds room is framed with the size 0, and the size 0 is not checked against the type: the
  reader takes the object from the bytes that follow, which belong to the next message, and reports success.
\<close>

lemma mux_no_room_for_payload:
  assumes "buffer_inv b" and "writable b = header_size"
  shows "\<exists>b'. mux_serialize e i v b = Some (True, b') \<and> contents b' = contents b @ [of_nat i, 0, 0]"
proof -
  have "accepted 0 as = []" for as by (induction as) (simp_all add: not_le)
  then have "payload e v b = []" using assms(2) by (simp add: payload_def)
  then show ?thesis
    using mux_serialize_sent [OF assms(1), of e v i] assms(2) by (auto simp: max_payload_size_def header_bytes_def appended_def)
qed

theorem demux_takes_next_message:
  assumes "typed_registry types" and "i < length types" and "has_type v (fst (types ! i))"
    and "buffer_inv b" and "writable b = header_size"
    and "buffer_inv b2" and "contents b2 = [of_nat i, 0, 0] @ obj_bytes e w @ rest" and "has_type w (fst (types ! i))"
  shows "(\<exists>b'. mux_serialize e i v b = Some (True, b') \<and> contents b' = contents b @ [of_nat i, 0, 0]) \<and>
    (\<exists>b'. demux_deserialize e types b2 = Some (True, (i, w), b') \<and> contents b' = rest)"
proof
  show "\<exists>b'. mux_serialize e i v b = Some (True, b') \<and> contents b' = contents b @ [of_nat i, 0, 0]"
    by (rule mux_no_room_for_payload [OF assms(4,5)])
  have "i < 256" using assms(1,2) by (simp add: typed_registry_def mux_compiles_def max_types_def)
  then have i: "unat (of_nat i :: byte) = i" by (simp add: unat_of_nat)
  obtain b1 sz where b1: "demux_deserialize e types b2 =
      deserialize_type e i (snd (types ! i)) sz (variant_default types) b1"
    "buffer_inv b1" "contents b1 = obj_bytes e w @ rest" "unat sz = 0"
    using demux_header [OF assms(6), of "of_nat i" 0 0 "obj_bytes e w @ rest" types e] assms(2,7) i by auto
  have "same_type (snd (types ! i)) w"
    by (rule typed_same_type [OF typed_registry_nth [OF assms(1,2)] assms(8)])
  with deserialize_front(1) [of "Deserializer_new b1" e w rest "snd (types ! i)"] b1
  show "\<exists>b'. demux_deserialize e types b2 = Some (True, (i, w), b') \<and> contents b' = rest"
    by (auto simp: deserialize_type_def Deserializer_new_def unat_eq_0)
qed

theorem demux_takes_next_message_witness:
  "\<exists>b'. demux_deserialize Big_endian example_pack (append_bytes [1, 0, 0, 0] (LinearBuffer_new 8)) = Some (True, (1, Arith (U8 0)), b')
    \<and> contents b' = []"
proof -
  have "writable (LinearBuffer_new 3) = header_size"
    by (simp add: writable_def get_write_head_def LinearBuffer_new_def header_size_def)
  moreover have "obj_bytes Big_endian (Arith (U8 0)) = [0]" by (simp add: obj_bytes_def object_rep_def ordered_def)
  moreover have "has_type (Arith (U8 0)) (fst (example_pack ! 1))" "1 < length example_pack"
    by (simp_all add: example_pack_def has_type_Arith)
  ultimately show ?thesis
    using demux_takes_next_message [OF example_pack_typed, of 1 "Arith (U8 0)" "LinearBuffer_new 3"
        "append_bytes [1, 0, 0, 0] (LinearBuffer_new 8)" Big_endian "Arith (U8 0)" "[]"]
    by (simp add: contents_append_new)
qed

end
