(* ===== verification/Flags.thy ===== *)
theory Flags
  imports Prelude
begin

unbundle bit_operations_syntax

text \<open>
  \<open>eestv/flags/flags.hpp\<close>: the class template \<open>Flags<FlagType>\<close>, a set of enumerators packed
  into one \<open>uint32_t\<close>. A flag is passed as the value of \<open>static_cast<uint32_t>(flag)\<close>; the
  locale \<open>flag_enum\<close> is the contract of the template parameter (distinct enumerators
  have distinct values below 32, so that the shift is defined), and every state enum of the
  network components interprets it.
\<close>

section \<open>Operations\<close>

type_synonym Flags = u32

definition flags_init :: Flags where
  "flags_init = 0"

definition set_flag :: "nat \<Rightarrow> Flags \<Rightarrow> Flags" where
  "set_flag flag flags = flags OR push_bit flag 1"

definition clear_flag :: "nat \<Rightarrow> Flags \<Rightarrow> Flags" where
  "clear_flag flag flags = flags AND NOT (push_bit flag 1)"

definition get_flag :: "nat \<Rightarrow> Flags \<Rightarrow> bool" where
  "get_flag flag flags \<longleftrightarrow> flags AND push_bit flag 1 \<noteq> 0"

definition clear_all :: "Flags \<Rightarrow> Flags" where
  "clear_all flags = 0"

definition get_raw :: "Flags \<Rightarrow> u32" where
  "get_raw flags = flags"

section \<open>Bits\<close>

lemma get_flag_bit: "get_flag n f \<longleftrightarrow> bit f n"
proof -
  have "bit (f AND push_bit n 1) k \<longleftrightarrow> k = n \<and> bit f n" for k
    by (auto simp: bit_simps dest: bit_imp_le_length)
  then show ?thesis
    unfolding get_flag_def by (metis bit_0_eq bot_apply bot_bool_def bit_eqI)
qed

lemma get_set_flag: "n < 32 \<Longrightarrow> get_flag m (set_flag n f) \<longleftrightarrow> m = n \<or> get_flag m f"
  by (auto simp: get_flag_bit set_flag_def bit_simps)

lemma get_clear_flag: "get_flag m (clear_flag n f) \<longleftrightarrow> m \<noteq> n \<and> get_flag m f"
  by (auto simp: get_flag_bit clear_flag_def bit_simps dest: bit_imp_le_length)

lemma get_flags_init [simp]: "\<not> get_flag m flags_init"
  by (simp add: get_flag_bit flags_init_def)

lemma get_clear_all [simp]: "\<not> get_flag m (clear_all f)"
  by (simp add: get_flag_bit clear_all_def)

lemma flags_eqI: "(\<And>n. n < 32 \<Longrightarrow> get_flag n f = get_flag n g) \<Longrightarrow> f = g"
  by (rule bit_word_eqI) (simp add: get_flag_bit)

section \<open>The contract of the template parameter\<close>

locale flag_enum =
  fixes index :: "'e \<Rightarrow> nat"
  assumes index_inj: "index a = index b \<Longrightarrow> a = b"
    and index_less: "index a < 32"
begin

lemma index_eq_iff: "index a = index b \<longleftrightarrow> a = b"
  using index_inj by blast

lemma get_set: "get_flag (index a) (set_flag (index b) f) \<longleftrightarrow> a = b \<or> get_flag (index a) f"
  by (simp add: get_set_flag index_less index_eq_iff)

lemma get_clear: "get_flag (index a) (clear_flag (index b) f) \<longleftrightarrow> a \<noteq> b \<and> get_flag (index a) f"
  by (simp add: get_clear_flag index_eq_iff)

lemma abs_set: "{e. get_flag (index e) (set_flag (index a) f)} = insert a {e. get_flag (index e) f}"
  by (auto simp: get_set)

lemma abs_clear: "{e. get_flag (index e) (clear_flag (index a) f)} = {e. get_flag (index e) f} - {a}"
  by (auto simp: get_clear)

lemmas flag_laws = get_set get_clear

end

text \<open>
  A flag word is a set of bit positions: after \<open>set_flag(n)\<close> exactly the old
  flags and \<open>n\<close> are set, after \<open>clear_flag(n)\<close> exactly the old flags but \<open>n\<close>, no other
  bit changes, and \<open>clear_flag\<close> undoes \<open>set_flag\<close> on a word that did not have the flag.
\<close>

theorem flags_are_a_set:
  assumes "n < 32"
  shows "{m. get_flag m (set_flag n f)} = insert n {m. get_flag m f}
    \<and> {m. get_flag m (clear_flag n f)} = {m. get_flag m f} - {n}
    \<and> {m. get_flag m (clear_all f)} = {}
    \<and> (\<not> get_flag n f \<longrightarrow> clear_flag n (set_flag n f) = f)"
proof -
  have "clear_flag n (set_flag n f) = f" if "\<not> get_flag n f"
    by (rule flags_eqI) (use that assms in \<open>auto simp: get_set_flag get_clear_flag\<close>)
  with assms show ?thesis by (auto simp: get_set_flag get_clear_flag)
qed

theorem flags_are_a_set_witness:
  "(31::nat) < 32 \<and> get_flag 31 (set_flag 31 5) \<and> get_flag 2 (set_flag 31 5)
    \<and> clear_flag 31 (set_flag 31 5) = 5"
proof -
  have "\<not> get_flag 31 5" by (simp add: get_flag_def)
  moreover have "get_flag 2 5" by (simp add: get_flag_def)
  ultimately show ?thesis
    using flags_are_a_set [of 31 5] by auto
qed

end
