(* ===== verification/Tcp_Connection.thy ===== *)
theory Tcp_Connection
  imports Flags Linear_Buffer Transitions
begin

text \<open>
  \<open>eestv/net/connection/tcp_connection.hpp\<close> and \<open>tcp_connection_states.hpp\<close>. Every member function
  that takes the lock is one function on the state, every lambda given to \<open>boost::asio\<close> a
  constructor of the handler type; the operating system and the \<open>io_context\<close> are the step
  relation.
\<close>

section \<open>State\<close>

datatype TcpConnectionState =
  TCS_start_sending | TCS_sending | TCS_start_receiving | TCS_receiving | TCS_closing | TCS_stop_signaled | TCS_lost

fun tcs :: "TcpConnectionState \<Rightarrow> nat" where
  "tcs TCS_start_sending = 0"
| "tcs TCS_sending = 1"
| "tcs TCS_start_receiving = 2"
| "tcs TCS_receiving = 3"
| "tcs TCS_closing = 4"
| "tcs TCS_stop_signaled = 5"
| "tcs TCS_lost = 6"

fun TcpConnectionState_to_string :: "TcpConnectionState \<Rightarrow> string" where
  "TcpConnectionState_to_string TCS_start_sending = ''start_sending''"
| "TcpConnectionState_to_string TCS_sending = ''sending''"
| "TcpConnectionState_to_string TCS_start_receiving = ''start_receiving''"
| "TcpConnectionState_to_string TCS_receiving = ''receiving''"
| "TcpConnectionState_to_string TCS_closing = ''closing''"
| "TcpConnectionState_to_string TCS_stop_signaled = ''stop_signaled''"
| "TcpConnectionState_to_string TCS_lost = ''lost''"

interpretation conn_flags: flag_enum tcs
proof
  show "tcs a = tcs b \<Longrightarrow> a = b" for a b by (cases a; cases b) simp_all
  show "tcs a < 32" for a by (cases a) simp_all
qed

declare tcs.simps [simp del]

text \<open>
  The handlers: the lambdas posted by \<open>async_stop\<close>, \<open>start_receiving\<close> and \<open>start_sending\<close>, the
  completions of \<open>async_read_some\<close> and \<open>async_write\<close> (error flag, bytes transferred), the lambda
  that calls the connection lost callback, and the one that owns the stopped callback.
\<close>

datatype conn_handler =
  H_cancel | H_receive | H_send | H_on_receive bool nat | H_on_send bool nat | H_lost | H_stopped nat

text \<open>
  \<open>reads\<close> and \<open>writes\<close> are the operations the operating system holds: a region of the receive
  buffer, and a region of the send buffer with the number of its bytes already sent. A callback
  given to \<open>async_stop\<close> is a number. The last four fields record what the outside has seen: the
  bytes on the wire, the bytes the user queued, whether a write has failed, and the callbacks
  that ran.
\<close>

record Conn =
  flags :: Flags
  receive_buffer :: LinearBuffer
  send_buffer :: LinearBuffer
  disconnected_callback :: "nat option"
  connection_lost_callback :: bool
  data_received_callback :: "(LinearBuffer \<Rightarrow> LinearBuffer) option"
  posted :: "conn_handler list"
  reads :: "(nat \<times> nat) list"
  writes :: "(nat \<times> nat \<times> nat) list"
  wire :: "byte list"
  queued :: "byte list"
  write_failed :: bool
  stopped_calls :: "nat list"
  lost_calls :: nat

abbreviation get :: "TcpConnectionState \<Rightarrow> Conn \<Rightarrow> bool" where
  "get f c \<equiv> get_flag (tcs f) (flags c)"

definition set_f :: "TcpConnectionState \<Rightarrow> Conn \<Rightarrow> Conn" where
  "set_f f c = c\<lparr>flags := set_flag (tcs f) (flags c)\<rparr>"

definition clear_f :: "TcpConnectionState \<Rightarrow> Conn \<Rightarrow> Conn" where
  "clear_f f c = c\<lparr>flags := clear_flag (tcs f) (flags c)\<rparr>"

definition post :: "conn_handler \<Rightarrow> Conn \<Rightarrow> Conn" where
  "post h c = c\<lparr>posted := posted c @ [h]\<rparr>"

definition TcpConnection_new ::
  "nat \<Rightarrow> nat \<Rightarrow> bool \<Rightarrow> (LinearBuffer \<Rightarrow> LinearBuffer) option \<Rightarrow> Conn" where
  "TcpConnection_new receive_size send_size lost_cb data_cb =
     \<lparr>flags = flags_init, receive_buffer = LinearBuffer_new receive_size,
      send_buffer = LinearBuffer_new send_size, disconnected_callback = None,
      connection_lost_callback = lost_cb, data_received_callback = data_cb,
      posted = [], reads = [], writes = [], wire = [], queued = [], write_failed = False,
      stopped_calls = [], lost_calls = 0\<rparr>"

section \<open>Member functions\<close>

definition set_connection_lost_callback :: "bool \<Rightarrow> Conn \<Rightarrow> Conn" where
  "set_connection_lost_callback callback c = c\<lparr>connection_lost_callback := callback\<rparr>"

definition set_data_received_callback :: "(LinearBuffer \<Rightarrow> LinearBuffer) option \<Rightarrow> Conn \<Rightarrow> Conn" where
  "set_data_received_callback callback c = c\<lparr>data_received_callback := callback\<rparr>"

lemmas setter_defs = set_connection_lost_callback_def set_data_received_callback_def

definition call_queue_send_function :: "(LinearBuffer \<Rightarrow> LinearBuffer) \<Rightarrow> Conn \<Rightarrow> Conn" where
  "call_queue_send_function callback c = c\<lparr>send_buffer := callback (send_buffer c)\<rparr>"

definition resolve_on_stopped :: "Conn \<Rightarrow> Conn" where
  "resolve_on_stopped c =
     (if \<not> (get TCS_closing c \<or> get TCS_start_sending c \<or> get TCS_sending c \<or> get TCS_start_receiving c
          \<or> get TCS_receiving c)
      then
        (case disconnected_callback c of
           None \<Rightarrow> c
         | Some k \<Rightarrow> post (H_stopped k) (c\<lparr>disconnected_callback := None\<rparr>))
      else c)"

definition async_stop :: "nat \<Rightarrow> Conn \<Rightarrow> bool \<times> Conn" where
  "async_stop on_disconnected c =
     (if \<not> get TCS_stop_signaled c
      then (True, post H_cancel
        ((set_f TCS_closing (set_f TCS_stop_signaled c))\<lparr>disconnected_callback := Some on_disconnected\<rparr>))
      else (False, c))"

text \<open>\<open>stop\<close>, and so the destructor: the result says whether the caller waits for the callback.\<close>

definition connection_stop :: "bool \<Rightarrow> nat \<Rightarrow> Conn \<Rightarrow> bool \<times> Conn" where
  "connection_stop is_on_io_thread stopped c =
     (if is_on_io_thread then (False, c) else async_stop stopped c)"

text \<open>\<open>_socket.cancel\<close>: every operation the system holds completes with \<open>operation_aborted\<close>.\<close>

definition socket_cancel :: "Conn \<Rightarrow> Conn" where
  "socket_cancel c = c\<lparr>posted := posted c @ map (\<lambda>_. H_on_receive True 0) (reads c)
      @ map (\<lambda>(p, n, sent). H_on_send True sent) (writes c), reads := [], writes := []\<rparr>"

definition cancel_async_operations :: "Conn \<Rightarrow> Conn" where
  "cancel_async_operations c = resolve_on_stopped (clear_f TCS_closing (socket_cancel c))"

definition start_receiving :: "Conn \<Rightarrow> Conn" where
  "start_receiving c =
     (if \<not> (get TCS_start_receiving c \<or> get TCS_receiving c \<or> get TCS_stop_signaled c)
      then post H_receive (set_f TCS_start_receiving c) else c)"

definition async_receive :: "Conn \<Rightarrow> Conn" where
  "async_receive c =
     (let c = clear_f TCS_start_receiving c
      in if \<not> get TCS_stop_signaled c
         then
           (case get_write_head (receive_buffer c) of
              (writable_size, write_head) \<Rightarrow>
                if write_head = None \<or> writable_size = 0 then c
                else c\<lparr>reads := reads c @ [(the write_head, writable_size)]\<rparr>)
         else resolve_on_stopped c)"

definition on_receive :: "bool \<Rightarrow> nat \<Rightarrow> Conn \<Rightarrow> Conn" where
  "on_receive error_code bytes_transferred c =
     (if error_code
      then
        (let c = clear_f TCS_receiving c;
             c = (if get TCS_stop_signaled c then resolve_on_stopped c else c)
         in if connection_lost_callback c then post H_lost c else c)
      else
        (let c = c\<lparr>receive_buffer := snd (commit bytes_transferred (receive_buffer c))\<rparr>;
             c = (case data_received_callback c of
                    None \<Rightarrow> c
                  | Some f \<Rightarrow> c\<lparr>receive_buffer := f (receive_buffer c)\<rparr>)
         in async_receive c))"

definition start_sending :: "Conn \<Rightarrow> Conn" where
  "start_sending c =
     (if \<not> (get TCS_start_sending c \<or> get TCS_sending c \<or> get TCS_stop_signaled c)
      then post H_send (set_f TCS_start_sending c) else c)"

definition async_send :: "Conn \<Rightarrow> Conn" where
  "async_send c =
     (case get_read_head (send_buffer c) of
        (bytes_to_send, send_ptr) \<Rightarrow>
          if bytes_to_send = 0 \<or> send_ptr = None then clear_f TCS_sending c
          else c\<lparr>writes := writes c @ [(the send_ptr, bytes_to_send, 0)]\<rparr>)"

definition send_posted :: "Conn \<Rightarrow> Conn" where
  "send_posted c =
     (let c = clear_f TCS_start_sending c
      in if \<not> get TCS_stop_signaled c then async_send (set_f TCS_sending c) else resolve_on_stopped c)"

definition on_send :: "bool \<Rightarrow> nat \<Rightarrow> Conn \<Rightarrow> Conn" where
  "on_send error_code bytes_transferred c =
     (if error_code
      then
        (let c = clear_f TCS_sending c;
             c = (if get TCS_stop_signaled c then resolve_on_stopped c else c)
         in if connection_lost_callback c then post H_lost c else c)
      else
        (let c = async_send (c\<lparr>send_buffer := snd (consume bytes_transferred (send_buffer c))\<rparr>)
         in if \<not> get TCS_sending c \<and> get TCS_stop_signaled c then resolve_on_stopped c else c))"

fun run_handler :: "conn_handler \<Rightarrow> Conn \<Rightarrow> Conn" where
  "run_handler H_cancel c = cancel_async_operations c"
| "run_handler H_receive c = async_receive c"
| "run_handler H_send c = send_posted c"
| "run_handler (H_on_receive e n) c = on_receive e n c"
| "run_handler (H_on_send e n) c = on_send e n c"
| "run_handler H_lost c = c\<lparr>lost_calls := lost_calls c + 1\<rparr>"
| "run_handler (H_stopped k) c = c\<lparr>stopped_calls := stopped_calls c @ [k]\<rparr>"

section \<open>Steps\<close>

text \<open>A data callback may consume from the receive buffer but keeps it a buffer of the same size.\<close>

definition keeps_buffer :: "(LinearBuffer \<Rightarrow> LinearBuffer) option \<Rightarrow> bool" where
  "keeps_buffer cb \<longleftrightarrow> (\<forall>f b. cb = Some f \<and> buffer_inv b \<longrightarrow> buffer_inv (f b) \<and> capacity (f b) = capacity b)"

text \<open>
  One call of the user, one action of the operating system, or one handler run by a thread of
  the \<open>io_context\<close> (any of the queued ones: several threads may run it). The user queues bytes
  only through the write head, as \<open>call_queue_send_function\<close> intends.
\<close>

inductive conn_step :: "Conn \<Rightarrow> Conn \<Rightarrow> bool" where
  queue: "length bs \<le> writable (send_buffer c) \<Longrightarrow>
    conn_step c ((call_queue_send_function (append_bytes bs) c)\<lparr>queued := queued c @ bs\<rparr>)"
| send: "conn_step c (start_sending c)"
| receive: "conn_step c (start_receiving c)"
| stop: "conn_step c (snd (async_stop k c))"
| blocking_stop: "conn_step c (snd (connection_stop is_on_io_thread k c))"
| lost_callback: "conn_step c (set_connection_lost_callback True c)"
| data_callback: "keeps_buffer d \<Longrightarrow> conn_step c (set_data_received_callback d c)"
| handler: "posted c = hs @ h # hs' \<Longrightarrow> conn_step c (run_handler h (c\<lparr>posted := hs @ hs'\<rparr>))"
| read_done: "reads c = rs @ (p, n) # rs' \<Longrightarrow> 0 < length bs \<Longrightarrow> length bs \<le> n \<Longrightarrow>
    write_bytes p bs (receive_buffer c) = Some b \<Longrightarrow>
    conn_step c (post (H_on_receive False (length bs)) (c\<lparr>receive_buffer := b, reads := rs @ rs'\<rparr>))"
| read_failed: "reads c = rs @ (p, n) # rs' \<Longrightarrow> conn_step c (post (H_on_receive True 0) (c\<lparr>reads := rs @ rs'\<rparr>))"
| write_some: "writes c = ws @ (p, n, sent) # ws' \<Longrightarrow> 0 < m \<Longrightarrow> sent + m < n \<Longrightarrow>
    read_bytes (p + sent) m (send_buffer c) = Some bs \<Longrightarrow>
    conn_step c (c\<lparr>wire := wire c @ bs, writes := ws @ (p, n, sent + m) # ws'\<rparr>)"
| write_done: "writes c = ws @ (p, n, sent) # ws' \<Longrightarrow> read_bytes (p + sent) (n - sent) (send_buffer c) = Some bs \<Longrightarrow>
    conn_step c (post (H_on_send False n) (c\<lparr>wire := wire c @ bs, writes := ws @ ws'\<rparr>))"
| write_error: "writes c = ws @ (p, n, sent) # ws' \<Longrightarrow>
    conn_step c (post (H_on_send True sent) (c\<lparr>writes := ws @ ws', write_failed := True\<rparr>))"

definition conn_init :: "Conn \<Rightarrow> bool" where
  "conn_init c \<longleftrightarrow> (\<exists>r s l d. keeps_buffer d \<and> c = TcpConnection_new r s l d)"

section \<open>Flags of an updated connection\<close>

lemma get_simps [simp]:
  "get_flag (tcs f) (flags (set_f g c)) \<longleftrightarrow> f = g \<or> get f c"
  "get_flag (tcs f) (flags (clear_f g c)) \<longleftrightarrow> f \<noteq> g \<and> get f c"
  "flags (post h c) = flags c"
  by (simp_all add: set_f_def clear_f_def post_def conn_flags.flag_laws)

lemma set_f_frame [simp]:
  "receive_buffer (set_f f c) = receive_buffer c" "send_buffer (set_f f c) = send_buffer c"
  "disconnected_callback (set_f f c) = disconnected_callback c"
  "connection_lost_callback (set_f f c) = connection_lost_callback c"
  "data_received_callback (set_f f c) = data_received_callback c"
  "posted (set_f f c) = posted c" "reads (set_f f c) = reads c" "writes (set_f f c) = writes c"
  "wire (set_f f c) = wire c" "queued (set_f f c) = queued c" "write_failed (set_f f c) = write_failed c"
  "stopped_calls (set_f f c) = stopped_calls c"
  by (simp_all add: set_f_def)

lemma clear_f_frame [simp]:
  "receive_buffer (clear_f f c) = receive_buffer c" "send_buffer (clear_f f c) = send_buffer c"
  "disconnected_callback (clear_f f c) = disconnected_callback c"
  "connection_lost_callback (clear_f f c) = connection_lost_callback c"
  "data_received_callback (clear_f f c) = data_received_callback c"
  "posted (clear_f f c) = posted c" "reads (clear_f f c) = reads c" "writes (clear_f f c) = writes c"
  "wire (clear_f f c) = wire c" "queued (clear_f f c) = queued c" "write_failed (clear_f f c) = write_failed c"
  "stopped_calls (clear_f f c) = stopped_calls c"
  by (simp_all add: clear_f_def)

lemma post_frame [simp]:
  "receive_buffer (post h c) = receive_buffer c" "send_buffer (post h c) = send_buffer c"
  "disconnected_callback (post h c) = disconnected_callback c"
  "connection_lost_callback (post h c) = connection_lost_callback c"
  "data_received_callback (post h c) = data_received_callback c"
  "posted (post h c) = posted c @ [h]" "reads (post h c) = reads c" "writes (post h c) = writes c"
  "wire (post h c) = wire c" "queued (post h c) = queued c" "write_failed (post h c) = write_failed c"
  "stopped_calls (post h c) = stopped_calls c"
  by (simp_all add: post_def)

section \<open>The flags and the callback\<close>

fun is_on_send :: "conn_handler \<Rightarrow> bool" where
  "is_on_send (H_on_send _ _) \<longleftrightarrow> True"
| "is_on_send _ \<longleftrightarrow> False"

fun is_stopped :: "conn_handler \<Rightarrow> bool" where
  "is_stopped (H_stopped _) \<longleftrightarrow> True"
| "is_stopped _ \<longleftrightarrow> False"

text \<open>The number of send operations and of their completions that wait to be handled.\<close>

definition sends :: "Conn \<Rightarrow> nat" where
  "sends c = length (writes c) + jobs is_on_send (posted c)"

definition owed :: "Conn \<Rightarrow> nat" where
  "owed c = (if disconnected_callback c = None then 0 else 1)"

definition busy :: "Conn \<Rightarrow> bool" where
  "busy c \<longleftrightarrow> get TCS_closing c \<or> get TCS_start_sending c \<or> get TCS_sending c \<or> get TCS_start_receiving c"

text \<open>Each flag counts the work it stands for, and the callback is owed exactly while the
  component is busy.\<close>

definition flags_inv :: "Conn \<Rightarrow> bool" where
  "flags_inv c \<longleftrightarrow>
     jobs (\<lambda>h. h = H_cancel) (posted c) = of_bool (get TCS_closing c) \<and>
     jobs (\<lambda>h. h = H_send) (posted c) = of_bool (get TCS_start_sending c) \<and>
     (get TCS_start_receiving c \<longrightarrow> 1 \<le> jobs (\<lambda>h. h = H_receive) (posted c)) \<and>
     sends c = of_bool (get TCS_sending c) \<and>
     \<not> (get TCS_start_sending c \<and> get TCS_sending c) \<and>
     \<not> get TCS_receiving c \<and>
     (get TCS_closing c \<longrightarrow> get TCS_stop_signaled c) \<and>
     owed c + jobs is_stopped (posted c) + length (stopped_calls c) = of_bool (get TCS_stop_signaled c) \<and>
     (owed c = of_bool (get TCS_stop_signaled c \<and> busy c))"

lemmas conn_defs = flags_inv_def sends_def owed_def busy_def

lemma resolve_eq:
  assumes "\<not> get TCS_receiving c"
  shows "resolve_on_stopped c =
    (if busy c then c
     else case disconnected_callback c of None \<Rightarrow> c | Some k \<Rightarrow> post (H_stopped k) (c\<lparr>disconnected_callback := None\<rparr>))"
  using assms by (simp add: resolve_on_stopped_def busy_def)

text \<open>Resolving restores the last clause when everything else holds.\<close>

definition flags_but_owed :: "Conn \<Rightarrow> bool" where
  "flags_but_owed c \<longleftrightarrow>
     jobs (\<lambda>h. h = H_cancel) (posted c) = of_bool (get TCS_closing c) \<and>
     jobs (\<lambda>h. h = H_send) (posted c) = of_bool (get TCS_start_sending c) \<and>
     (get TCS_start_receiving c \<longrightarrow> 1 \<le> jobs (\<lambda>h. h = H_receive) (posted c)) \<and>
     sends c = of_bool (get TCS_sending c) \<and>
     \<not> (get TCS_start_sending c \<and> get TCS_sending c) \<and>
     \<not> get TCS_receiving c \<and>
     (get TCS_closing c \<longrightarrow> get TCS_stop_signaled c) \<and>
     owed c + jobs is_stopped (posted c) + length (stopped_calls c) = of_bool (get TCS_stop_signaled c) \<and>
     (busy c \<and> get TCS_stop_signaled c \<longrightarrow> owed c = 1)"

lemma flags_inv_resolve:
  assumes "flags_but_owed c"
  shows "flags_inv (resolve_on_stopped c)"
  using assms
  by (cases "get TCS_stop_signaled c")
    (auto simp: resolve_eq flags_but_owed_def conn_defs split: option.splits if_splits)

lemma flags_inv_frame [simp]:
  "flags_inv (c\<lparr>reads := r\<rparr>) = flags_inv c" "flags_inv (c\<lparr>receive_buffer := b\<rparr>) = flags_inv c"
  "flags_inv (c\<lparr>send_buffer := b\<rparr>) = flags_inv c" "flags_inv (c\<lparr>wire := w\<rparr>) = flags_inv c"
  "flags_inv (c\<lparr>queued := w\<rparr>) = flags_inv c" "flags_inv (c\<lparr>lost_calls := n\<rparr>) = flags_inv c"
  by (simp_all add: conn_defs)

lemma flags_inv_but: "flags_inv c \<Longrightarrow> flags_but_owed c"
  by (auto simp: flags_inv_def flags_but_owed_def)

lemma async_send_cases:
  obtains "writes (async_send c) = writes c" "posted (async_send c) = posted c" "flags (async_send c) = clear_flag (tcs TCS_sending) (flags c)"
    "disconnected_callback (async_send c) = disconnected_callback c" "stopped_calls (async_send c) = stopped_calls c"
    | w where "writes (async_send c) = writes c @ [w]" "posted (async_send c) = posted c" "flags (async_send c) = flags c"
    "disconnected_callback (async_send c) = disconnected_callback c" "stopped_calls (async_send c) = stopped_calls c"
  by (cases "get_read_head (send_buffer c)"; cases "fst (get_read_head (send_buffer c)) = 0 \<or> snd (get_read_head (send_buffer c)) = None")
    (auto simp: async_send_def clear_f_def)

lemma queue_flags: "flags_inv (call_queue_send_function f c\<lparr>queued := q\<rparr>) = flags_inv c"
  by (simp add: conn_defs call_queue_send_function_def)

lemma start_sending_flags: "flags_inv c \<Longrightarrow> flags_inv (start_sending c)"
  by (auto simp: start_sending_def conn_defs)

lemma start_receiving_flags: "flags_inv c \<Longrightarrow> flags_inv (start_receiving c)"
  by (auto simp: start_receiving_def conn_defs)

lemma async_stop_flags: "flags_inv c \<Longrightarrow> flags_inv (snd (async_stop k c))"
  by (cases "get TCS_stop_signaled c") (simp_all add: async_stop_def conn_defs)

lemma cancel_flags:
  assumes "flags_inv c" and "posted c = hs @ H_cancel # hs'"
  shows "flags_inv (cancel_async_operations (c\<lparr>posted := hs @ hs'\<rparr>))"
  unfolding cancel_async_operations_def
proof (rule flags_inv_resolve)
  have "jobs is_on_send (map (\<lambda>(p, n, sent). H_on_send True sent) ws) = length ws"
    "jobs (\<lambda>h. h = H_cancel) (map (\<lambda>(p, n, sent). H_on_send True sent) ws) = 0"
    "jobs (\<lambda>h. h = H_send) (map (\<lambda>(p, n, sent). H_on_send True sent) ws) = 0"
    "jobs (\<lambda>h. h = H_receive) (map (\<lambda>(p, n, sent). H_on_send True sent) ws) = 0"
    "jobs is_stopped (map (\<lambda>(p, n, sent). H_on_send True sent) ws) = 0" for ws :: "(nat \<times> nat \<times> nat) list"
    by (induction ws) auto
  with assms show "flags_but_owed (clear_f TCS_closing (socket_cancel (c\<lparr>posted := hs @ hs'\<rparr>)))"
    by (auto simp: flags_but_owed_def conn_defs socket_cancel_def)
qed

lemma async_receive_flags:
  assumes "flags_but_owed (clear_f TCS_start_receiving c)"
    and "\<not> get TCS_stop_signaled c \<Longrightarrow> flags_inv (clear_f TCS_start_receiving c)"
  shows "flags_inv (async_receive c)"
  using assms flags_inv_resolve [OF assms(1)]
  by (simp add: async_receive_def Let_def split: prod.split)

lemma drop_handler:
  assumes "flags_inv c" and "posted c = hs @ h # hs'" and "h = H_receive \<or> (\<exists>e n. h = H_on_receive e n) \<or> h = H_lost"
  shows "flags_but_owed (clear_f TCS_start_receiving (c\<lparr>posted := hs @ hs'\<rparr>))"
    and "\<not> get TCS_stop_signaled c \<Longrightarrow> flags_inv (clear_f TCS_start_receiving (c\<lparr>posted := hs @ hs'\<rparr>))"
  using assms(3) assms(1,2) unfolding flags_but_owed_def conn_defs
  by (elim disjE exE conjE; simp; fail)+

lemma flags_but_frame [simp]:
  "flags_but_owed (c\<lparr>reads := r\<rparr>) = flags_but_owed c" "flags_but_owed (c\<lparr>receive_buffer := b\<rparr>) = flags_but_owed c"
  "flags_but_owed (c\<lparr>send_buffer := b\<rparr>) = flags_but_owed c"
  by (simp_all add: flags_but_owed_def sends_def owed_def busy_def)

lemma post_flags [simp]:
  "flags_inv (post (H_on_receive e n) c) = flags_inv c" "flags_inv (post H_lost c) = flags_inv c"
  by (simp_all add: conn_defs)

lemma drop_handler_inv:
  assumes "flags_inv c" and "posted c = hs @ h # hs'" and "h = H_lost \<or> (\<exists>e n. h = H_on_receive e n)"
  shows "flags_inv (c\<lparr>posted := hs @ hs'\<rparr>)"
  using assms(3) assms(1,2) unfolding conn_defs by (elim disjE exE conjE) simp_all

lemma clear_receiving_flags: "flags_inv c \<Longrightarrow> flags_inv (clear_f TCS_receiving c)"
  by (simp add: conn_defs)

lemma on_receive_flags:
  assumes "flags_inv c" and "posted c = hs @ H_on_receive e n # hs'"
  shows "flags_inv (on_receive e n (c\<lparr>posted := hs @ hs'\<rparr>))"
proof (cases e)
  case True
  have "flags_inv (clear_f TCS_receiving (c\<lparr>posted := hs @ hs'\<rparr>))"
    using drop_handler_inv [OF assms] clear_receiving_flags by blast
  with True show ?thesis by (simp add: on_receive_def Let_def flags_inv_resolve flags_inv_but)
next
  case False
  note drop = drop_handler [OF assms]
  have clear: "clear_f f (c\<lparr>posted := p, receive_buffer := b\<rparr>) = (clear_f f (c\<lparr>posted := p\<rparr>))\<lparr>receive_buffer := b\<rparr>" for f p b
    by (simp add: clear_f_def)
  have "flags_inv (async_receive (c\<lparr>posted := hs @ hs', receive_buffer := b\<rparr>))" for b
    by (rule async_receive_flags) (use drop in \<open>simp_all add: clear\<close>)
  with False show ?thesis by (simp add: on_receive_def Let_def split: option.split)
qed

lemma H_receive_flags:
  assumes "flags_inv c" and "posted c = hs @ H_receive # hs'"
  shows "flags_inv (async_receive (c\<lparr>posted := hs @ hs'\<rparr>))"
  by (rule async_receive_flags) (use drop_handler [OF assms] in simp_all)

lemma H_stopped_flags:
  assumes "flags_inv c" and "posted c = hs @ H_stopped k # hs'"
  shows "flags_inv (c\<lparr>posted := hs @ hs', stopped_calls := stopped_calls c @ [k]\<rparr>)"
  using assms by (simp add: conn_defs)

lemma owed_frame [simp]:
  "owed (set_f f c) = owed c" "owed (clear_f f c) = owed c" "owed (post h c) = owed c"
  "owed (c\<lparr>posted := q\<rparr>) = owed c" "owed (c\<lparr>send_buffer := b\<rparr>) = owed c" "owed (c\<lparr>writes := w\<rparr>) = owed c"
  by (simp_all add: owed_def)

lemma owed_async_send [simp]: "owed (async_send c) = owed c"
  by (cases rule: async_send_cases [of c]) (simp_all add: owed_def)

text \<open>What a queued send handler says about the flags.\<close>

lemma H_send_queued:
  assumes "flags_inv c" and "posted c = hs @ H_send # hs'"
  shows "get TCS_start_sending c \<and> \<not> get TCS_sending c \<and> owed c = of_bool (get TCS_stop_signaled c)"
  using assms by (cases "get TCS_start_sending c") (simp_all add: flags_inv_def busy_def)

lemma H_on_send_queued:
  assumes "flags_inv c" and "posted c = hs @ H_on_send e n # hs'"
  shows "get TCS_sending c \<and> \<not> get TCS_start_sending c \<and> owed c = of_bool (get TCS_stop_signaled c)"
  using assms by (cases "get TCS_sending c") (simp_all add: flags_inv_def busy_def sends_def)

lemma send_posted_flags:
  assumes "flags_inv c" and "posted c = hs @ H_send # hs'"
  shows "flags_inv (send_posted (c\<lparr>posted := hs @ hs'\<rparr>))"
proof (cases "get TCS_stop_signaled c")
  case True
  from assms True H_send_queued [OF assms] have "flags_but_owed (clear_f TCS_start_sending (c\<lparr>posted := hs @ hs'\<rparr>))"
    by (simp add: flags_inv_def flags_but_owed_def sends_def busy_def)
  with True show ?thesis by (simp add: send_posted_def flags_inv_resolve)
next
  case False
  let ?d = "set_f TCS_sending (clear_f TCS_start_sending (c\<lparr>posted := hs @ hs'\<rparr>))"
  from assms False H_send_queued [OF assms] have "flags_inv (async_send ?d)"
    by (cases rule: async_send_cases [of ?d])
      (simp_all add: flags_inv_def sends_def busy_def conn_flags.flag_laws)
  with False show ?thesis by (simp add: send_posted_def)
qed

lemma on_send_failed_flags:
  assumes "flags_inv c" and "posted c = hs @ H_on_send e n # hs'"
  shows "flags_but_owed (clear_f TCS_sending (c\<lparr>posted := hs @ hs'\<rparr>))"
    and "\<not> get TCS_stop_signaled c \<Longrightarrow> flags_inv (clear_f TCS_sending (c\<lparr>posted := hs @ hs'\<rparr>))"
proof -
  show "flags_but_owed (clear_f TCS_sending (c\<lparr>posted := hs @ hs'\<rparr>))"
    using assms H_on_send_queued [OF assms] by (simp add: flags_inv_def flags_but_owed_def sends_def busy_def)
  show "flags_inv (clear_f TCS_sending (c\<lparr>posted := hs @ hs'\<rparr>))" if "\<not> get TCS_stop_signaled c"
    using assms H_on_send_queued [OF assms] that by (simp add: flags_inv_def sends_def busy_def)
qed

lemma on_send_done_flags:
  assumes "flags_inv c" and "posted c = hs @ H_on_send e n # hs'"
    and "d = async_send (c\<lparr>posted := hs @ hs', send_buffer := b\<rparr>)"
  shows "flags_but_owed d" and "get TCS_sending d \<or> \<not> get TCS_stop_signaled d \<Longrightarrow> flags_inv d"
  using assms H_on_send_queued [OF assms(1,2)]
  by (cases rule: async_send_cases [of "c\<lparr>posted := hs @ hs', send_buffer := b\<rparr>"];
      simp add: flags_inv_def flags_but_owed_def sends_def busy_def conn_flags.flag_laws; fail)+

lemma on_send_flags:
  assumes "flags_inv c" and "posted c = hs @ H_on_send e n # hs'"
  shows "flags_inv (on_send e n (c\<lparr>posted := hs @ hs'\<rparr>))"
proof (cases e)
  case True
  with on_send_failed_flags [OF assms] show ?thesis by (simp add: on_send_def Let_def flags_inv_resolve)
next
  case False
  with on_send_done_flags [OF assms refl, of "snd (consume n (send_buffer c))"]
  show ?thesis by (auto simp: on_send_def Let_def flags_inv_resolve)
qed

lemma conn_step_flags:
  assumes "conn_step c c'" and "flags_inv c"
  shows "flags_inv c'"
  using assms(1)
proof cases
  case (handler hs h hs')
  with assms(2) show ?thesis
    by (cases h) (simp_all add: cancel_flags H_receive_flags send_posted_flags on_receive_flags on_send_flags
        H_stopped_flags drop_handler_inv)
next
  case (write_some ws p n sent ws' m bs)
  with assms(2) show ?thesis by (simp add: conn_defs)
next
  case (write_done ws p n sent ws' bs)
  with assms(2) show ?thesis by (simp add: conn_defs)
next
  case (write_error ws p n sent ws')
  with assms(2) show ?thesis by (simp add: conn_defs)
next
  case lost_callback
  with assms(2) show ?thesis by (simp add: setter_defs conn_defs)
next
  case (data_callback d)
  with assms(2) show ?thesis by (simp add: setter_defs conn_defs)
qed (use assms(2) in \<open>simp_all add: start_sending_flags start_receiving_flags async_stop_flags connection_stop_def call_queue_send_function_def\<close>)

lemma conn_init_flags: "conn_init c \<Longrightarrow> flags_inv c"
  by (auto simp: conn_init_def TcpConnection_new_def conn_defs)

section \<open>The bytes of the send side\<close>

text \<open>
  The region of the one outstanding write is the front of the send buffer, and as long as no
  write has failed the wire carries the bytes consumed so far and the first \<open>d\<close> bytes still in the
  buffer, where \<open>d\<close> is what the outstanding write has already sent.
\<close>

definition stream_ok :: "LinearBuffer \<Rightarrow> nat \<Rightarrow> byte list \<Rightarrow> byte list \<Rightarrow> bool" where
  "stream_ok b d sent_bytes queued_bytes \<longleftrightarrow>
     d \<le> length (contents b) \<and>
     (\<exists>before. sent_bytes = before @ take d (contents b) \<and> queued_bytes = before @ contents b)"

definition send_ok ::
  "LinearBuffer \<Rightarrow> (nat \<times> nat \<times> nat) list \<Rightarrow> conn_handler list \<Rightarrow> bool \<Rightarrow> byte list \<Rightarrow> byte list \<Rightarrow> bool \<Rightarrow> bool \<Rightarrow> bool" where
  "send_ok b ws hs failed sent_bytes queued_bytes sending stop \<longleftrightarrow>
     buffer_inv b \<and>
     (\<forall>p n k. (p, n, k) \<in> set ws \<longrightarrow> p = tail b \<and> n \<le> length (contents b) \<and> k < n) \<and>
     (\<forall>n. H_on_send False n \<in> set hs \<longrightarrow> n \<le> length (contents b)) \<and>
     (\<not> failed \<longrightarrow> (\<exists>d. stream_ok b d sent_bytes queued_bytes \<and>
        (\<forall>p n k. (p, n, k) \<in> set ws \<longrightarrow> k = d) \<and>
        (\<forall>n. H_on_send False n \<in> set hs \<longrightarrow> n = d) \<and>
        (\<not> sending \<and> \<not> stop \<longrightarrow> d = 0) \<and>
        (\<forall>n. H_on_send True n \<in> set hs \<longrightarrow> stop)))"

definition send_inv :: "Conn \<Rightarrow> bool" where
  "send_inv c \<longleftrightarrow> send_ok (send_buffer c) (writes c) (filter is_on_send (posted c)) (write_failed c)
     (wire c) (queued c) (get TCS_sending c) (get TCS_stop_signaled c)"

lemma resolve_frame [simp]:
  "send_buffer (resolve_on_stopped c) = send_buffer c" "writes (resolve_on_stopped c) = writes c"
  "filter is_on_send (posted (resolve_on_stopped c)) = filter is_on_send (posted c)"
  "write_failed (resolve_on_stopped c) = write_failed c" "wire (resolve_on_stopped c) = wire c"
  "queued (resolve_on_stopped c) = queued c" "flags (resolve_on_stopped c) = flags c"
  "receive_buffer (resolve_on_stopped c) = receive_buffer c" "reads (resolve_on_stopped c) = reads c"
  "data_received_callback (resolve_on_stopped c) = data_received_callback c"
  by (simp_all add: resolve_on_stopped_def split: option.split)

lemma send_inv_resolve [simp]: "send_inv (resolve_on_stopped c) = send_inv c"
  by (simp add: send_inv_def)

lemma send_inv_post [simp]: "\<not> is_on_send h \<Longrightarrow> send_inv (post h c) = send_inv c"
  by (simp add: send_inv_def)

lemma send_inv_flag [simp]:
  "f \<notin> {TCS_sending, TCS_stop_signaled} \<Longrightarrow> send_inv (clear_f f c) = send_inv c"
  "f \<notin> {TCS_sending, TCS_stop_signaled} \<Longrightarrow> send_inv (set_f f c) = send_inv c"
  by (auto simp: send_inv_def)

lemma send_inv_frame [simp]:
  "send_inv (c\<lparr>reads := r\<rparr>) = send_inv c" "send_inv (c\<lparr>receive_buffer := b\<rparr>) = send_inv c"
  "send_inv (c\<lparr>disconnected_callback := k\<rparr>) = send_inv c" "send_inv (c\<lparr>stopped_calls := ks\<rparr>) = send_inv c"
  "send_inv (c\<lparr>lost_calls := n\<rparr>) = send_inv c"
  by (simp_all add: send_inv_def)

lemma send_inv_drop: "posted c = hs @ h # hs' \<Longrightarrow> \<not> is_on_send h \<Longrightarrow> send_inv (c\<lparr>posted := hs @ hs'\<rparr>) = send_inv c"
  by (simp add: send_inv_def)

lemma send_inv_async_receive [simp]: "send_inv (async_receive c) = send_inv c"
  by (simp add: async_receive_def Let_def split: prod.split)

lemma send_inv_on_receive [simp]: "send_inv (on_receive e n c) = send_inv c"
  by (simp add: on_receive_def Let_def split: option.split)

lemma stream_ok_append:
  "stream_ok b d w q \<Longrightarrow> buffer_inv b \<Longrightarrow> length bs \<le> writable b \<Longrightarrow> stream_ok (append_bytes bs b) d w (q @ bs)"
  by (auto simp: stream_ok_def lb.data_app)

lemma stream_ok_consume:
  assumes "stream_ok b d w q" and "buffer_inv b"
  shows "stream_ok (snd (consume d b)) 0 w q"
  using assms by (auto simp: stream_ok_def lb.data_del)

lemma read_bytes_segment:
  assumes "buffer_inv b" and "k + m \<le> length (contents b)" and "read_bytes (tail b + k) m b = Some bs"
  shows "bs = take m (drop k (contents b))"
proof -
  have "k + m \<le> bsize b" using assms(1,2) by (simp add: length_contents)
  then have "take m (drop k (take (bsize b) (drop (tail b) (buffer b)))) = take m (drop (tail b + k) (buffer b))"
    by (simp add: drop_take min_absorb1 add.commute)
  with assms(3) show ?thesis by (simp add: contents_def read_bytes_def split: if_splits)
qed

lemma stream_ok_progress:
  assumes "stream_ok b d w q" and "buffer_inv b" and "d + m \<le> length (contents b)"
    and "read_bytes (tail b + d) m b = Some bs"
  shows "stream_ok b (d + m) (w @ bs) q"
  using assms read_bytes_segment [OF assms(2,3,4)] by (auto simp: stream_ok_def take_add)

lemma send_ok_append:
  "send_ok b ws hs f w q sd st \<Longrightarrow> length bs \<le> writable b \<Longrightarrow> send_ok (append_bytes bs b) ws hs f w (q @ bs) sd st"
  unfolding send_ok_def
  by (auto simp: lb.inv_app lb.data_app append_bytes_props(6) intro: stream_ok_append trans_le_add1)

text \<open>With at most one send operation, the cases of \<open>send_ok\<close>.\<close>

lemma send_ok_single:
  "send_ok b [(p, n, k)] [] f w q True st \<longleftrightarrow>
    buffer_inv b \<and> p = tail b \<and> n \<le> length (contents b) \<and> k < n \<and> (\<not> f \<longrightarrow> stream_ok b k w q)"
  "send_ok b [] [H_on_send False n] f w q True st \<longleftrightarrow>
    buffer_inv b \<and> n \<le> length (contents b) \<and> (\<not> f \<longrightarrow> stream_ok b n w q)"
  "send_ok b [] [H_on_send True n] f w q True st \<longleftrightarrow> buffer_inv b \<and> (\<not> f \<longrightarrow> st \<and> (\<exists>d. stream_ok b d w q))"
  "send_ok b [] [] f w q sd st \<longleftrightarrow>
    buffer_inv b \<and> (\<not> f \<longrightarrow> (\<exists>d. stream_ok b d w q \<and> (\<not> sd \<and> \<not> st \<longrightarrow> d = 0)))"
  by (auto simp: send_ok_def)

lemma jobs_filter: "jobs P q = 0 \<longleftrightarrow> filter P q = []"
  by (simp add: jobs_def)

lemma single_write:
  assumes "flags_inv c" and "writes c = ws @ w # ws'"
  shows "ws = [] \<and> ws' = [] \<and> filter is_on_send (posted c) = [] \<and> get TCS_sending c"
  using assms by (cases "get TCS_sending c") (simp_all add: flags_inv_def sends_def jobs_filter)

lemma single_on_send:
  assumes "flags_inv c" and "posted c = hs @ H_on_send e n # hs'"
  shows "writes c = [] \<and> filter is_on_send hs = [] \<and> filter is_on_send hs' = [] \<and> get TCS_sending c"
  using assms by (cases "get TCS_sending c") (simp_all add: flags_inv_def sends_def jobs_filter)

lemma not_sending:
  assumes "flags_inv c" and "\<not> get TCS_sending c"
  shows "writes c = [] \<and> filter is_on_send (posted c) = []"
  using assms by (simp add: flags_inv_def sends_def jobs_filter)

lemma async_send_eq:
  assumes "buffer_inv (send_buffer c)"
  shows "async_send c = (if contents (send_buffer c) = [] then clear_f TCS_sending c
    else c\<lparr>writes := writes c @ [(tail (send_buffer c), length (contents (send_buffer c)), 0)]\<rparr>)"
  using assms by (simp add: async_send_def get_read_head_eq)

lemma async_send_stream:
  assumes "buffer_inv (send_buffer c)" and "writes c = []" and "filter is_on_send (posted c) = []"
    and "\<not> write_failed c \<Longrightarrow> stream_ok (send_buffer c) 0 (wire c) (queued c)" and "get TCS_sending c"
  shows "send_inv (async_send c)"
  using assms by (auto simp: async_send_eq send_inv_def send_ok_single)

lemma H_send_stream:
  assumes "flags_inv c" and "send_inv c" and "posted c = hs @ H_send # hs'"
  shows "send_inv (send_posted (c\<lparr>posted := hs @ hs'\<rparr>))"
proof -
  note idle = not_sending [OF assms(1)] H_send_queued [OF assms(1,3)]
  let ?d = "set_f TCS_sending (clear_f TCS_start_sending (c\<lparr>posted := hs @ hs'\<rparr>))"
  have inv: "buffer_inv (send_buffer c)" using assms(2) by (simp add: send_inv_def send_ok_def)
  have "send_inv (async_send ?d)" if "\<not> get TCS_stop_signaled c"
    using assms(2,3) idle that by (intro async_send_stream) (auto simp: inv send_inv_def send_ok_single)
  then show ?thesis
    using assms(2) send_inv_drop [OF assms(3)] by (simp add: send_posted_def Let_def)
qed

lemma on_send_stream:
  assumes "flags_inv c" and "send_inv c" and "posted c = hs @ H_on_send e n # hs'"
  shows "send_inv (on_send e n (c\<lparr>posted := hs @ hs'\<rparr>))"
proof (cases e)
  case True
  note single = single_on_send [OF assms(1,3)]
  have "send_inv (clear_f TCS_sending (c\<lparr>posted := hs @ hs'\<rparr>))"
    using assms(2,3) single True by (simp add: send_inv_def send_ok_single)
  with True show ?thesis by (simp add: on_send_def Let_def)
next
  case False
  note single = single_on_send [OF assms(1,3)]
  let ?b = "snd (consume n (send_buffer c))"
  have b: "buffer_inv (send_buffer c)" "n \<le> length (contents (send_buffer c))"
    "\<not> write_failed c \<Longrightarrow> stream_ok (send_buffer c) n (wire c) (queued c)"
    using assms(2,3) single False by (simp_all add: send_inv_def send_ok_single)
  have "send_inv (async_send (c\<lparr>posted := hs @ hs', send_buffer := ?b\<rparr>))"
    using b single by (intro async_send_stream) (simp_all add: consume_inv stream_ok_consume)
  with False show ?thesis by (simp add: on_send_def Let_def)
qed

lemma cancel_stream:
  assumes "flags_inv c" and "send_inv c" and "posted c = hs @ H_cancel # hs'"
  shows "send_inv (cancel_async_operations (c\<lparr>posted := hs @ hs'\<rparr>))"
proof -
  have stop: "get TCS_stop_signaled c"
    using assms(1,3) by (cases "get TCS_closing c") (simp_all add: flags_inv_def)
  have "filter is_on_send (map (\<lambda>_. H_on_receive True 0) rs) = []" for rs :: "(nat \<times> nat) list"
    by (induction rs) simp_all
  note reads = this
  have "send_inv (socket_cancel (c\<lparr>posted := hs @ hs'\<rparr>))"
  proof (cases "writes c")
    case Nil
    with assms(2,3) reads show ?thesis by (simp add: socket_cancel_def send_inv_def)
  next
    case (Cons w ws)
    obtain p n k where "w = (p, n, k)" by (cases w)
    with Cons single_write [OF assms(1), of "[]" w ws] assms(2,3) stop reads show ?thesis
      by (auto simp: socket_cancel_def send_inv_def send_ok_single)
  qed
  then show ?thesis by (simp add: cancel_async_operations_def)
qed

lemma send_inv_write_some:
  assumes "flags_inv c" and "send_inv c" and "writes c = ws @ (p, n, k) # ws'" and "k + m < n"
    and "read_bytes (p + k) m (send_buffer c) = Some bs"
  shows "send_inv (c\<lparr>wire := wire c @ bs, writes := ws @ (p, n, k + m) # ws'\<rparr>)"
  using assms(2-5) single_write [OF assms(1,3)] stream_ok_progress [of "send_buffer c" k "wire c" "queued c" m bs]
  by (simp add: send_inv_def send_ok_single)

lemma send_inv_write_done:
  assumes "flags_inv c" and "send_inv c" and "writes c = ws @ (p, n, k) # ws'"
    and "read_bytes (p + k) (n - k) (send_buffer c) = Some bs"
  shows "send_inv (post (H_on_send False n) (c\<lparr>wire := wire c @ bs, writes := ws @ ws'\<rparr>))"
  using assms(2-4) single_write [OF assms(1,3)] stream_ok_progress [of "send_buffer c" k "wire c" "queued c" "n - k" bs]
  by (simp add: send_inv_def send_ok_single)

lemma send_inv_write_error:
  assumes "flags_inv c" and "send_inv c" and "writes c = ws @ (p, n, k) # ws'"
  shows "send_inv (post (H_on_send True k) (c\<lparr>writes := ws @ ws', write_failed := True\<rparr>))"
  using assms(2,3) single_write [OF assms(1,3)] by (simp add: send_inv_def send_ok_single)

lemma conn_step_send:
  assumes "conn_step c c'" and "flags_inv c" and "send_inv c"
  shows "send_inv c'"
  using assms(1)
proof cases
  case (queue bs)
  with assms(3) show ?thesis by (simp add: send_inv_def call_queue_send_function_def send_ok_append)
next
  case send
  with assms(3) show ?thesis by (simp add: start_sending_def)
next
  case receive
  with assms(3) show ?thesis by (simp add: start_receiving_def)
next
  case (stop k)
  have "send_inv (set_f TCS_stop_signaled c)" using assms(3) by (auto simp: send_inv_def send_ok_def)
  with stop assms(3) show ?thesis by (simp add: async_stop_def)
next
  case (blocking_stop is_on_io_thread k)
  have "send_inv (set_f TCS_stop_signaled c)" using assms(3) by (auto simp: send_inv_def send_ok_def)
  with blocking_stop assms(3) show ?thesis by (simp add: connection_stop_def async_stop_def)
next
  case (handler hs h hs')
  with assms(2,3) show ?thesis
    using send_inv_drop [of c hs h hs']
    by (cases h) (simp_all add: cancel_stream H_send_stream on_send_stream)
next
  case (write_some ws p n k ws' m bs)
  with send_inv_write_some [OF assms(2,3)] show ?thesis by simp
next
  case (write_done ws p n k ws' bs)
  with send_inv_write_done [OF assms(2,3)] show ?thesis by simp
next
  case (write_error ws p n k ws')
  with send_inv_write_error [OF assms(2,3)] show ?thesis by simp
qed (use assms(3) in \<open>simp_all add: setter_defs send_inv_def\<close>)

lemma conn_init_send: "conn_init c \<Longrightarrow> send_inv c"
  by (auto simp: conn_init_def TcpConnection_new_def send_inv_def send_ok_single stream_ok_def
      contents_def LinearBuffer_new_def buffer_inv_def)

section \<open>The regions of the receive side\<close>

definition receive_inv :: "Conn \<Rightarrow> bool" where
  "receive_inv c \<longleftrightarrow> buffer_inv (receive_buffer c) \<and> keeps_buffer (data_received_callback c) \<and>
     (\<forall>p n. (p, n) \<in> set (reads c) \<longrightarrow> p + n \<le> capacity (receive_buffer c))"

lemma receive_inv_frame [simp]:
  "receive_inv (post h c) = receive_inv c" "receive_inv (set_f f c) = receive_inv c"
  "receive_inv (clear_f f c) = receive_inv c" "receive_inv (resolve_on_stopped c) = receive_inv c"
  "receive_inv (c\<lparr>posted := q\<rparr>) = receive_inv c" "receive_inv (c\<lparr>writes := w\<rparr>) = receive_inv c"
  "receive_inv (c\<lparr>send_buffer := b\<rparr>) = receive_inv c" "receive_inv (c\<lparr>stopped_calls := ks\<rparr>) = receive_inv c"
  "receive_inv (c\<lparr>lost_calls := n\<rparr>) = receive_inv c" "receive_inv (c\<lparr>wire := bs\<rparr>) = receive_inv c"
  "receive_inv (c\<lparr>queued := bs\<rparr>) = receive_inv c" "receive_inv (c\<lparr>write_failed := e\<rparr>) = receive_inv c"
  "receive_inv (c\<lparr>disconnected_callback := k\<rparr>) = receive_inv c"
  by (simp_all add: receive_inv_def)

lemma receive_inv_reads: "receive_inv c \<Longrightarrow> set rs \<subseteq> set (reads c) \<Longrightarrow> receive_inv (c\<lparr>reads := rs\<rparr>)"
  by (auto simp: receive_inv_def)

lemma receive_inv_async_receive: "receive_inv c \<Longrightarrow> receive_inv (async_receive c)"
proof -
  assume inv: "receive_inv c"
  then have "head (receive_buffer c) + writable (receive_buffer c) \<le> capacity (receive_buffer c)"
    by (simp add: receive_inv_def writable_eq) (simp add: buffer_inv_def capacity_def)
  with inv show ?thesis
    by (auto simp: async_receive_def Let_def get_write_head_eq receive_inv_def clear_f_def)
qed

lemma receive_inv_async_send [simp]: "receive_inv (async_send c) = receive_inv c"
  by (simp add: async_send_def split: prod.split)

lemma commit_capacity: "capacity (snd (commit n b)) = capacity b"
  by (simp add: commit_def capacity_def Let_def)

lemma receive_inv_on_receive: "receive_inv c \<Longrightarrow> receive_inv (on_receive e n c)"
proof -
  assume inv: "receive_inv c"
  let ?b = "snd (commit n (receive_buffer c))"
  have b: "buffer_inv ?b" "capacity ?b = capacity (receive_buffer c)"
    using inv by (simp_all add: receive_inv_def commit_inv commit_capacity)
  have "receive_inv (c\<lparr>receive_buffer := ?b\<rparr>)" using inv b by (simp add: receive_inv_def)
  moreover have "receive_inv (c\<lparr>receive_buffer := f ?b\<rparr>)" if "data_received_callback c = Some f" for f
    using inv b that by (simp add: receive_inv_def keeps_buffer_def)
  ultimately show ?thesis
    using inv by (auto simp: on_receive_def Let_def intro!: receive_inv_async_receive split: option.split)
qed

lemma receive_inv_setters:
  "receive_inv (c\<lparr>connection_lost_callback := b\<rparr>) = receive_inv c"
  "receive_inv c \<Longrightarrow> keeps_buffer d \<Longrightarrow> receive_inv (c\<lparr>data_received_callback := d\<rparr>)"
  by (simp_all add: receive_inv_def)

lemma conn_step_receive:
  assumes "conn_step c c'" and inv: "receive_inv c"
  shows "receive_inv c'"
  using assms(1)
proof cases
  case (handler hs h hs')
  with inv show ?thesis
    by (cases h) (auto simp: cancel_async_operations_def socket_cancel_def receive_inv_async_receive
        receive_inv_on_receive send_posted_def on_send_def Let_def intro!: receive_inv_reads)
next
  case (read_done rs p n rs' bs b)
  have "capacity b = capacity (receive_buffer c)"
    using read_done(5) by (auto simp: write_bytes_def capacity_def split: if_splits)
  with read_done inv show ?thesis
    by (auto simp: receive_inv_def intro: write_bytes_inv)
next
  case (read_failed rs p n rs')
  with inv show ?thesis by (auto intro!: receive_inv_reads)
qed (use inv in \<open>simp_all add: call_queue_send_function_def start_sending_def start_receiving_def connection_stop_def async_stop_def setter_defs
    receive_inv_setters\<close>)

lemma conn_init_receive: "conn_init c \<Longrightarrow> receive_inv c"
  by (auto simp: conn_init_def TcpConnection_new_def receive_inv_def)

section \<open>Invariant and stop protocol\<close>

definition conn_inv :: "Conn \<Rightarrow> bool" where
  "conn_inv c \<longleftrightarrow> flags_inv c \<and> send_inv c \<and> receive_inv c"

definition conn_idle :: "Conn \<Rightarrow> bool" where
  "conn_idle c \<longleftrightarrow> posted c = [] \<and> writes c = []"

interpretation conn: stop_protocol conn_init conn_step conn_inv
  "\<lambda>c. if get TCS_stop_signaled c then 1 else 0" owed "\<lambda>c. jobs is_stopped (posted c)" "\<lambda>c. length (stopped_calls c)" conn_idle
proof unfold_locales
  show "conn_init c \<Longrightarrow> conn_inv c" for c
    by (simp add: conn_inv_def conn_init_flags conn_init_send conn_init_receive)
  show "conn_inv c \<Longrightarrow> conn_step c c' \<Longrightarrow> conn_inv c'" for c c'
    by (simp add: conn_inv_def conn_step_flags conn_step_send conn_step_receive)
  show "conn_inv c \<Longrightarrow> owed c + jobs is_stopped (posted c) + length (stopped_calls c) =
      (if get TCS_stop_signaled c then 1 else 0)" for c
    unfolding conn_inv_def flags_inv_def of_bool_def by blast
  show "conn_inv c \<Longrightarrow> conn_idle c \<Longrightarrow> owed c = 0 \<and> jobs is_stopped (posted c) = 0" for c
    by (auto simp: conn_inv_def conn_idle_def flags_inv_def sends_def busy_def)
qed

section \<open>Properties\<close>

lemmas conn_reachable = conn.reachable_inv [unfolded conn_inv_def]

text \<open>Property C7. The stopped callback is called at most once, never without a stop request, and
  stopping completes: when a stop was requested and the \<open>io_context\<close> has no handler left and the
  system no write, it has been called exactly once. This covers every interleaving of user
  calls, completions and cancellation.\<close>

theorem tcp_connection_stop:
  assumes "reachable conn_init conn_step c"
  shows "length (stopped_calls c) \<le> 1 \<and>
    (\<not> get_flag (tcs TCS_stop_signaled) (flags c) \<longrightarrow> stopped_calls c = []) \<and>
    (get_flag (tcs TCS_stop_signaled) (flags c) \<and> posted c = [] \<and> writes c = [] \<longrightarrow> length (stopped_calls c) = 1)"
  using conn.called_at_most_requests [OF assms] conn.idle_called [OF assms]
  by (simp add: conn_idle_def split: if_splits)

text \<open>There is never more than one write outstanding, and once the stopped callback
  is on its way or has run there is none: no write, no completion of one, and no queued handler
  that could start one.\<close>

theorem tcp_connection_single_write:
  assumes "reachable conn_init conn_step c"
  shows "length (writes c) + jobs is_on_send (posted c) \<le> 1 \<and>
    (stopped_calls c \<noteq> [] \<or> jobs is_stopped (posted c) \<noteq> 0 \<longrightarrow>
      length (writes c) + jobs is_on_send (posted c) = 0 \<and> jobs (\<lambda>h. h = H_send \<or> h = H_cancel) (posted c) = 0)"
proof -
  have inv: "flags_inv c" using conn_reachable [OF assms] by simp
  then have one: "sends c \<le> 1" by (simp add: flags_inv_def)
  have "\<not> busy c" if "stopped_calls c \<noteq> [] \<or> jobs is_stopped (posted c) \<noteq> 0"
  proof
    assume "busy c"
    with inv that show False by (cases "get TCS_stop_signaled c") (auto simp: flags_inv_def)
  qed
  moreover have "sends c = 0 \<and> jobs (\<lambda>h. h = H_send \<or> h = H_cancel) (posted c) = 0" if "\<not> busy c"
  proof -
    have "jobs (\<lambda>h. h = H_send) (posted c) = 0" "jobs (\<lambda>h. h = H_cancel) (posted c) = 0" "sends c = 0"
      using inv that by (simp_all add: flags_inv_def busy_def)
    then show ?thesis by (simp add: jobs_0)
  qed
  ultimately show ?thesis using one by (auto simp: sends_def)
qed

text \<open>Property C8. The wire carries the queued bytes in order and without gaps: as long as no
  write has failed, what was sent is a prefix of what the user queued; while no stop was
  requested and no send is in progress, the rest is exactly the contents of the send buffer.\<close>

theorem tcp_connection_stream:
  assumes "reachable conn_init conn_step c" and "\<not> write_failed c"
  shows "(\<exists>rest. queued c = wire c @ rest) \<and>
    (\<not> get_flag (tcs TCS_sending) (flags c) \<and> \<not> get_flag (tcs TCS_stop_signaled) (flags c) \<longrightarrow>
      queued c = wire c @ contents (send_buffer c))"
proof -
  have "send_inv c" using conn_reachable [OF assms(1)] by simp
  with assms(2) obtain d where d: "stream_ok (send_buffer c) d (wire c) (queued c)"
    "\<not> get TCS_sending c \<and> \<not> get TCS_stop_signaled c \<longrightarrow> d = 0"
    by (auto simp: send_inv_def send_ok_def)
  from d(1) have "\<exists>rest. queued c = wire c @ rest"
    by (auto simp: stream_ok_def) (metis append_take_drop_id)
  moreover have "queued c = wire c @ contents (send_buffer c)" if "d = 0"
    using d(1) that by (auto simp: stream_ok_def)
  ultimately show ?thesis using d(2) by blast
qed

text \<open>Property C31. Memory safety of the connection: both buffers keep their invariant, every
  region handed to a read lies inside the receive buffer, and the one handed to a write is the
  readable front of the send buffer, whatever is queued in the meantime.\<close>

theorem tcp_connection_regions:
  assumes "reachable conn_init conn_step c"
  shows "buffer_inv (receive_buffer c) \<and> buffer_inv (send_buffer c) \<and>
    (\<forall>p n. (p, n) \<in> set (reads c) \<longrightarrow> p + n \<le> capacity (receive_buffer c)) \<and>
    (\<forall>p n k. (p, n, k) \<in> set (writes c) \<longrightarrow> p = tail (send_buffer c) \<and> n \<le> length (contents (send_buffer c)) \<and> k < n)"
  using conn_reachable [OF assms] by (simp add: send_inv_def send_ok_def receive_inv_def)

section \<open>Runs of one thread\<close>

text \<open>One thread running the \<open>io_context\<close> takes the handlers in the order they were posted.\<close>

definition run_next :: "Conn \<Rightarrow> Conn" where
  "run_next c = (case posted c of [] \<Rightarrow> c | h # hs \<Rightarrow> run_handler h (c\<lparr>posted := hs\<rparr>))"

lemma reachable_run_next: "reachable conn_init conn_step c \<Longrightarrow> reachable conn_init conn_step (run_next c)"
proof (cases "posted c")
  case (Cons h hs)
  assume "reachable conn_init conn_step c"
  moreover have "conn_step c (run_handler h (c\<lparr>posted := [] @ hs\<rparr>))"
    by (rule conn_step.handler) (simp add: Cons)
  ultimately show ?thesis using Cons by (simp add: run_next_def reachable.more)
qed (simp add: run_next_def)

lemma reachable_calls:
  "reachable conn_init conn_step c \<Longrightarrow> reachable conn_init conn_step (start_receiving c)"
  "reachable conn_init conn_step c \<Longrightarrow> reachable conn_init conn_step (start_sending c)"
  "reachable conn_init conn_step c \<Longrightarrow> reachable conn_init conn_step (snd (async_stop k c))"
  by (auto intro: reachable.more conn_step.intros)

lemma reachable_new: "keeps_buffer d \<Longrightarrow> reachable conn_init conn_step (TcpConnection_new r s l d)"
  by (rule reachable.start) (auto simp: conn_init_def)

lemma receive_once:
  assumes "0 < n" and c_def: "c = run_next (start_receiving (TcpConnection_new n s l d))"
  shows "reads c = [(0, n)] \<and> posted c = [] \<and> writes c = [] \<and> receive_buffer c = LinearBuffer_new n
    \<and> (\<forall>f. \<not> get f c) \<and> connection_lost_callback c = l \<and> disconnected_callback c = None \<and> stopped_calls c = []"
  using assms
  by (simp add: c_def start_receiving_def TcpConnection_new_def run_next_def async_receive_def Let_def
      get_write_head_def LinearBuffer_new_def clear_f_def set_f_def post_def conn_flags.flag_laws)

lemma receive_again:
  assumes "reads c = [(0, n)]" and "posted c = []" and "receive_buffer c = LinearBuffer_new n"
    and "\<forall>f. \<not> get f c" and "0 < n"
  shows "reads (run_next (start_receiving c)) = [(0, n), (0, n)]"
  using assms
  by (simp add: start_receiving_def run_next_def async_receive_def Let_def get_write_head_def
      LinearBuffer_new_def post_def set_f_def clear_f_def conn_flags.flag_laws)

text \<open>The flag \<open>receiving\<close> is never set, so \<open>start_receiving\<close> does not see an
  outstanding read: called again it starts a second one into the same bytes of the receive
  buffer.\<close>

theorem tcp_connection_double_read:
  assumes "0 < n" and "keeps_buffer d"
  shows "\<exists>c. c = run_next (start_receiving (run_next (start_receiving (TcpConnection_new n s l d)))) \<and>
    reachable conn_init conn_step c \<and> reads c = [(0, n), (0, n)]"
proof -
  let ?c = "run_next (start_receiving (TcpConnection_new n s l d))"
  have "reads (run_next (start_receiving ?c)) = [(0, n), (0, n)]"
    using receive_once [OF assms(1) refl, of s l d] assms(1) by (intro receive_again) simp_all
  moreover have "reachable conn_init conn_step (run_next (start_receiving ?c))"
    by (intro reachable_run_next reachable_calls reachable_new assms(2))
  ultimately show ?thesis by blast
qed

lemma stop_with_read:
  assumes "reads c = [(0, n)]" and "posted c = []" and "writes c = []" and "\<forall>f. \<not> get f c"
  shows "posted (run_next (snd (async_stop k c))) = [H_on_receive True 0, H_stopped k] \<and>
    (\<forall>f. get f (run_next (snd (async_stop k c))) \<longleftrightarrow> f = TCS_stop_signaled) \<and>
    connection_lost_callback (run_next (snd (async_stop k c))) = connection_lost_callback c \<and>
    stopped_calls (run_next (snd (async_stop k c))) = stopped_calls c \<and>
    disconnected_callback (run_next (snd (async_stop k c))) = None"
  using assms
  by (simp add: async_stop_def run_next_def cancel_async_operations_def socket_cancel_def resolve_on_stopped_def
      post_def set_f_def clear_f_def conn_flags.flag_laws) auto

lemma aborted_read_then_stopped:
  assumes "posted c = [H_on_receive True 0, H_stopped k]" and "disconnected_callback c = None"
    and "connection_lost_callback c"
  shows "posted (run_next (run_next c)) = [H_lost] \<and> stopped_calls (run_next (run_next c)) = stopped_calls c @ [k]"
  using assms
  by (simp add: run_next_def on_receive_def Let_def resolve_on_stopped_def post_def clear_f_def)

text \<open>A regular stop reports a lost connection, and does so after the stopped
  callback: with a read outstanding, one thread that runs the handlers in order calls the stopped
  callback while the handler that uses the connection to call the lost callback is still queued.
  The header calls the stop the precursor to the destruction of the object.\<close>

theorem tcp_connection_lost_after_stop:
  assumes "0 < n" and "keeps_buffer d"
  shows "\<exists>c. c = run_next (run_next (run_next (snd (async_stop k (run_next (start_receiving (TcpConnection_new n s True d))))))) \<and>
    reachable conn_init conn_step c \<and> stopped_calls c = [k] \<and> posted c = [H_lost]"
proof -
  let ?c = "run_next (start_receiving (TcpConnection_new n s True d))"
  let ?s = "run_next (snd (async_stop k ?c))"
  note c = receive_once [OF assms(1) refl, of s True d]
  have s: "posted ?s = [H_on_receive True 0, H_stopped k]" "disconnected_callback ?s = None"
    "connection_lost_callback ?s" "stopped_calls ?s = []"
    using c stop_with_read [of ?c n k] by simp_all
  have "stopped_calls (run_next (run_next ?s)) = [k] \<and> posted (run_next (run_next ?s)) = [H_lost]"
    using aborted_read_then_stopped [OF s(1-3)] s(4) by simp
  moreover have "reachable conn_init conn_step (run_next (run_next ?s))"
    by (intro reachable_run_next reachable_calls reachable_new assms(2))
  ultimately show ?thesis by blast
qed

section \<open>Instances\<close>

text \<open>A stop that has run to its end, and a run that queues two bytes and has them written.\<close>

definition stopped_example :: Conn where
  "stopped_example = run_next (run_next (snd (async_stop 7 (TcpConnection_new 4 4 True None))))"

lemma stopped_example_state:
  "posted stopped_example = [] \<and> writes stopped_example = [] \<and> get TCS_stop_signaled stopped_example"
  by (simp add: stopped_example_def TcpConnection_new_def async_stop_def run_next_def cancel_async_operations_def
      socket_cancel_def resolve_on_stopped_def post_def set_f_def clear_f_def conn_flags.flag_laws)

lemma stopped_example_reachable: "reachable conn_init conn_step stopped_example"
  unfolding stopped_example_def
  by (intro reachable_run_next reachable_calls reachable_new) (simp add: keeps_buffer_def)

theorem tcp_connection_stop_witness: "length (stopped_calls stopped_example) = 1"
  using tcp_connection_stop [OF stopped_example_reachable] stopped_example_state by simp

definition queue_example :: Conn where
  "queue_example = (call_queue_send_function (append_bytes [1, 2]) (TcpConnection_new 4 4 True None))\<lparr>queued := [1, 2]\<rparr>"

definition writing_example :: Conn where
  "writing_example = run_next (start_sending queue_example)"

definition written_example :: Conn where
  "written_example = run_next (post (H_on_send False 2) (writing_example\<lparr>wire := [1, 2], writes := []\<rparr>))"

lemma append_example: "append_bytes [1, 2] (LinearBuffer_new 4) = \<lparr>buffer = [1, 2, 0, 0], head = 2, tail = 0, bsize = 2\<rparr>"
  by code_simp

lemma writing_example_state:
  "writes writing_example = [(0, 2, 0)]" "send_buffer writing_example = \<lparr>buffer = [1, 2, 0, 0], head = 2, tail = 0, bsize = 2\<rparr>"
  "posted writing_example = []" "wire writing_example = []"
  by (simp_all add: writing_example_def queue_example_def append_example call_queue_send_function_def TcpConnection_new_def
      start_sending_def run_next_def send_posted_def async_send_def get_read_head_def Let_def post_def set_f_def
      clear_f_def conn_flags.flag_laws)

lemma writable_new: "writable (LinearBuffer_new n) = n"
  by (simp add: writable_def get_write_head_def LinearBuffer_new_def)

lemma writing_example_reachable: "reachable conn_init conn_step writing_example"
proof -
  have "conn_step (TcpConnection_new 4 4 True None) queue_example"
    using conn_step.queue [of "[1, 2]" "TcpConnection_new 4 4 True None"]
    by (simp add: queue_example_def TcpConnection_new_def writable_new)
  moreover have "reachable conn_init conn_step (TcpConnection_new 4 4 True None)"
    by (rule reachable_new) (simp add: keeps_buffer_def)
  ultimately show ?thesis
    unfolding writing_example_def by (intro reachable_run_next reachable_calls) (rule reachable.more)
qed

lemma written_example_reachable: "reachable conn_init conn_step written_example"
proof -
  note writing_example_reachable
  moreover have "conn_step writing_example (post (H_on_send False 2) (writing_example\<lparr>wire := wire writing_example @ [1, 2], writes := [] @ []\<rparr>))"
    by (rule conn_step.write_done [where p = 0 and sent = 0 and n = 2]) (simp_all add: writing_example_state read_bytes_def)
  ultimately show ?thesis
    unfolding written_example_def using writing_example_state(4)
    by (intro reachable_run_next) (auto intro: reachable.more)
qed

lemma written_example_state: "\<not> write_failed written_example" "queued written_example = [1, 2]"
  "wire written_example = [1, 2]" "length (writes written_example) = 0"
  "\<not> get TCS_sending written_example" "\<not> get TCS_stop_signaled written_example"
  by (simp_all add: written_example_def writing_example_def queue_example_def append_example call_queue_send_function_def
      TcpConnection_new_def start_sending_def run_next_def send_posted_def async_send_def get_read_head_def Let_def
      post_def set_f_def clear_f_def conn_flags.flag_laws on_send_def consume_def reset_if_empty_def resolve_on_stopped_def)

theorem tcp_connection_single_write_witness: "length (writes writing_example) + jobs is_on_send (posted writing_example) \<le> 1"
  using tcp_connection_single_write [of writing_example] writing_example_reachable by simp

theorem tcp_connection_stream_witness:
  "wire written_example = [1, 2] \<and> (\<exists>rest. queued written_example = wire written_example @ rest) \<and>
    queued written_example = wire written_example @ contents (send_buffer written_example)"
  using tcp_connection_stream [OF written_example_reachable written_example_state(1)] written_example_state(3,5,6) by simp

theorem tcp_connection_regions_witness:
  "writes writing_example = [(0, 2, 0)] \<and> tail (send_buffer writing_example) = 0 \<and>
    2 \<le> length (contents (send_buffer writing_example))"
  using tcp_connection_regions [OF writing_example_reachable] writing_example_state(1) by simp

theorem tcp_connection_double_read_witness:
  "\<exists>c. reachable conn_init conn_step c \<and> reads c = [(0, 16), (0, 16)]"
  using tcp_connection_double_read [of 16 None 16 True] by (auto simp: keeps_buffer_def)

theorem tcp_connection_lost_after_stop_witness:
  "\<exists>c. reachable conn_init conn_step c \<and> stopped_calls c = [7] \<and> posted c = [H_lost]"
  using tcp_connection_lost_after_stop [of 16 None 7 16] by (auto simp: keeps_buffer_def)

end
