(* ===== verification/Tcp_Channel.thy ===== *)
theory Tcp_Channel
  imports Tcp_Connection Serial_Mux "HOL-Library.Sublist"
begin

text \<open>
  The receiving side of \<open>eestv/net/connection/tcp_connection.hpp\<close> with the bytes it carries, two
  connections joined by the network, and the messages of the multiplexer sent over them.
\<close>

section \<open>Receiving\<close>

text \<open>
  A connection with what the system has put into its receive buffer and what the data callback has
  taken out of it. The callback is given as the number of bytes it consumes.
\<close>

record Receiver =
  conn :: Conn
  arrived :: "byte list"
  taken :: "byte list"

definition consumer :: "(LinearBuffer \<Rightarrow> nat) \<Rightarrow> LinearBuffer \<Rightarrow> LinearBuffer" where
  "consumer m b = snd (consume (m b) b)"

definition consumed :: "(LinearBuffer \<Rightarrow> nat) \<Rightarrow> LinearBuffer \<Rightarrow> byte list" where
  "consumed m b = (if m b \<le> length (contents b) then take (m b) (contents b) else [])"

fun is_receive :: "conn_handler \<Rightarrow> bool" where
  "is_receive H_receive \<longleftrightarrow> True"
| "is_receive (H_on_receive _ _) \<longleftrightarrow> True"
| "is_receive _ \<longleftrightarrow> False"

fun is_on_receive :: "conn_handler \<Rightarrow> bool" where
  "is_on_receive (H_on_receive _ _) \<longleftrightarrow> True"
| "is_on_receive _ \<longleftrightarrow> False"

fun taken_by :: "(LinearBuffer \<Rightarrow> nat) \<Rightarrow> conn_handler \<Rightarrow> LinearBuffer \<Rightarrow> byte list" where
  "taken_by m (H_on_receive False n) b = consumed m (snd (commit n b))"
| "taken_by m _ b = []"

text \<open>The part of a connection that receiving is about, with the flag that \<open>start_receiving\<close> tests.\<close>

definition receive_part ::
  "Conn \<Rightarrow> LinearBuffer \<times> (nat \<times> nat) list \<times> conn_handler list \<times> (LinearBuffer \<Rightarrow> LinearBuffer) option \<times> bool" where
  "receive_part c =
     (receive_buffer c, reads c, filter is_receive (posted c), data_received_callback c, get TCS_start_receiving c)"

text \<open>
  The steps of a connection whose user keeps one rule: \<open>start_receiving\<close> is not called while the
  system holds a read or the completion of one waits for its handler. (The flag \<open>receiving\<close> is
  never set, so the class itself does not refuse such a call:
  \<open>tcp_connection_double_read\<close> shows the two reads it then has.) Any number of calls before
  the first one's handler has run, and after an error, is allowed; there it is the flag
  \<open>start_receiving\<close> that keeps the number of queued receives at one.
\<close>

inductive receive_step :: "(LinearBuffer \<Rightarrow> nat) \<Rightarrow> Receiver \<Rightarrow> Receiver \<Rightarrow> bool" for m where
  start: "reads (conn r) = [] \<Longrightarrow> filter is_on_receive (posted (conn r)) = [] \<Longrightarrow>
    receive_step m r (r\<lparr>conn := start_receiving (conn r)\<rparr>)"
| other: "conn_step (conn r) c \<Longrightarrow> receive_part c = receive_part (conn r) \<Longrightarrow> receive_step m r (r\<lparr>conn := c\<rparr>)"
| handler: "posted (conn r) = hs @ h # hs' \<Longrightarrow>
    receive_step m r (r\<lparr>conn := run_handler h ((conn r)\<lparr>posted := hs @ hs'\<rparr>),
      taken := taken r @ taken_by m h (receive_buffer (conn r))\<rparr>)"
| read_done: "reads (conn r) = rs @ (p, n) # rs' \<Longrightarrow> 0 < length bs \<Longrightarrow> length bs \<le> n \<Longrightarrow>
    write_bytes p bs (receive_buffer (conn r)) = Some b \<Longrightarrow>
    receive_step m r (r\<lparr>conn := post (H_on_receive False (length bs)) ((conn r)\<lparr>receive_buffer := b, reads := rs @ rs'\<rparr>),
      arrived := arrived r @ bs\<rparr>)"
| read_failed: "reads (conn r) = rs @ (p, n) # rs' \<Longrightarrow>
    receive_step m r (r\<lparr>conn := post (H_on_receive True 0) ((conn r)\<lparr>reads := rs @ rs'\<rparr>)\<rparr>)"

definition receive_init :: "(LinearBuffer \<Rightarrow> nat) \<Rightarrow> Receiver \<Rightarrow> bool" where
  "receive_init m r \<longleftrightarrow> (\<exists>i s l. r = \<lparr>conn = TcpConnection_new i s l (Some (consumer m)), arrived = [], taken = []\<rparr>)"

lemma receive_conn_step: "receive_step m r r' \<Longrightarrow> conn_step (conn r) (conn r')"
  by (erule receive_step.cases) (auto intro: conn_step.intros)

lemma receive_conn_init: "receive_init m r \<Longrightarrow> conn_init (conn r)"
proof -
  have "keeps_buffer (Some (consumer m))" by (simp add: keeps_buffer_def consumer_def consume_inv consume_capacity)
  moreover assume "receive_init m r"
  ultimately show ?thesis by (clarsimp simp: receive_init_def conn_init_def) blast
qed

lemma receive_reachable: "reachable (receive_init m) (receive_step m) r \<Longrightarrow> reachable conn_init conn_step (conn r)"
  by (induction rule: reachable.induct) (blast intro: reachable.intros receive_conn_init receive_conn_step)+

section \<open>The bytes in the buffer\<close>

text \<open>The bytes behind the write index, which a completed read has filled and nobody committed yet.\<close>

definition filled :: "nat \<Rightarrow> LinearBuffer \<Rightarrow> byte list" where
  "filled n b = take n (drop (head b) (buffer b))"

lemma commit_contents:
  assumes "buffer_inv b" and "n \<le> writable b"
  shows "contents (snd (commit n b)) = contents b @ filled n b"
proof -
  have "commit n b = (True, b\<lparr>head := head b + n, bsize := bsize b + n\<rparr>)"
    using assms(2) by (simp add: commit_def writable_def Let_def)
  then show ?thesis using assms(1) by (simp add: contents_def filled_def buffer_inv_def take_add add.commute [of "bsize b" "tail b"])
qed

lemma write_filled:
  assumes "write_bytes (head b) bs b = Some b'"
  shows "filled (length bs) b' = bs"
  using assms by (auto simp: filled_def write_bytes_def split: if_splits)

lemma consumer_contents: "buffer_inv b \<Longrightarrow> consumed m b @ contents (consumer m b) = contents b"
  by (simp add: consumed_def consumer_def consume_contents)

fun in_flight_of :: "LinearBuffer \<Rightarrow> conn_handler \<Rightarrow> byte list" where
  "in_flight_of b (H_on_receive False n) = filled n b"
| "in_flight_of b _ = []"

text \<open>
  At most one receive is queued, outstanding or being completed, and while it is queued the flag
  \<open>start_receiving\<close> is set; an outstanding read has the free
  space behind the write index; and the bytes that have arrived are those taken, those in the
  buffer and those of a completed read, in this order.
\<close>

definition receive_ok ::
  "(LinearBuffer \<Rightarrow> nat) \<Rightarrow> byte list \<Rightarrow> byte list \<Rightarrow>
    LinearBuffer \<times> (nat \<times> nat) list \<times> conn_handler list \<times> (LinearBuffer \<Rightarrow> LinearBuffer) option \<times> bool \<Rightarrow> bool" where
  "receive_ok m arrived_bytes taken_bytes = (\<lambda>(b, rds, hs, cb, starting).
     buffer_inv b \<and> cb = Some (consumer m) \<and> length rds + length hs \<le> 1 \<and>
     (H_receive \<in> set hs \<longrightarrow> starting) \<and>
     (\<forall>p n. (p, n) \<in> set rds \<longrightarrow> p = head b \<and> n = writable b) \<and>
     (\<forall>n. H_on_receive False n \<in> set hs \<longrightarrow> n \<le> writable b) \<and>
     arrived_bytes = taken_bytes @ contents b @ concat (map (in_flight_of b) hs))"

definition receiver_inv :: "(LinearBuffer \<Rightarrow> nat) \<Rightarrow> Receiver \<Rightarrow> bool" where
  "receiver_inv m r \<longleftrightarrow> receive_ok m (arrived r) (taken r) (receive_part (conn r))"

lemma receive_part_frame [simp]:
  "f \<noteq> TCS_start_receiving \<Longrightarrow> receive_part (set_f f c) = receive_part c"
  "f \<noteq> TCS_start_receiving \<Longrightarrow> receive_part (clear_f f c) = receive_part c"
  "receive_part (c\<lparr>disconnected_callback := k\<rparr>) = receive_part c" "receive_part (c\<lparr>writes := ws\<rparr>) = receive_part c"
  "receive_part (c\<lparr>send_buffer := b\<rparr>) = receive_part c" "receive_part (c\<lparr>lost_calls := n\<rparr>) = receive_part c"
  "receive_part (c\<lparr>stopped_calls := ks\<rparr>) = receive_part c"
  "\<not> is_receive h \<Longrightarrow> receive_part (post h c) = receive_part c"
  by (simp_all add: receive_part_def)

lemma receive_part_resolve [simp]: "receive_part (resolve_on_stopped c) = receive_part c"
  by (simp add: resolve_on_stopped_def split: option.split)

lemma receive_part_send [simp]:
  "receive_part (async_send c) = receive_part c" "receive_part (send_posted c) = receive_part c"
  "receive_part (on_send e n c) = receive_part c"
  by (simp_all add: async_send_def send_posted_def on_send_def Let_def split: prod.split)

lemma receive_part_posted:
  "receive_part (c\<lparr>posted := hs\<rparr>) = (receive_buffer c, reads c, filter is_receive hs, data_received_callback c,
    get TCS_start_receiving c)"
  by (simp add: receive_part_def)

text \<open>Starting the next read.\<close>

lemma receive_ok_async:
  assumes "receive_ok m a t (receive_part c)" and "reads c = []" and "filter is_receive (posted c) = []"
  shows "receive_ok m a t (receive_part (async_receive c))"
proof -
  have inv: "buffer_inv (receive_buffer c)" using assms(1) by (simp add: receive_ok_def receive_part_def)
  have "receive_ok m a t (receive_part (c\<lparr>reads := [(head (receive_buffer c), writable (receive_buffer c))]\<rparr>))"
    using assms by (simp add: receive_ok_def receive_part_def)
  then have "receive_ok m a t (receive_part (clear_f TCS_start_receiving c
      \<lparr>reads := [(head (receive_buffer c), writable (receive_buffer c))]\<rparr>))"
    using assms(3) by (simp add: receive_part_def receive_ok_def clear_f_def)
  moreover have "receive_ok m a t (receive_part (clear_f TCS_start_receiving c))"
    using assms(1,3) by (simp add: receive_ok_def receive_part_def)
  ultimately show ?thesis using assms
    by (simp add: async_receive_def Let_def get_write_head_eq)
qed

lemma on_receive_ok:
  assumes "receiver_inv m r" and "posted (conn r) = hs @ H_on_receive False n # hs'"
  shows "receiver_inv m (r\<lparr>conn := on_receive False n ((conn r)\<lparr>posted := hs @ hs'\<rparr>),
    taken := taken r @ consumed m (snd (commit n (receive_buffer (conn r))))\<rparr>)"
proof -
  let ?b = "receive_buffer (conn r)"
  let ?b' = "snd (commit n ?b)"
  have ok: "buffer_inv ?b" "data_received_callback (conn r) = Some (consumer m)" "reads (conn r) = []" "n \<le> writable ?b"
      "filter is_receive hs = []" "filter is_receive hs' = []" "arrived r = taken r @ contents ?b @ filled n ?b"
    using assms by (simp_all add: receiver_inv_def receive_ok_def receive_part_def)
  have inv: "buffer_inv ?b'" using ok(1) by (rule commit_inv)
  have "arrived r = taken r @ consumed m ?b' @ contents (consumer m ?b')"
    using ok(7) commit_contents [OF ok(1,4)] by (simp add: consumer_contents [OF inv])
  moreover have "buffer_inv (consumer m ?b')" using inv by (simp add: consumer_def consume_inv)
  ultimately have "receive_ok m (arrived r) (taken r @ consumed m ?b')
      (receive_part (async_receive ((conn r)\<lparr>posted := hs @ hs', receive_buffer := consumer m ?b'\<rparr>)))"
    using ok(2,3,5,6) by (intro receive_ok_async) (simp_all add: receive_ok_def receive_part_def)
  with ok(2) show ?thesis by (simp add: receiver_inv_def on_receive_def Let_def)
qed

lemma handler_ok:
  assumes "receiver_inv m r" and "posted (conn r) = hs @ h # hs'"
  shows "receiver_inv m (r\<lparr>conn := run_handler h ((conn r)\<lparr>posted := hs @ hs'\<rparr>),
    taken := taken r @ taken_by m h (receive_buffer (conn r))\<rparr>)"
proof -
  let ?c = "(conn r)\<lparr>posted := hs @ hs'\<rparr>"
  have drop: "receive_ok m (arrived r) (taken r) (receive_part ?c)" if "\<forall>n. h \<noteq> H_on_receive False n"
    using assms that by (cases h) (auto simp: receiver_inv_def receive_ok_def receive_part_def)
  show ?thesis
  proof (cases h)
    case H_cancel
    have "receive_ok m (arrived r) (taken r) (receive_part (socket_cancel ?c))"
      using drop H_cancel
      by (cases "reads (conn r)") (auto simp: socket_cancel_def receive_ok_def receive_part_def filter_map comp_def split_def)
    with H_cancel show ?thesis by (simp add: receiver_inv_def cancel_async_operations_def)
  next
    case H_receive
    have "reads (conn r) = []" "filter is_receive (hs @ hs') = []"
      using assms H_receive by (simp_all add: receiver_inv_def receive_ok_def receive_part_def)
    with drop H_receive show ?thesis by (simp add: receiver_inv_def receive_ok_async)
  next
    case (H_on_receive e n)
    show ?thesis
    proof (cases e)
      case True
      with drop H_on_receive show ?thesis by (simp add: receiver_inv_def on_receive_def Let_def)
    next
      case False
      with on_receive_ok [OF assms(1)] assms(2) H_on_receive show ?thesis by simp
    qed
  qed (use drop in \<open>simp_all add: receiver_inv_def\<close>)
qed

lemma read_done_ok:
  assumes "receiver_inv m r" and "reads (conn r) = rs @ (p, n) # rs'" and "length bs \<le> n"
    and "write_bytes p bs (receive_buffer (conn r)) = Some b"
  shows "receiver_inv m (r\<lparr>conn := post (H_on_receive False (length bs)) ((conn r)\<lparr>receive_buffer := b, reads := rs @ rs'\<rparr>),
    arrived := arrived r @ bs\<rparr>)"
proof -
  let ?b = "receive_buffer (conn r)"
  have ok: "buffer_inv ?b" "data_received_callback (conn r) = Some (consumer m)" "rs @ rs' = []"
      "filter is_receive (posted (conn r)) = []" "p = head ?b" "n = writable ?b" "arrived r = taken r @ contents ?b"
    using assms(1,2) by (simp_all add: receiver_inv_def receive_ok_def receive_part_def)
  note w = assms(4) [unfolded ok(5)]
  show ?thesis
    using write_bytes_frame [OF ok(1) w] write_bytes_inv [OF ok(1) w] write_filled [OF w] ok assms(3)
    by (simp add: receiver_inv_def receive_ok_def receive_part_def post_def)
qed

text \<open>With the flag cleared and no completion waiting, nothing about receiving is queued.\<close>

lemma no_receive_queued:
  assumes "receiver_inv m r" and "filter is_on_receive (posted (conn r)) = []"
    and "\<not> get TCS_start_receiving (conn r)"
  shows "filter is_receive (posted (conn r)) = []"
proof -
  have "H_receive \<notin> set (posted (conn r))"
    using assms(1,3) by (auto simp: receiver_inv_def receive_ok_def receive_part_def)
  moreover have "H_on_receive e n \<notin> set (posted (conn r))" for e n
    using assms(2) by (auto simp: filter_empty_conv)
  ultimately show ?thesis by (auto simp: filter_empty_conv elim!: is_receive.elims(2))
qed

lemma receive_step_inv:
  assumes "receive_step m r r'" and "receiver_inv m r"
  shows "receiver_inv m r'"
  using assms(1)
proof cases
  case start
  have "filter is_receive (posted (conn r)) = []" if "\<not> get TCS_start_receiving (conn r)"
    using assms(2) start(3) that by (rule no_receive_queued)
  with assms(2) start show ?thesis
    by (auto simp: receiver_inv_def receive_ok_def receive_part_def start_receiving_def filter_empty_conv)
next
  case (other c)
  with assms(2) show ?thesis by (simp add: receiver_inv_def)
next
  case (handler hs h hs')
  with handler_ok [OF assms(2)] show ?thesis by simp
next
  case (read_done rs p n rs' bs b)
  with read_done_ok [OF assms(2)] show ?thesis by simp
next
  case (read_failed rs p n rs')
  with assms(2) show ?thesis
    by (auto simp: receiver_inv_def receive_ok_def receive_part_def post_def)
qed

lemma receive_init_inv: "receive_init m r \<Longrightarrow> receiver_inv m r"
  by (auto simp: receive_init_def receiver_inv_def receive_ok_def receive_part_def TcpConnection_new_def
      contents_def LinearBuffer_new_def) (simp add: buffer_inv_def)

interpretation receiver: invariant_system "receive_init m" "receive_step m" "receiver_inv m" for m
  by unfold_locales (auto intro: receive_init_inv receive_step_inv)

section \<open>Two connections\<close>

text \<open>
  The network carries what the sending connection writes to the receiving one in order: what has
  arrived is always a prefix of what is on the wire. Either connection does anything else in any
  order.
\<close>

record Channel =
  sender :: Conn
  receiver :: Receiver

inductive channel_step :: "(LinearBuffer \<Rightarrow> nat) \<Rightarrow> Channel \<Rightarrow> Channel \<Rightarrow> bool" for m where
  sending: "conn_step (sender ch) s \<Longrightarrow> channel_step m ch (ch\<lparr>sender := s\<rparr>)"
| receiving: "receive_step m (receiver ch) r \<Longrightarrow> prefix (arrived r) (wire (sender ch)) \<Longrightarrow> channel_step m ch (ch\<lparr>receiver := r\<rparr>)"

definition channel_init :: "(LinearBuffer \<Rightarrow> nat) \<Rightarrow> Channel \<Rightarrow> bool" where
  "channel_init m ch \<longleftrightarrow> conn_init (sender ch) \<and> receive_init m (receiver ch)"

lemma wire_handler: "wire (run_handler h c) = wire c"
  by (cases h) (auto simp: cancel_async_operations_def socket_cancel_def async_receive_def send_posted_def async_send_def
      on_receive_def on_send_def resolve_on_stopped_def set_f_def clear_f_def post_def Let_def split: option.split prod.split)

lemma wire_grows:
  assumes "conn_step c c'"
  shows "prefix (wire c) (wire c')"
  using assms
  by cases (simp_all add: wire_handler call_queue_send_function_def start_sending_def start_receiving_def connection_stop_def async_stop_def
      post_def set_f_def setter_defs)

definition channel_inv :: "(LinearBuffer \<Rightarrow> nat) \<Rightarrow> Channel \<Rightarrow> bool" where
  "channel_inv m ch \<longleftrightarrow> reachable conn_init conn_step (sender ch) \<and> reachable (receive_init m) (receive_step m) (receiver ch) \<and>
     prefix (arrived (receiver ch)) (wire (sender ch))"

lemma channel_step_inv:
  assumes "channel_step m ch ch'" and "channel_inv m ch"
  shows "channel_inv m ch'"
  using assms(1)
proof cases
  case (sending s)
  with assms(2) wire_grows [OF sending(2)] show ?thesis
    by (auto simp: channel_inv_def intro: reachable.more prefix_order.trans)
next
  case (receiving r)
  with assms(2) show ?thesis by (auto simp: channel_inv_def intro: reachable.more)
qed

interpretation channel: invariant_system "channel_init m" "channel_step m" "channel_inv m" for m
proof unfold_locales
  fix ch ch' :: Channel
  show "channel_inv m ch" if "channel_init m ch"
  proof -
    have "arrived (receiver ch) = []" using that by (auto simp: channel_init_def receive_init_def)
    with that show ?thesis by (simp add: channel_init_def channel_inv_def reachable.start)
  qed
  show "channel_inv m ch'" if "channel_inv m ch" "channel_step m ch ch'" using channel_step_inv that by blast
qed

lemma wire_prefix:
  assumes "reachable conn_init conn_step c" and "\<not> write_failed c"
  shows "prefix (wire c) (queued c)"
proof -
  have "send_inv c" using conn_reachable [OF assms(1)] by simp
  with assms(2) obtain d where "stream_ok (send_buffer c) d (wire c) (queued c)" by (auto simp: send_inv_def send_ok_def)
  then show ?thesis by (auto simp: stream_ok_def take_is_prefix)
qed

section \<open>Properties\<close>

text \<open>Property C10. The receiving side neither loses, duplicates nor reorders bytes: at any moment what
  the system has delivered is what the data callback has taken, then the readable bytes of the
  receive buffer, then those of at most one completed read whose handler is still to run; and at
  most one read is outstanding, over the free space of the buffer. This is for a user who does not
  call \<open>start_receiving\<close> while the system holds a read or a completion waits for its
  handler; the class does not enforce that (\<open>tcp_connection_double_read\<close>: without it two
  reads of the same space are possible). Repeated calls before the first one's handler runs are
  allowed and refused by the flag.\<close>

theorem tcp_connection_received:
  assumes "reachable (receive_init m) (receive_step m) r"
  shows "(\<exists>rest. arrived r = taken r @ contents (receive_buffer (conn r)) @ rest \<and>
      (filter is_receive (posted (conn r)) = [] \<longrightarrow> rest = [])) \<and>
    length (reads (conn r)) + length (filter is_receive (posted (conn r))) \<le> 1 \<and>
    (\<forall>p n. (p, n) \<in> set (reads (conn r)) \<longrightarrow> p = head (receive_buffer (conn r)) \<and> n = writable (receive_buffer (conn r)))"
  using receiver.reachable_inv [OF assms] by (auto simp: receiver_inv_def receive_ok_def receive_part_def)

text \<open>Property C9. Messages over the network: when the sender has queued what the multiplexer wrote
  for a list of messages and no write has failed, every message that has arrived completely in the
  receive buffer of the other connection, behind those whose bytes the data callback has taken, is
  given back by the demultiplexer, in order and unchanged, whatever the two connections and the
  system did in between. The receiving user keeps the rule of \<open>receive_step\<close>:
  \<open>start_receiving\<close> is not called while a read is outstanding or its completion waits.\<close>

theorem channel_messages:
  assumes "reachable (channel_init m) (channel_step m) ch" and "\<not> write_failed (sender ch)"
    and "list_all (wf_message e types) (ms0 @ ms1 @ ms2)" and "length types \<le> max_types"
    and "buffer_inv b0" and "contents b0 = []"
    and "length (concat (map (message_frame e types) (ms0 @ ms1 @ ms2))) \<le> writable b0"
    and "mux_all e types (ms0 @ ms1 @ ms2) b0 = Some (oks, b1)" and "queued (sender ch) = contents b1"
    and "taken (receiver ch) = concat (map (message_frame e types) ms0)"
    and "length (concat (map (message_frame e types) ms1)) \<le> length (contents (receive_buffer (conn (receiver ch))))"
  shows "\<exists>b2. demux_all e types (length ms1) (receive_buffer (conn (receiver ch))) =
    Some (map (\<lambda>t. (True, message_index types t, snd t)) ms1, b2)"
proof -
  let ?f = "\<lambda>ms. concat (map (message_frame e types) ms)"
  let ?b = "receive_buffer (conn (receiver ch))"
  have inv: "channel_inv m ch" by (rule channel.reachable_inv [OF assms(1)])
  then have "receiver_inv m (receiver ch)" using receiver.reachable_inv by (auto simp: channel_inv_def)
  then have b: "buffer_inv ?b" and arrived: "prefix (taken (receiver ch) @ contents ?b) (arrived (receiver ch))"
    by (auto simp: receiver_inv_def receive_ok_def receive_part_def)
  have "prefix (arrived (receiver ch)) (queued (sender ch))"
    using inv wire_prefix assms(2) by (auto simp: channel_inv_def intro: prefix_order.trans)
  moreover have "contents b1 = ?f (ms0 @ ms1 @ ms2)"
    using mux_all_fits [OF assms(3,5,7)] assms(6,8) by (auto simp: appended_def)
  ultimately have "prefix (taken (receiver ch) @ contents ?b) (?f (ms0 @ ms1 @ ms2))"
    using assms(9) prefix_order.trans [OF arrived] by simp
  then have "prefix (contents ?b) (?f ms1 @ ?f ms2)" using assms(10) by simp
  then have "prefix (?f ms1) (contents ?b)"
    using prefix_length_prefix [OF _ _ assms(11), of "?f ms1 @ ?f ms2"] by simp
  then obtain rest where "contents ?b = ?f ms1 @ rest" by (auto simp: prefix_def)
  with demux_all_front [of e types ms1 ?b rest] assms(3,4) b show ?thesis by auto
qed

section \<open>Instances\<close>

lemma arrived_grows: "receive_step m r r' \<Longrightarrow> prefix (arrived r) (arrived r')"
  by (erule receive_step.cases) simp_all

text \<open>Any two reachable ends between which the bytes are in order make a reachable channel.\<close>

lemma channel_reachable:
  assumes "reachable conn_init conn_step s" and "reachable (receive_init m) (receive_step m) r" and "prefix (arrived r) (wire s)"
  shows "reachable (channel_init m) (channel_step m) \<lparr>sender = s, receiver = r\<rparr>"
  using assms(2,3)
proof (induction rule: reachable.induct)
  case (start r)
  from assms(1) show ?case
  proof (induction rule: reachable.induct)
    case (start s)
    with \<open>receive_init m r\<close> show ?case by (intro reachable.start) (simp add: channel_init_def)
  next
    case (more s s')
    from reachable.more [OF more.IH channel_step.sending] more.hyps(2) show ?case by simp
  qed
next
  case (more r r')
  have "prefix (arrived r) (wire s)" using arrived_grows [OF more.hyps(2)] more.prems by (rule prefix_order.trans)
  then have "reachable (channel_init m) (channel_step m) \<lparr>sender = s, receiver = r\<rparr>" by (rule more.IH)
  from reachable.more [OF this channel_step.receiving, of r'] more.hyps(2) more.prems show ?case by simp
qed

text \<open>One message \<open>[0, 0, 0]\<close> (type index 0, no payload) sent and received.\<close>

definition sending_example :: Conn where
  "sending_example = run_next (start_sending ((call_queue_send_function (append_bytes [0, 0, 0]) (TcpConnection_new 4 4 False None))
     \<lparr>queued := [0, 0, 0]\<rparr>))"

definition sent_example :: Conn where
  "sent_example = post (H_on_send False 3) (sending_example\<lparr>wire := [0, 0, 0], writes := []\<rparr>)"

lemma append_zeros: "append_bytes [0, 0, 0] (LinearBuffer_new 4) = \<lparr>buffer = [0, 0, 0, 0], head = 3, tail = 0, bsize = 3\<rparr>"
  by code_simp

lemma sending_example_state:
  "writes sending_example = [(0, 3, 0)]" "wire sending_example = []" "queued sending_example = [0, 0, 0]"
  "send_buffer sending_example = \<lparr>buffer = [0, 0, 0, 0], head = 3, tail = 0, bsize = 3\<rparr>" "\<not> write_failed sending_example"
  by (simp_all add: sending_example_def append_zeros call_queue_send_function_def TcpConnection_new_def
      start_sending_def run_next_def send_posted_def async_send_def get_read_head_def Let_def post_def set_f_def
      clear_f_def conn_flags.flag_laws)

lemma sent_example_reachable: "reachable conn_init conn_step sent_example"
proof -
  let ?c = "TcpConnection_new 4 4 False None"
  have "conn_step ?c ((call_queue_send_function (append_bytes [0, 0, 0]) ?c)\<lparr>queued := queued ?c @ [0, 0, 0]\<rparr>)"
    by (rule conn_step.queue) (simp add: TcpConnection_new_def writable_new)
  moreover have "queued ?c = []" by (simp add: TcpConnection_new_def)
  moreover have "reachable conn_init conn_step ?c" by (rule reachable_new) (simp add: keeps_buffer_def)
  ultimately have "reachable conn_init conn_step sending_example"
    unfolding sending_example_def by (intro reachable_run_next reachable_calls) (auto intro: reachable.more)
  moreover have "conn_step sending_example (post (H_on_send False 3)
      (sending_example\<lparr>wire := wire sending_example @ [0, 0, 0], writes := [] @ []\<rparr>))"
    by (rule conn_step.write_done [where p = 0 and sent = 0 and n = 3]) (simp_all add: sending_example_state read_bytes_def)
  ultimately show ?thesis unfolding sent_example_def using sending_example_state(2) by (auto intro: reachable.more)
qed

definition receiver_new :: Receiver where
  "receiver_new = \<lparr>conn = TcpConnection_new 4 4 False (Some (consumer (\<lambda>_. 0))), arrived = [], taken = []\<rparr>"

definition received_example :: Receiver where
  "received_example =
     (let c = start_receiving (conn receiver_new);
          c = run_handler H_receive (c\<lparr>posted := []\<rparr>);
          c = c\<lparr>receive_buffer := \<lparr>buffer = [0, 0, 0, 0], head = 0, tail = 0, bsize = 0\<rparr>, reads := []\<rparr>;
          c = run_handler (H_on_receive False 3) c
      in \<lparr>conn = c, arrived = [0, 0, 0], taken = []\<rparr>)"

lemmas receive_run_defs = receiver_new_def TcpConnection_new_def start_receiving_def post_def set_f_def clear_f_def
  async_receive_def on_receive_def get_write_head_def commit_def consume_def reset_if_empty_def consumer_def consumed_def
  LinearBuffer_new_def Let_def conn_flags.flag_laws

lemma received_example_state:
  "receive_buffer (conn received_example) = \<lparr>buffer = [0, 0, 0, 0], head = 3, tail = 0, bsize = 3\<rparr>"
  "taken received_example = []" "arrived received_example = [0, 0, 0]" "posted (conn received_example) = []"
  by (simp_all add: received_example_def receive_run_defs)

lemma received_example_reachable:
  "reachable (receive_init (\<lambda>_. 0)) (receive_step (\<lambda>_. 0)) received_example"
proof -
  let ?m = "\<lambda>_ :: LinearBuffer. 0 :: nat"
  let ?r1 = "receiver_new\<lparr>conn := start_receiving (conn receiver_new)\<rparr>"
  let ?r2 = "?r1\<lparr>conn := run_handler H_receive ((conn ?r1)\<lparr>posted := [] @ []\<rparr>),
    taken := taken ?r1 @ taken_by ?m H_receive (receive_buffer (conn ?r1))\<rparr>"
  let ?b = "\<lparr>buffer = [0, 0, 0, 0], head = 0, tail = 0, bsize = 0\<rparr>"
  let ?r3 = "?r2\<lparr>conn := post (H_on_receive False (length [0 :: byte, 0, 0])) ((conn ?r2)\<lparr>receive_buffer := ?b, reads := [] @ []\<rparr>),
    arrived := arrived ?r2 @ [0, 0, 0]\<rparr>"
  let ?r4 = "?r3\<lparr>conn := run_handler (H_on_receive False 3) ((conn ?r3)\<lparr>posted := [] @ []\<rparr>),
    taken := taken ?r3 @ taken_by ?m (H_on_receive False 3) (receive_buffer (conn ?r3))\<rparr>"
  have "reachable (receive_init ?m) (receive_step ?m) receiver_new"
    by (rule reachable.start) (auto simp: receive_init_def receiver_new_def)
  moreover have "receive_step ?m receiver_new ?r1" by (rule receive_step.start) (simp_all add: receive_run_defs)
  moreover have "receive_step ?m ?r1 ?r2" by (rule receive_step.handler) (simp add: receive_run_defs)
  moreover have "receive_step ?m ?r2 ?r3"
    by (rule receive_step.read_done [where p = 0 and n = 4])
      (simp_all add: receive_run_defs write_bytes_def numeral_eq_Suc)
  moreover have "receive_step ?m ?r3 ?r4" by (rule receive_step.handler) (simp add: receive_run_defs)
  ultimately have "reachable (receive_init ?m) (receive_step ?m) ?r4" by (blast intro: reachable.more)
  moreover have "?r4 = received_example" by (simp add: received_example_def receive_run_defs)
  ultimately show ?thesis by simp
qed

theorem tcp_connection_received_witness: "arrived received_example = [] @ [0, 0, 0] @ []"
  using tcp_connection_received [OF received_example_reachable] received_example_state
  by (simp add: contents_def numeral_eq_Suc)

definition example_types :: "string registry" where
  "example_types = [(''A'', Struct [])]"

theorem channel_messages_witness:
  "\<exists>b. demux_all Little_endian example_types 1 (receive_buffer (conn received_example)) = Some ([(True, 0, Struct [])], b)"
proof -
  let ?ch = "\<lparr>sender = sent_example, receiver = received_example\<rparr>"
  let ?ms = "[(''A'', Struct [])]"
  have frame: "message_frame Little_endian example_types (''A'', Struct []) = [0, 0, 0]"
    by (simp add: message_frame_def message_index_def frame_def obj_bytes_def header_bytes_def example_types_def)
  have ch: "reachable (channel_init (\<lambda>_. 0)) (channel_step (\<lambda>_. 0)) ?ch"
    by (rule channel_reachable [OF sent_example_reachable received_example_reachable])
      (simp add: received_example_state sent_example_def post_def)
  let ?all = "[] @ ?ms @ []"
  have wf: "list_all (wf_message Little_endian example_types) ?all"
    by (simp add: wf_message_def obj_bytes_def max_payload_size_def example_types_def)
  have pack: "length example_types \<le> max_types" by (simp add: example_types_def max_types_def)
  have empty: "contents (LinearBuffer_new 4) = []" by (simp add: contents_def LinearBuffer_new_def)
  have room: "length (concat (map (message_frame Little_endian example_types) ?all)) \<le> writable (LinearBuffer_new 4)"
    by (simp add: frame writable_new)
  obtain b1 where mux: "mux_all Little_endian example_types ?all (LinearBuffer_new 4) = Some (replicate (length ?all) True, b1)"
      "appended (concat (map (message_frame Little_endian example_types) ?all)) (LinearBuffer_new 4) b1"
    using mux_all_fits [OF wf buffer_inv_new room] by blast
  have sent: "\<not> write_failed (sender ?ch)" "queued (sender ?ch) = contents b1"
    using mux(2) empty by (simp_all add: sent_example_def post_def sending_example_state appended_def frame)
  have received: "taken (receiver ?ch) = concat (map (message_frame Little_endian example_types) [])"
      "length (concat (map (message_frame Little_endian example_types) ?ms)) \<le> length (contents (receive_buffer (conn (receiver ?ch))))"
    by (simp_all add: received_example_state frame contents_def)
  from channel_messages [OF ch sent(1) wf pack buffer_inv_new empty room mux(1) sent(2) received]
  obtain b where "demux_all Little_endian example_types (length ?ms) (receive_buffer (conn received_example)) =
      Some (map (\<lambda>t. (True, message_index example_types t, snd t)) ?ms, b)" by auto
  then show ?thesis by (simp add: message_index_def example_types_def)
qed

end
