(* ===== verification/Stop_Spec.thy ===== *)
theory Stop_Spec
  imports Transitions
begin

text \<open>
  The contract of \<open>async_stop\<close> as an automaton, and the rule that proves that a component implements
  it: under every interleaving of its steps the component is running, owes the one callback it was
  given, or has called it, and goes through these phases in this order.
\<close>

section \<open>The contract\<close>

datatype stop_phase = Running | Owing nat | Stopped

text \<open>The phase and the callbacks called so far. \<open>again\<close>: the component has a \<open>reset\<close>.\<close>

inductive stop_spec :: "bool \<Rightarrow> stop_phase \<times> nat list \<Rightarrow> stop_phase \<times> nat list \<Rightarrow> bool" for again where
  other: "stop_spec again a a"
| request: "stop_spec again (Running, ks) (Owing k, ks)"
| call: "stop_spec again (Owing k, ks) (Stopped, ks @ [k])"
| reset: "again \<Longrightarrow> stop_spec again (Stopped, ks) (Running, ks)"

definition phase_of :: "bool \<Rightarrow> nat list \<Rightarrow> stop_phase" where
  "phase_of signaled waiting =
     (if \<not> signaled then Running else case waiting of [] \<Rightarrow> Stopped | k # _ \<Rightarrow> Owing k)"

text \<open>The callbacks not yet called: the registered one and those posted to the \<open>io_context\<close>.\<close>

definition waiting_for :: "nat option \<Rightarrow> ('h \<Rightarrow> nat option) \<Rightarrow> 'h list \<Rightarrow> nat list" where
  "waiting_for registered stopped q = (case registered of None \<Rightarrow> [] | Some k \<Rightarrow> [k]) @ List.map_filter stopped q"

text \<open>
  A component refines the contract when its initial states are running, each of its steps from a
  reachable state is one of the contract's or leaves the contract's state alone, and its \<open>async_stop\<close>
  is accepted at most when it is running: the call registers the callback if it returns true and
  changes nothing if it returns false.
\<close>

definition refines_stop ::
  "('s \<Rightarrow> bool) \<Rightarrow> ('s \<Rightarrow> 's \<Rightarrow> bool) \<Rightarrow> (nat \<Rightarrow> 's \<Rightarrow> bool \<times> 's) \<Rightarrow> ('s \<Rightarrow> stop_phase \<times> nat list) \<Rightarrow> bool \<Rightarrow> bool" where
  "refines_stop init step stop view again \<longleftrightarrow>
     (\<forall>s. init s \<longrightarrow> view s = (Running, [])) \<and>
     (\<forall>s s'. reachable init step s \<and> step s s' \<longrightarrow> stop_spec again (view s) (view s')) \<and>
     (\<forall>s k. reachable init step s \<longrightarrow>
        (if fst (stop k s) then \<exists>ks. view s = (Running, ks) \<and> view (snd (stop k s)) = (Owing k, ks)
         else snd (stop k s) = s))"

section \<open>The proof rule\<close>

text \<open>What a step does to the flag, to the callbacks not yet called and to those called.\<close>

inductive stop_effect ::
  "bool \<Rightarrow> bool \<times> nat multiset \<times> nat list \<Rightarrow> bool \<times> nat multiset \<times> nat list \<Rightarrow> bool" for again where
  keeps: "stop_effect again a a"
| registers: "stop_effect again (False, w, ks) (True, add_mset k w, ks)"
| calls: "stop_effect again (b, add_mset k w, ks) (b, w, ks @ [k])"
| resets: "again \<Longrightarrow> stop_effect again (b, {#}, ks) (False, {#}, ks)"

locale stop_implementation = invariant_system +
  fixes stop :: "nat \<Rightarrow> 'a \<Rightarrow> bool \<times> 'a" and signaled :: "'a \<Rightarrow> bool" and waiting called :: "'a \<Rightarrow> nat list" and again :: bool
  assumes fresh: "init s \<Longrightarrow> \<not> signaled s \<and> waiting s = [] \<and> called s = []"
    and effect: "inv s \<Longrightarrow> step s s' \<Longrightarrow>
      stop_effect again (signaled s, mset (waiting s), called s) (signaled s', mset (waiting s'), called s')"
    and accepted: "fst (stop k s) \<Longrightarrow> \<not> signaled s \<and> signaled (snd (stop k s)) \<and>
      (waiting s = [] \<longrightarrow> waiting (snd (stop k s)) = [k]) \<and> called (snd (stop k s)) = called s"
    and refused: "\<not> fst (stop k s) \<Longrightarrow> snd (stop k s) = s"
begin

abbreviation stop_state :: "'a \<Rightarrow> stop_phase \<times> nat list" where
  "stop_state s \<equiv> (phase_of (signaled s) (waiting s), called s)"

text \<open>At most one callback waits, and none while no stop is signaled.\<close>

lemma waiting_bound: "reachable init step s \<Longrightarrow> length (waiting s) \<le> of_bool (signaled s)"
proof (induction rule: reachable.induct)
  case (start s)
  then show ?case by (simp add: fresh)
next
  case (more s s')
  have "size (mset (waiting s')) \<le> of_bool (signaled s')"
    using effect [OF reachable_inv [OF more.hyps(1)] more.hyps(2)] more.IH
    by (cases rule: stop_effect.cases) (auto simp flip: size_mset split: if_splits)
  then show ?case by simp
qed

lemma step_refines:
  assumes "reachable init step s" and "step s s'"
  shows "stop_spec again (stop_state s) (stop_state s')"
  using effect [OF reachable_inv [OF assms(1)] assms(2)]
proof (cases rule: stop_effect.cases)
  case keeps
  have "length (waiting s) \<le> 1" using waiting_bound [OF assms(1)] by (cases "signaled s") simp_all
  with keeps have "waiting s' = waiting s"
    by (cases "waiting s"; cases "waiting s'") auto
  with keeps show ?thesis by (auto intro: stop_spec.other)
next
  case (registers k)
  with waiting_bound [OF assms(1)] have "waiting s = []" by simp
  with registers have "waiting s' = [k]" by simp
  with registers \<open>waiting s = []\<close> show ?thesis by (auto simp: phase_of_def intro: stop_spec.request)
next
  case (calls k)
  have "size (mset (waiting s)) \<le> of_bool (signaled s)" using waiting_bound [OF assms(1)] by simp
  with calls have "signaled s" "mset (waiting s') = {#}" by (cases "signaled s"; simp)+
  with calls have "waiting s = [k]" "waiting s' = []" by simp_all
  with calls \<open>signaled s\<close> show ?thesis by (auto simp: phase_of_def intro: stop_spec.call)
next
  case resets
  then show ?thesis by (auto simp: phase_of_def intro: stop_spec.intros)
qed

lemma stop_refines:
  "reachable init step s \<Longrightarrow>
    if fst (stop k s) then \<exists>ks. stop_state s = (Running, ks) \<and> stop_state (snd (stop k s)) = (Owing k, ks)
    else snd (stop k s) = s"
  using accepted [of k s] refused [of k s] waiting_bound [of s] by (auto simp: phase_of_def)

lemma refines: "refines_stop init step stop stop_state again"
  unfolding refines_stop_def
proof (intro conjI allI impI)
  show "init s \<Longrightarrow> stop_state s = (Running, [])" for s using fresh by (simp add: phase_of_def)
qed (use step_refines stop_refines in blast)+

end

text \<open>The lists of handlers.\<close>

lemma map_filter_append: "List.map_filter f (p @ q) = List.map_filter f p @ List.map_filter f q"
  by (simp add: List.map_filter_def)

lemma map_filter_none:
  "f h = None \<Longrightarrow> List.map_filter f (replicate n h) = []"
  "(\<And>x. f (g x) = None) \<Longrightarrow> List.map_filter f (map g xs) = []"
  by (induction n) (simp_all add: map_filter_simps, induction xs, simp_all add: map_filter_simps)

lemma no_waiting:
  assumes "jobs P q = 0" and "\<And>h. f h \<noteq> None \<Longrightarrow> P h"
  shows "waiting_for None f q = []"
proof -
  have "f h = None" if "h \<in> set q" for h using assms that by (cases "f h") (auto simp: jobs_0)
  then show ?thesis by (simp add: waiting_for_def List.map_filter_def filter_empty_conv)
qed

lemmas waiting_simps = waiting_for_def map_filter_simps map_filter_append map_filter_none

end
