(* ===== verification/Draining.thy ===== *)
theory Draining
  imports Transitions
begin

text \<open>
  Components that drain once a stop was requested: a potential bounds how many handlers and
  completions can still run, whatever the scheduling, and as long as a callback is missing there is
  one that can. \<open>inputs\<close> counts the work that arrives from outside.
\<close>

locale draining =
  fixes internal :: "'s \<Rightarrow> 's \<Rightarrow> bool" and stopping :: "'s \<Rightarrow> bool" and requests called :: "'s \<Rightarrow> nat"
    and work inputs :: "'s \<Rightarrow> nat"
  assumes stopping_stays: "stopping s \<Longrightarrow> internal s s' \<Longrightarrow> stopping s'"
    and work_decreases: "stopping s \<Longrightarrow> internal s s' \<Longrightarrow> work s' + inputs s < work s + inputs s'"
    and requests_stay: "stopping s \<Longrightarrow> internal s s' \<Longrightarrow> requests s' = requests s"
    and called_at_most: "stopping s \<Longrightarrow> called s \<le> requests s"
    and enabled: "stopping s \<Longrightarrow> called s < requests s \<Longrightarrow> \<exists>s'. internal s s'"
begin

lemma run_bounded:
  assumes "stopping s" and "(internal ^^ n) s s'"
  shows "stopping s' \<and> requests s' = requests s \<and> n + work s' + inputs s \<le> work s + inputs s'"
  using assms(2)
proof (induction n arbitrary: s')
  case (Suc n)
  then obtain t where t: "(internal ^^ n) s t" "internal t s'" by auto
  with Suc.IH [OF t(1)] have "stopping t" "requests t = requests s" "n + work t + inputs s \<le> work s + inputs t"
    by simp_all
  then show ?case
    using stopping_stays [OF _ t(2)] requests_stay [OF _ t(2)] work_decreases [OF _ t(2)] by simp
qed (use assms in simp)

text \<open>Every run ends within the potential, and not before every callback has been called.\<close>

lemma drains:
  assumes "stopping s" and "(internal ^^ n) s s'"
  shows "n + inputs s \<le> work s + inputs s' \<and> called s' \<le> requests s \<and>
    (called s' < requests s \<longrightarrow> (\<exists>t. internal s' t))"
  using run_bounded [OF assms] called_at_most [of s'] enabled [of s'] by simp

text \<open>So only input without end can keep the component from coming to rest.\<close>

lemma infinite_run:
  assumes "stopping (f 0)" and "\<And>i. internal (f i) (f (Suc i))"
  shows "\<exists>i. m < inputs (f i)"
proof -
  have "(internal ^^ n) (f 0) (f n)" for n by (induction n) (use assms(2) in auto)
  from run_bounded [OF assms(1) this [of "Suc (work (f 0) + m)"]] show ?thesis
    by (intro exI [of _ "Suc (work (f 0) + m)"]) simp
qed

end

text \<open>The potential of a list of handlers.\<close>

definition total :: "('h \<Rightarrow> nat) \<Rightarrow> 'h list \<Rightarrow> nat" where
  "total f q = sum_list (map f q)"

lemma total_simps [simp]:
  "total f [] = 0" "total f (h # q) = f h + total f q" "total f (q @ r) = total f q + total f r"
  by (simp_all add: total_def)

lemma total_map_const [simp]: "total f (map (\<lambda>_. h) xs) = f h * length xs"
  by (induction xs) simp_all

lemma total_replicate [simp]: "total f (replicate n h) = f h * n"
  by (induction n) simp_all

text \<open>Short concrete runs.\<close>

lemma relpowp_2: "step a b \<Longrightarrow> step b c \<Longrightarrow> (step ^^ 2) a c"
  by (auto simp: numeral_2_eq_2)

lemma relpowp_3: "step a b \<Longrightarrow> step b c \<Longrightarrow> step c d \<Longrightarrow> (step ^^ 3) a d"
  by (auto simp: numeral_3_eq_3)

end
