(* ===== verification/Tcp_Server.thy ===== *)
theory Tcp_Server
  imports Tcp_Connection
begin

text \<open>
  \<open>eestv/net/connection/tcp_server.hpp\<close> and \<open>tcp_server_states.hpp\<close>: the accept loop and its stop
  protocol. Like the connection, every locked member function is one function on the state and
  every lambda given to \<open>boost::asio\<close> a constructor of the handler type.
\<close>

section \<open>State\<close>

datatype TcpServerState =
  TSS_start_signaled | TSS_stop_signaled | TSS_start_accepting | TSS_accepting | TSS_stopping

fun tss :: "TcpServerState \<Rightarrow> nat" where
  "tss TSS_start_signaled = 0"
| "tss TSS_stop_signaled = 1"
| "tss TSS_start_accepting = 2"
| "tss TSS_accepting = 3"
| "tss TSS_stopping = 4"

fun TcpServerState_to_string :: "TcpServerState \<Rightarrow> string" where
  "TcpServerState_to_string TSS_start_signaled = ''start_signaled''"
| "TcpServerState_to_string TSS_stop_signaled = ''stop_signaled''"
| "TcpServerState_to_string TSS_start_accepting = ''start_accepting''"
| "TcpServerState_to_string TSS_accepting = ''accepting''"
| "TcpServerState_to_string TSS_stopping = ''stopping''"

interpretation server_flags: flag_enum tss
proof
  show "tss a = tss b \<Longrightarrow> a = b" for a b by (cases a; cases b) simp_all
  show "tss a < 32" for a by (cases a) simp_all
qed

declare tss.simps [simp del]

text \<open>
  The handlers: the lambdas posted by \<open>async_start\<close> and
  \<open>async_stop\<close>, the completion of \<open>async_accept\<close> and the stopped callback.
\<close>

datatype server_handler = SH_accept | SH_cancel | SH_on_accept error_code | SH_stopped nat

text \<open>
  \<open>srv_accepts\<close> counts the accepts the system holds; \<open>srv_delivered\<close> are the connections given to
  the connection callback and \<open>srv_dropped\<close> those destroyed because there was none. The acceptor
  is opened by the constructor and no operation closes it. \<open>srv_accept_failed\<close> records that the
  system has completed an accept with an error that was not a cancellation.
\<close>

record Server =
  srv_flags :: Flags
  acceptor_is_open :: bool
  receive_buffer_size :: nat
  send_buffer_size :: nat
  connection_callback :: bool
  stopped_callback :: "nat option"
  srv_posted :: "server_handler list"
  srv_accepts :: nat
  srv_delivered :: "Conn list"
  srv_dropped :: nat
  srv_accept_failed :: bool
  srv_stopped_calls :: "nat list"

abbreviation sget :: "TcpServerState \<Rightarrow> Server \<Rightarrow> bool" where
  "sget f s \<equiv> get_flag (tss f) (srv_flags s)"

definition sset :: "TcpServerState \<Rightarrow> Server \<Rightarrow> Server" where
  "sset f s = s\<lparr>srv_flags := set_flag (tss f) (srv_flags s)\<rparr>"

definition sclear :: "TcpServerState \<Rightarrow> Server \<Rightarrow> Server" where
  "sclear f s = s\<lparr>srv_flags := clear_flag (tss f) (srv_flags s)\<rparr>"

definition spost :: "server_handler \<Rightarrow> Server \<Rightarrow> Server" where
  "spost h s = s\<lparr>srv_posted := srv_posted s @ [h]\<rparr>"

definition TcpServer_new :: "nat \<Rightarrow> nat \<Rightarrow> Server" where
  "TcpServer_new receive_size send_size =
     \<lparr>srv_flags = flags_init, acceptor_is_open = True, receive_buffer_size = receive_size,
      send_buffer_size = send_size, connection_callback = False, stopped_callback = None,
      srv_posted = [], srv_accepts = 0, srv_delivered = [], srv_dropped = 0,
      srv_accept_failed = False, srv_stopped_calls = []\<rparr>"

section \<open>Member functions\<close>

definition set_connection_callback :: "bool \<Rightarrow> Server \<Rightarrow> Server" where
  "set_connection_callback callback s = s\<lparr>connection_callback := callback\<rparr>"

definition is_running :: "Server \<Rightarrow> bool" where
  "is_running s = sget TSS_accepting s"

definition server_async_start :: "Server \<Rightarrow> bool \<times> Server" where
  "server_async_start s =
     (if sget TSS_start_signaled s \<or> sget TSS_stopping s then (False, s)
      else (True, spost SH_accept (sset TSS_start_accepting (sset TSS_start_signaled s))))"

definition server_async_stop :: "nat \<Rightarrow> Server \<Rightarrow> bool \<times> Server" where
  "server_async_stop on_stopped s =
     (if sget TSS_stop_signaled s \<or> \<not> sget TSS_start_signaled s then (False, s)
      else (True, spost SH_cancel
        (sset TSS_stopping ((sset TSS_stop_signaled s)\<lparr>stopped_callback := Some on_stopped\<rparr>))))"

definition server_resolve_on_stopped :: "Server \<Rightarrow> Server" where
  "server_resolve_on_stopped s =
     (if \<not> sget TSS_start_accepting s \<and> \<not> sget TSS_accepting s
      then
        (case stopped_callback s of
           None \<Rightarrow> s
         | Some k \<Rightarrow> spost (SH_stopped k) (s\<lparr>stopped_callback := None\<rparr>))
      else s)"

text \<open>\<open>stop\<close>, and so the destructor: the result says whether the caller waits for the callback.\<close>

definition server_stop :: "bool \<Rightarrow> nat \<Rightarrow> Server \<Rightarrow> bool \<times> Server" where
  "server_stop is_on_io_thread stopped s =
     (if is_on_io_thread then (False, s) else server_async_stop stopped s)"

definition acceptor_cancel :: "Server \<Rightarrow> Server" where
  "acceptor_cancel s =
     s\<lparr>srv_posted := srv_posted s @ replicate (srv_accepts s) (SH_on_accept Operation_aborted), srv_accepts := 0\<rparr>"

definition stop_posted :: "Server \<Rightarrow> Server" where
  "stop_posted s =
     (let s = sset TSS_stopping s
      in if acceptor_is_open s then acceptor_cancel s else server_resolve_on_stopped s)"

definition async_accept :: "Server \<Rightarrow> Server" where
  "async_accept s =
     (let s = sclear TSS_start_accepting s
      in if \<not> sget TSS_stopping s
         then (sset TSS_accepting s)\<lparr>srv_accepts := srv_accepts s + 1\<rparr>
         else server_resolve_on_stopped s)"

definition handle_accept :: "error_code \<Rightarrow> Server \<Rightarrow> Server" where
  "handle_accept error_code s =
     (if error_code \<noteq> No_error
      then server_resolve_on_stopped (sclear TSS_accepting s)
      else
        (let connection = TcpConnection_new (receive_buffer_size s) (send_buffer_size s) False None;
             s = (if connection_callback s then s\<lparr>srv_delivered := srv_delivered s @ [connection]\<rparr>
                  else s\<lparr>srv_dropped := srv_dropped s + 1\<rparr>)
         in if \<not> sget TSS_stopping s then async_accept s
            else server_resolve_on_stopped (sclear TSS_accepting s)))"

fun server_run_handler :: "server_handler \<Rightarrow> Server \<Rightarrow> Server" where
  "server_run_handler SH_accept s = async_accept s"
| "server_run_handler SH_cancel s = stop_posted s"
| "server_run_handler (SH_on_accept e) s = handle_accept e s"
| "server_run_handler (SH_stopped k) s = s\<lparr>srv_stopped_calls := srv_stopped_calls s @ [k]\<rparr>"

section \<open>Steps\<close>

text \<open>
  A call of the user, an accept completed by the system, or one of the queued handlers run by a
  thread of the \<open>io_context\<close>. In \<open>server_step True\<close> one thread runs the \<open>io_context\<close> and takes
  the handlers in order; in \<open>server_step False\<close> any number of threads takes them.
\<close>

inductive server_step :: "bool \<Rightarrow> Server \<Rightarrow> Server \<Rightarrow> bool" for one_thread where
  start: "server_step one_thread s (snd (server_async_start s))"
| stop: "server_step one_thread s (snd (server_stop io_thread k s))"
| callback: "server_step one_thread s (set_connection_callback b s)"
| handler: "srv_posted s = hs @ h # hs' \<Longrightarrow> one_thread \<longrightarrow> hs = [] \<Longrightarrow>
    server_step one_thread s (server_run_handler h (s\<lparr>srv_posted := hs @ hs'\<rparr>))"
| accepted: "srv_accepts s = Suc n \<Longrightarrow>
    server_step one_thread s (spost (SH_on_accept No_error) (s\<lparr>srv_accepts := n\<rparr>))"
| failed: "srv_accepts s = Suc n \<Longrightarrow>
    server_step one_thread s (spost (SH_on_accept Other_error) (s\<lparr>srv_accepts := n, srv_accept_failed := True\<rparr>))"

definition server_init :: "Server \<Rightarrow> bool" where
  "server_init s \<longleftrightarrow> (\<exists>r n. s = TcpServer_new r n)"

section \<open>Flags of an updated server\<close>

lemma sget_simps [simp]:
  "get_flag (tss f) (srv_flags (sset g s)) \<longleftrightarrow> f = g \<or> sget f s"
  "get_flag (tss f) (srv_flags (sclear g s)) \<longleftrightarrow> f \<noteq> g \<and> sget f s"
  "srv_flags (spost h s) = srv_flags s"
  by (simp_all add: sset_def sclear_def spost_def server_flags.flag_laws)

lemma sset_frame [simp]:
  "acceptor_is_open (sset f s) = acceptor_is_open s" "stopped_callback (sset f s) = stopped_callback s"
  "srv_posted (sset f s) = srv_posted s" "srv_accepts (sset f s) = srv_accepts s"
  "srv_accept_failed (sset f s) = srv_accept_failed s" "srv_stopped_calls (sset f s) = srv_stopped_calls s"
  "srv_delivered (sset f s) = srv_delivered s" "connection_callback (sset f s) = connection_callback s"
  by (simp_all add: sset_def)

lemma sclear_frame [simp]:
  "acceptor_is_open (sclear f s) = acceptor_is_open s" "stopped_callback (sclear f s) = stopped_callback s"
  "srv_posted (sclear f s) = srv_posted s" "srv_accepts (sclear f s) = srv_accepts s"
  "srv_accept_failed (sclear f s) = srv_accept_failed s" "srv_stopped_calls (sclear f s) = srv_stopped_calls s"
  "srv_delivered (sclear f s) = srv_delivered s" "connection_callback (sclear f s) = connection_callback s"
  by (simp_all add: sclear_def)

lemma spost_frame [simp]:
  "acceptor_is_open (spost h s) = acceptor_is_open s" "stopped_callback (spost h s) = stopped_callback s"
  "srv_posted (spost h s) = srv_posted s @ [h]" "srv_accepts (spost h s) = srv_accepts s"
  "srv_accept_failed (spost h s) = srv_accept_failed s" "srv_stopped_calls (spost h s) = srv_stopped_calls s"
  "srv_delivered (spost h s) = srv_delivered s" "connection_callback (spost h s) = connection_callback s"
  by (simp_all add: spost_def)

section \<open>The invariant\<close>

fun is_on_accept :: "server_handler \<Rightarrow> bool" where
  "is_on_accept (SH_on_accept _) \<longleftrightarrow> True"
| "is_on_accept _ \<longleftrightarrow> False"

fun is_server_stopped :: "server_handler \<Rightarrow> bool" where
  "is_server_stopped (SH_stopped _) \<longleftrightarrow> True"
| "is_server_stopped _ \<longleftrightarrow> False"

definition server_owed :: "Server \<Rightarrow> nat" where
  "server_owed s = (if stopped_callback s = None then 0 else 1)"

definition server_busy :: "Server \<Rightarrow> bool" where
  "server_busy s \<longleftrightarrow> sget TSS_start_accepting s \<or> sget TSS_accepting s"

text \<open>\<open>start_accepting\<close> and \<open>accepting\<close> count the queued start and the one accept; the callback
  is owed while the loop runs, and afterwards only when the loop had ended by an error.\<close>

definition server_inv :: "Server \<Rightarrow> bool" where
  "server_inv s \<longleftrightarrow>
     jobs (\<lambda>h. h = SH_accept) (srv_posted s) = of_bool (sget TSS_start_accepting s) \<and>
     srv_accepts s + jobs is_on_accept (srv_posted s) = of_bool (sget TSS_accepting s) \<and>
     \<not> (sget TSS_start_accepting s \<and> sget TSS_accepting s) \<and>
     (server_busy s \<longrightarrow> sget TSS_start_signaled s) \<and>
     (sget TSS_stopping s \<longleftrightarrow> sget TSS_stop_signaled s) \<and>
     (sget TSS_stop_signaled s \<longrightarrow> sget TSS_start_signaled s) \<and>
     acceptor_is_open s \<and>
     jobs (\<lambda>h. h = SH_cancel) (srv_posted s) \<le> of_bool (sget TSS_stop_signaled s) \<and>
     server_owed s + jobs is_server_stopped (srv_posted s) + length (srv_stopped_calls s) = of_bool (sget TSS_stop_signaled s) \<and>
     (sget TSS_stop_signaled s \<and> server_busy s \<longrightarrow> server_owed s = 1) \<and>
     (sget TSS_stop_signaled s \<and> \<not> server_busy s \<and> \<not> srv_accept_failed s \<longrightarrow> server_owed s = 0) \<and>
     (SH_on_accept Other_error \<in> set (srv_posted s) \<longrightarrow> srv_accept_failed s) \<and>
     (SH_on_accept Operation_aborted \<in> set (srv_posted s) \<longrightarrow> sget TSS_stop_signaled s) \<and>
     (sget TSS_start_signaled s \<and> \<not> sget TSS_stop_signaled s \<and> \<not> server_busy s \<longrightarrow> srv_accept_failed s)"

lemmas server_defs = server_inv_def server_owed_def server_busy_def


lemma server_init_inv: "server_init s \<Longrightarrow> server_inv s"
  by (auto simp: server_init_def TcpServer_new_def server_defs)

lemma server_resolve_eq:
  "server_resolve_on_stopped s =
    (if server_busy s then s
     else case stopped_callback s of None \<Rightarrow> s | Some k \<Rightarrow> spost (SH_stopped k) (s\<lparr>stopped_callback := None\<rparr>))"
  by (auto simp: server_resolve_on_stopped_def server_busy_def)

text \<open>Resolving restores the clause on the owed callback when the others hold.\<close>

definition server_but_owed :: "Server \<Rightarrow> bool" where
  "server_but_owed s \<longleftrightarrow>
     jobs (\<lambda>h. h = SH_accept) (srv_posted s) = of_bool (sget TSS_start_accepting s) \<and>
     srv_accepts s + jobs is_on_accept (srv_posted s) = of_bool (sget TSS_accepting s) \<and>
     \<not> (sget TSS_start_accepting s \<and> sget TSS_accepting s) \<and>
     (server_busy s \<longrightarrow> sget TSS_start_signaled s) \<and>
     (sget TSS_stopping s \<longleftrightarrow> sget TSS_stop_signaled s) \<and>
     (sget TSS_stop_signaled s \<longrightarrow> sget TSS_start_signaled s) \<and>
     acceptor_is_open s \<and>
     jobs (\<lambda>h. h = SH_cancel) (srv_posted s) \<le> of_bool (sget TSS_stop_signaled s) \<and>
     server_owed s + jobs is_server_stopped (srv_posted s) + length (srv_stopped_calls s) = of_bool (sget TSS_stop_signaled s) \<and>
     (sget TSS_stop_signaled s \<and> server_busy s \<longrightarrow> server_owed s = 1) \<and>
     (SH_on_accept Other_error \<in> set (srv_posted s) \<longrightarrow> srv_accept_failed s) \<and>
     (SH_on_accept Operation_aborted \<in> set (srv_posted s) \<longrightarrow> sget TSS_stop_signaled s) \<and>
     (sget TSS_start_signaled s \<and> \<not> sget TSS_stop_signaled s \<and> \<not> server_busy s \<longrightarrow> srv_accept_failed s)"

lemma server_owed_simps [simp]:
  "server_owed (sset f s) = server_owed s" "server_owed (sclear f s) = server_owed s"
  "server_owed (spost h s) = server_owed s" "server_owed (s\<lparr>srv_posted := q\<rparr>) = server_owed s"
  "server_owed (s\<lparr>srv_accepts := n\<rparr>) = server_owed s" "server_owed (s\<lparr>srv_delivered := ds\<rparr>) = server_owed s"
  "server_owed (s\<lparr>srv_dropped := n\<rparr>) = server_owed s" "server_owed (s\<lparr>srv_accept_failed := b\<rparr>) = server_owed s"
  "server_owed (s\<lparr>connection_callback := b\<rparr>) = server_owed s" "server_owed (s\<lparr>srv_stopped_calls := ks\<rparr>) = server_owed s"
  "server_owed (s\<lparr>stopped_callback := None\<rparr>) = 0" "server_owed (s\<lparr>stopped_callback := Some k\<rparr>) = 1"
  by (simp_all add: server_owed_def)

lemma server_owed_cases: obtains "stopped_callback s = None" "server_owed s = 0"
  | k where "stopped_callback s = Some k" "server_owed s = 1"
  by (cases "stopped_callback s") (simp_all add: server_owed_def)

lemma server_inv_resolve: "server_but_owed s \<Longrightarrow> server_inv (server_resolve_on_stopped s)"
  by (cases s rule: server_owed_cases; cases "sget TSS_start_accepting s"; cases "sget TSS_accepting s";
      cases "sget TSS_stop_signaled s")
    (simp_all add: server_resolve_eq server_but_owed_def server_inv_def server_busy_def)

lemma no_on_accept: "jobs is_on_accept q = 0 \<Longrightarrow> SH_on_accept e \<notin> set q"
  by (auto simp: jobs_0)

text \<open>What a queued handler of the accept loop says about the flags.\<close>

lemma SH_accept_queued:
  assumes "server_inv s" and "srv_posted s = hs @ SH_accept # hs'"
  shows "sget TSS_start_accepting s \<and> \<not> sget TSS_accepting s \<and> sget TSS_start_signaled s
    \<and> server_owed s = of_bool (sget TSS_stop_signaled s)"
  using assms by (cases "sget TSS_start_accepting s"; cases "sget TSS_stop_signaled s") (simp_all add: server_inv_def server_busy_def)

lemma SH_on_accept_queued:
  assumes "server_inv s" and "srv_posted s = hs @ SH_on_accept e # hs'"
  shows "sget TSS_accepting s \<and> \<not> sget TSS_start_accepting s \<and> sget TSS_start_signaled s
    \<and> server_owed s = of_bool (sget TSS_stop_signaled s) \<and> srv_accepts s = 0
    \<and> jobs is_on_accept hs = 0 \<and> jobs is_on_accept hs' = 0"
  using assms by (cases "sget TSS_accepting s"; cases "sget TSS_stop_signaled s") (simp_all add: server_inv_def server_busy_def)

lemma async_start_inv: "server_inv s \<Longrightarrow> server_inv (snd (server_async_start s))"
  by (cases "sget TSS_start_signaled s"; cases "sget TSS_start_accepting s"; cases "sget TSS_accepting s"; cases "sget TSS_stop_signaled s")
    (auto simp: server_async_start_def server_inv_def server_busy_def)

lemma server_async_stop_inv: "server_inv s \<Longrightarrow> server_inv (snd (server_async_stop k s))"
  by (cases "sget TSS_stop_signaled s"; cases "sget TSS_start_signaled s"; cases "sget TSS_start_accepting s"; cases "sget TSS_accepting s")
    (auto simp: server_async_stop_def server_inv_def server_busy_def)

lemma SH_accept_inv:
  assumes "server_inv s" and "srv_posted s = hs @ SH_accept # hs'"
  shows "server_inv (async_accept (s\<lparr>srv_posted := hs @ hs'\<rparr>))"
proof (cases "sget TSS_stop_signaled s")
  case True
  have "server_but_owed (sclear TSS_start_accepting (s\<lparr>srv_posted := hs @ hs'\<rparr>))"
    using assms SH_accept_queued [OF assms] True
    by (simp add: server_inv_def server_but_owed_def server_busy_def)
  moreover have "sget TSS_stopping s" using True assms(1) by (simp add: server_inv_def)
  ultimately show ?thesis by (simp add: async_accept_def server_inv_resolve)
next
  case False
  with assms SH_accept_queued [OF assms] show ?thesis
    by (simp add: async_accept_def server_inv_def server_busy_def server_flags.flag_laws)
qed

lemma server_inv_frame [simp]:
  "server_inv (s\<lparr>srv_delivered := ds\<rparr>) = server_inv s" "server_inv (s\<lparr>srv_dropped := n\<rparr>) = server_inv s"
  "server_inv (s\<lparr>connection_callback := b\<rparr>) = server_inv s"
  by (simp_all add: server_inv_def server_busy_def)

lemma accept_ended_inv:
  assumes "server_inv s" and "srv_posted s = hs @ SH_on_accept e # hs'" and "e = No_error \<longrightarrow> sget TSS_stopping s"
  shows "server_inv (server_resolve_on_stopped (sclear TSS_accepting (s\<lparr>srv_posted := hs @ hs'\<rparr>)))"
proof (rule server_inv_resolve)
  have "sget TSS_stop_signaled s \<or> srv_accept_failed s"
    using assms by (cases e) (auto simp: server_inv_def)
  with assms(1,2) SH_on_accept_queued [OF assms(1,2)]
  show "server_but_owed (sclear TSS_accepting (s\<lparr>srv_posted := hs @ hs'\<rparr>))"
    by (cases "sget TSS_stop_signaled s") (simp_all add: server_inv_def server_but_owed_def server_busy_def no_on_accept)
qed

lemma accept_again_inv:
  assumes "server_inv s" and "srv_posted s = hs @ SH_on_accept e # hs'" and "\<not> sget TSS_stopping s"
  shows "server_inv (async_accept (s\<lparr>srv_posted := hs @ hs'\<rparr>))"
proof -
  have "\<not> sget TSS_stop_signaled s" using assms(1,3) by (simp add: server_inv_def)
  with assms SH_on_accept_queued [OF assms(1,2)] show ?thesis
    by (simp add: async_accept_def server_inv_def server_busy_def server_flags.flag_laws no_on_accept)
qed

lemma async_accept_frame:
  "async_accept (s\<lparr>srv_delivered := ds\<rparr>) = (async_accept s)\<lparr>srv_delivered := ds\<rparr>"
  "async_accept (s\<lparr>srv_dropped := n\<rparr>) = (async_accept s)\<lparr>srv_dropped := n\<rparr>"
  by (simp_all add: async_accept_def server_resolve_on_stopped_def sset_def sclear_def spost_def Let_def split: option.split)

lemma server_resolve_frame:
  "server_resolve_on_stopped (sclear f (s\<lparr>srv_delivered := ds\<rparr>)) = (server_resolve_on_stopped (sclear f s))\<lparr>srv_delivered := ds\<rparr>"
  "server_resolve_on_stopped (sclear f (s\<lparr>srv_dropped := n\<rparr>)) = (server_resolve_on_stopped (sclear f s))\<lparr>srv_dropped := n\<rparr>"
  by (simp_all add: server_resolve_on_stopped_def sclear_def spost_def split: option.split)

lemma handle_accept_inv:
  assumes "server_inv s" and "srv_posted s = hs @ SH_on_accept e # hs'"
  shows "server_inv (handle_accept e (s\<lparr>srv_posted := hs @ hs'\<rparr>))"
  using accept_ended_inv [OF assms] accept_again_inv [OF assms]
  by (cases "e = No_error"; cases "sget TSS_stopping s"; cases "connection_callback s")
    (simp_all add: handle_accept_def Let_def async_accept_frame server_resolve_frame)

lemma stop_posted_inv:
  assumes "server_inv s" and "srv_posted s = hs @ SH_cancel # hs'"
  shows "server_inv (stop_posted (s\<lparr>srv_posted := hs @ hs'\<rparr>))"
proof -
  have "sget TSS_stop_signaled s" "acceptor_is_open s"
    using assms by (cases "sget TSS_stop_signaled s"; simp add: server_inv_def)+
  with assms show ?thesis
    by (cases "sget TSS_start_accepting s"; cases "sget TSS_accepting s"; cases "srv_accepts s")
      (auto simp: stop_posted_def acceptor_cancel_def server_inv_def server_busy_def)
qed

lemma server_step_inv:
  assumes "server_step t s s'" and "server_inv s"
  shows "server_inv s'"
  using assms(1)
proof cases
  case (stop io_thread k)
  with assms(2) show ?thesis by (cases io_thread) (simp_all add: server_stop_def server_async_stop_inv)
next
  case (handler hs h hs')
  show ?thesis
  proof (cases h)
    case (SH_stopped k)
    with handler assms(2) show ?thesis by (simp add: server_inv_def server_busy_def)
  qed (use handler assms(2) in \<open>simp_all add: SH_accept_inv stop_posted_inv handle_accept_inv\<close>)
next
  case (accepted n)
  with assms(2) show ?thesis by (simp add: server_inv_def server_busy_def)
next
  case (failed n)
  with assms(2) show ?thesis by (simp add: server_inv_def server_busy_def)
qed (use assms(2) in \<open>simp_all add: async_start_inv set_connection_callback_def\<close>)

definition server_idle :: "Server \<Rightarrow> bool" where
  "server_idle s \<longleftrightarrow> srv_posted s = [] \<and> srv_accepts s = 0 \<and> \<not> srv_accept_failed s"

interpretation server: stop_protocol server_init "server_step False" server_inv
  "\<lambda>s. if sget TSS_stop_signaled s then 1 else 0" server_owed "\<lambda>s. jobs is_server_stopped (srv_posted s)"
  "\<lambda>s. length (srv_stopped_calls s)" server_idle
proof unfold_locales
  show "server_init s \<Longrightarrow> server_inv s" for s by (rule server_init_inv)
  show "server_inv s \<Longrightarrow> server_step False s s' \<Longrightarrow> server_inv s'" for s s' by (rule server_step_inv)
  show "server_inv s \<Longrightarrow> server_owed s + jobs is_server_stopped (srv_posted s) + length (srv_stopped_calls s) =
      (if sget TSS_stop_signaled s then 1 else 0)" for s
    unfolding server_inv_def of_bool_def by blast
  show "server_inv s \<Longrightarrow> server_idle s \<Longrightarrow> server_owed s = 0 \<and> jobs is_server_stopped (srv_posted s) = 0" for s
    by (cases "sget TSS_stop_signaled s"; cases "sget TSS_start_accepting s"; cases "sget TSS_accepting s")
      (simp_all add: server_inv_def server_idle_def server_busy_def)
qed

section \<open>Order of the handlers on one thread\<close>

text \<open>
  On one thread the stopped callback is the last thing in the queue: before it only the cancel
  handler can still wait.
\<close>

definition stopped_last :: "Server \<Rightarrow> bool" where
  "stopped_last s \<longleftrightarrow>
     (\<forall>hs k hs'. srv_posted s = hs @ SH_stopped k # hs' \<longrightarrow> hs' = []) \<and>
     (srv_stopped_calls s \<noteq> [] \<longrightarrow> srv_posted s = [])"

definition ordered_inv :: "Server \<Rightarrow> bool" where
  "ordered_inv s \<longleftrightarrow> server_inv s \<and> stopped_last s"

lemma stopped_last_no_stopped:
  "jobs is_server_stopped (srv_posted s) = 0 \<Longrightarrow> srv_stopped_calls s = [] \<Longrightarrow> stopped_last s"
  by (auto simp: stopped_last_def)

lemma not_last: "jobs is_server_stopped q = 0 \<Longrightarrow> q @ [x] = hs @ SH_stopped k # hs' \<Longrightarrow> hs' = []"
  by (induction hs' rule: rev_induct) auto

lemma owed_no_stopped:
  assumes "server_inv s" and "server_owed s = of_bool (sget TSS_stop_signaled s)"
  shows "jobs is_server_stopped (srv_posted s) = 0 \<and> srv_stopped_calls s = []"
  using assms by (cases "sget TSS_stop_signaled s") (simp_all add: server_inv_def)

lemma resolve_stopped_last:
  assumes "jobs is_server_stopped (srv_posted s) = 0" and "srv_stopped_calls s = []"
  shows "stopped_last (server_resolve_on_stopped s)"
  using assms not_last [OF assms(1)]
  by (auto simp: server_resolve_eq stopped_last_def split: option.split)

lemma stopped_last_frame [simp]:
  "stopped_last (s\<lparr>srv_delivered := ds\<rparr>) = stopped_last s" "stopped_last (s\<lparr>srv_dropped := n\<rparr>) = stopped_last s"
  "stopped_last (s\<lparr>connection_callback := b\<rparr>) = stopped_last s" "stopped_last (sset f s) = stopped_last s"
  "stopped_last (s\<lparr>srv_accepts := n\<rparr>) = stopped_last s" "stopped_last (sclear f s) = stopped_last s"
  by (simp_all add: stopped_last_def)

lemma async_accept_stopped_last:
  assumes "jobs is_server_stopped (srv_posted s) = 0" and "srv_stopped_calls s = []"
  shows "stopped_last (async_accept s)"
  using assms by (auto simp: async_accept_def Let_def intro: resolve_stopped_last stopped_last_no_stopped)

lemma handle_accept_stopped_last:
  assumes "jobs is_server_stopped (srv_posted s) = 0" and "srv_stopped_calls s = []"
  shows "stopped_last (handle_accept e s)"
  using assms by (auto simp: handle_accept_def Let_def async_accept_frame server_resolve_frame
      intro: resolve_stopped_last async_accept_stopped_last)

lemma not_requested_no_stopped:
  "server_inv s \<Longrightarrow> \<not> sget TSS_stop_signaled s \<Longrightarrow> jobs is_server_stopped (srv_posted s) = 0 \<and> srv_stopped_calls s = []"
  by (rule owed_no_stopped) (simp_all add: server_inv_def)

lemma accepts_no_stopped:
  assumes "server_inv s" and "srv_accepts s = Suc n"
  shows "jobs is_server_stopped (srv_posted s) = 0 \<and> srv_stopped_calls s = []"
proof (rule owed_no_stopped [OF assms(1)])
  show "server_owed s = of_bool (sget TSS_stop_signaled s)"
    using assms by (cases "sget TSS_stop_signaled s"; cases "sget TSS_accepting s") (simp_all add: server_inv_def server_busy_def)
qed

lemma async_start_ordered:
  assumes "ordered_inv s"
  shows "stopped_last (snd (server_async_start s))"
proof (cases "sget TSS_start_signaled s \<or> sget TSS_stopping s")
  case False
  then have "\<not> sget TSS_stop_signaled s" using assms by (auto simp: ordered_inv_def server_inv_def)
  with assms False not_requested_no_stopped [of s] show ?thesis
    by (auto simp: server_async_start_def ordered_inv_def intro: stopped_last_no_stopped)
qed (use assms in \<open>auto simp: server_async_start_def ordered_inv_def\<close>)

lemma async_stop_ordered:
  assumes "ordered_inv s"
  shows "stopped_last (snd (server_async_stop k s))"
  using assms not_requested_no_stopped [of s]
  by (cases "sget TSS_stop_signaled s")
    (auto simp: server_async_stop_def ordered_inv_def intro: stopped_last_no_stopped)

lemma stop_posted_ordered:
  assumes "ordered_inv s" and "srv_posted s = SH_cancel # hs"
  shows "stopped_last (stop_posted (s\<lparr>srv_posted := hs\<rparr>))"
proof -
  have inv: "server_inv s" "acceptor_is_open s" using assms(1) by (simp_all add: ordered_inv_def server_inv_def)
  have tail: "stopped_last (s\<lparr>srv_posted := hs\<rparr>)"
    using assms by (simp add: ordered_inv_def stopped_last_def)
  show ?thesis
  proof (cases "srv_accepts s")
    case 0
    have "(acceptor_cancel (sset TSS_stopping (s\<lparr>srv_posted := hs\<rparr>))) = (sset TSS_stopping (s\<lparr>srv_posted := hs\<rparr>))\<lparr>srv_accepts := 0\<rparr>"
      using 0 by (simp add: acceptor_cancel_def sset_def)
    with tail inv(2) show ?thesis by (simp add: stop_posted_def)
  next
    case (Suc n)
    with accepts_no_stopped [OF inv(1) Suc] assms(2) inv(2) show ?thesis
      by (intro stopped_last_no_stopped) (simp_all add: stop_posted_def acceptor_cancel_def)
  qed
qed

lemma handler_ordered:
  assumes "ordered_inv s" and "srv_posted s = h # hs"
  shows "stopped_last (server_run_handler h (s\<lparr>srv_posted := hs\<rparr>))"
proof -
  have inv: "server_inv s" and queue: "srv_posted s = [] @ h # hs" using assms by (simp_all add: ordered_inv_def)
  show ?thesis
  proof (cases h)
    case SH_accept
    with owed_no_stopped [OF inv] SH_accept_queued [OF inv, of "[]" hs] queue show ?thesis
      by (simp add: async_accept_stopped_last)
  next
    case SH_cancel
    with stop_posted_ordered [OF assms(1)] assms(2) show ?thesis by simp
  next
    case (SH_on_accept e)
    with owed_no_stopped [OF inv] SH_on_accept_queued [OF inv, of "[]" e hs] queue show ?thesis
      by (simp add: handle_accept_stopped_last)
  next
    case (SH_stopped k)
    with assms have "hs = []" by (auto simp: ordered_inv_def stopped_last_def)
    with SH_stopped show ?thesis by (simp add: stopped_last_def)
  qed
qed

lemma server_step_ordered:
  assumes "server_step True s s'" and "ordered_inv s"
  shows "ordered_inv s'"
proof -
  have inv: "server_inv s" using assms(2) by (simp add: ordered_inv_def)
  from assms(1) have "stopped_last s'"
  proof cases
    case start
    with async_start_ordered [OF assms(2)] show ?thesis by simp
  next
    case (stop io_thread k)
    with async_stop_ordered [OF assms(2)] assms(2) show ?thesis
      by (cases io_thread) (simp_all add: server_stop_def ordered_inv_def)
  next
    case (callback b)
    with assms(2) show ?thesis by (simp add: set_connection_callback_def ordered_inv_def)
  next
    case (handler hs h hs')
    with handler_ordered [OF assms(2)] show ?thesis by simp
  next
    case (accepted n)
    with accepts_no_stopped [OF inv] show ?thesis by (auto intro: stopped_last_no_stopped)
  next
    case (failed n)
    with accepts_no_stopped [OF inv] show ?thesis by (auto intro: stopped_last_no_stopped)
  qed
  with server_step_inv [OF assms(1) inv] show ?thesis by (simp add: ordered_inv_def)
qed

interpretation server_one_thread: invariant_system server_init "server_step True" ordered_inv
proof
  show "server_init s \<Longrightarrow> ordered_inv s" for s
    by (auto simp: ordered_inv_def server_init_inv) (auto simp: server_init_def TcpServer_new_def stopped_last_def)
qed (rule server_step_ordered)

section \<open>Delivered connections\<close>

lemma delivered_frame [simp]:
  "srv_delivered (server_resolve_on_stopped s) = srv_delivered s" "srv_delivered (async_accept s) = srv_delivered s"
  "srv_delivered (stop_posted s) = srv_delivered s" "srv_delivered (snd (server_async_start s)) = srv_delivered s"
  "srv_delivered (snd (server_async_stop k s)) = srv_delivered s"
  by (simp_all add: server_resolve_on_stopped_def async_accept_def stop_posted_def acceptor_cancel_def
      server_async_start_def server_async_stop_def Let_def split: option.split)

lemma new_conn_init: "conn_init (TcpConnection_new r n False None)"
  by (auto simp: conn_init_def keeps_buffer_def)

lemma handle_accept_delivered: "c \<in> set (srv_delivered (handle_accept e s)) \<Longrightarrow> c \<in> set (srv_delivered s) \<or> conn_init c"
  by (auto simp: handle_accept_def Let_def new_conn_init async_accept_frame server_resolve_frame split: if_splits)

lemma server_step_delivered:
  assumes "server_step t s s'" and "\<forall>c \<in> set (srv_delivered s). conn_init c"
  shows "\<forall>c \<in> set (srv_delivered s'). conn_init c"
  using assms(1)
proof cases
  case (handler hs h hs')
  with assms(2) show ?thesis by (cases h) (auto dest: handle_accept_delivered)
qed (use assms(2) in \<open>auto simp: server_stop_def set_connection_callback_def\<close>)

interpretation server_deliveries: invariant_system server_init "server_step False" "\<lambda>s. \<forall>c \<in> set (srv_delivered s). conn_init c"
proof
  show "server_init s \<Longrightarrow> \<forall>c \<in> set (srv_delivered s). conn_init c" for s
    by (auto simp: server_init_def TcpServer_new_def)
qed (rule server_step_delivered)

section \<open>A stop after the accept loop has ended\<close>

definition hanging :: "nat \<Rightarrow> Server \<Rightarrow> bool" where
  "hanging k s \<longleftrightarrow> sget TSS_start_signaled s \<and> sget TSS_stop_signaled s \<and> sget TSS_stopping s \<and>
     \<not> server_busy s \<and> srv_accepts s = 0 \<and> acceptor_is_open s \<and> stopped_callback s = Some k \<and>
     srv_stopped_calls s = [] \<and> (\<forall>h \<in> set (srv_posted s). h = SH_cancel)"

lemma hanging_step:
  assumes "server_step False s s'" and "hanging k s"
  shows "hanging k s'"
  using assms(1)
proof cases
  case (handler hs h hs')
  moreover from handler assms(2) have "h = SH_cancel" by (simp add: hanging_def)
  ultimately show ?thesis using assms(2)
    by (auto simp: hanging_def stop_posted_def acceptor_cancel_def server_busy_def)
qed (use assms(2) in \<open>auto simp: hanging_def server_async_start_def server_stop_def server_async_stop_def
    set_connection_callback_def server_busy_def\<close>)

lemma hanging_starts:
  assumes "server_inv s" and "sget TSS_start_signaled s" and "\<not> server_busy s" and "\<not> sget TSS_stop_signaled s"
  shows "fst (server_stop False k s) \<and> hanging k (snd (server_stop False k s))"
proof -
  have "jobs (\<lambda>h. h = SH_accept) (srv_posted s) = 0" "jobs is_on_accept (srv_posted s) = 0"
    "jobs (\<lambda>h. h = SH_cancel) (srv_posted s) = 0" "jobs is_server_stopped (srv_posted s) = 0"
    "srv_accepts s = 0" "srv_stopped_calls s = []" "acceptor_is_open s"
    using assms by (simp_all add: server_inv_def server_busy_def)
  note idle = this
  have "srv_posted s = []"
  proof (cases "srv_posted s")
    case (Cons h hs)
    with idle(1-4) show ?thesis by (cases h) simp_all
  qed
  with idle assms(2-4) show ?thesis
    by (simp add: server_stop_def server_async_stop_def hanging_def server_busy_def)
qed

section \<open>Properties\<close>

text \<open>Property C20. The stop protocol of the server: the stopped callback is called at most once
  and only on request, and exactly once when the \<open>io_context\<close> is drained and no accept is
  outstanding, provided no accept has failed.\<close>

theorem tcp_server_stop:
  assumes "reachable server_init (server_step False) s"
  shows "length (srv_stopped_calls s) \<le> 1 \<and>
    (\<not> get_flag (tss TSS_stop_signaled) (srv_flags s) \<longrightarrow> srv_stopped_calls s = []) \<and>
    (get_flag (tss TSS_stop_signaled) (srv_flags s) \<and> srv_posted s = [] \<and> srv_accepts s = 0 \<and> \<not> srv_accept_failed s \<longrightarrow>
      length (srv_stopped_calls s) = 1)"
  using server.called_at_most_requests [OF assms] server.idle_called [OF assms]
  by (simp add: server_idle_def split: if_splits)

text \<open>When one thread runs the \<open>io_context\<close>, nothing of the server is left once the
  stopped callback has run: no handler that refers to the server is queued and no accept is
  outstanding, so that \<open>stop\<close> may be followed by the destruction of the object.\<close>

theorem tcp_server_quiescent:
  assumes "reachable server_init (server_step True) s" and "srv_stopped_calls s \<noteq> []"
  shows "srv_posted s = [] \<and> srv_accepts s = 0"
proof -
  have inv: "ordered_inv s" by (rule server_one_thread.reachable_inv [OF assms(1)])
  moreover have "srv_accepts s = 0"
    using inv assms(2) accepts_no_stopped [of s] by (cases "srv_accepts s") (auto simp: ordered_inv_def)
  ultimately show ?thesis using assms(2) by (simp add: ordered_inv_def stopped_last_def)
qed

text \<open>Property C32. At most one accept is outstanding, exactly one while \<open>is_running\<close> says so, none once the stopped callback is on its
  way, and every connection given to the user is a new one: all theorems about reachable
  connections apply to it.\<close>

theorem tcp_server_deliveries:
  assumes "reachable server_init (server_step False) s"
  shows "srv_accepts s + jobs is_on_accept (srv_posted s) = (if is_running s then 1 else 0) \<and>
    (srv_stopped_calls s \<noteq> [] \<or> jobs is_server_stopped (srv_posted s) \<noteq> 0 \<longrightarrow>
      srv_accepts s + jobs is_on_accept (srv_posted s) = 0) \<and>
    (\<forall>c \<in> set (srv_delivered s). reachable conn_init conn_step c)"
proof -
  have inv: "server_inv s" by (rule server.reachable_inv [OF assms])
  then have "srv_accepts s + jobs is_on_accept (srv_posted s) = (if is_running s then 1 else 0)"
    by (simp add: server_inv_def is_running_def)
  moreover have "srv_accepts s + jobs is_on_accept (srv_posted s) = 0"
    if "srv_stopped_calls s \<noteq> [] \<or> jobs is_server_stopped (srv_posted s) \<noteq> 0"
  proof -
    have "server_owed s \<noteq> of_bool (sget TSS_stop_signaled s)" using owed_no_stopped [OF inv] that by blast
    then have "\<not> sget TSS_accepting s"
      using inv by (cases "sget TSS_stop_signaled s") (auto simp: server_inv_def server_busy_def)
    with inv show ?thesis by (simp add: server_inv_def)
  qed
  moreover have "\<forall>c \<in> set (srv_delivered s). reachable conn_init conn_step c"
    using server_deliveries.reachable_inv [OF assms] by (auto intro: reachable.start)
  ultimately show ?thesis by blast
qed

text \<open>A server whose accept loop was ended by a failed accept cannot be stopped:
  \<open>stop\<close> accepts the request and waits, but cancelling the open acceptor completes nothing, so
  in no continuation the stopped callback is called or even queued. The destructor calls \<open>stop\<close>.\<close>

theorem tcp_server_stop_hangs:
  assumes "reachable server_init (server_step False) s"
    and "get_flag (tss TSS_start_signaled) (srv_flags s)" and "\<not> get_flag (tss TSS_stop_signaled) (srv_flags s)"
    and "\<not> get_flag (tss TSS_start_accepting) (srv_flags s)" and "\<not> get_flag (tss TSS_accepting) (srv_flags s)"
    and "reachable (\<lambda>x. x = snd (server_stop False k s)) (server_step False) s'"
  shows "fst (server_stop False k s) \<and> srv_stopped_calls s' = [] \<and> jobs is_server_stopped (srv_posted s') = 0"
proof -
  have start: "fst (server_stop False k s) \<and> hanging k (snd (server_stop False k s))"
    using assms(2-5) server.reachable_inv [OF assms(1)] by (intro hanging_starts) (simp_all add: server_busy_def)
  from assms(6) have "hanging k s'"
    by (induction rule: reachable.induct) (use start hanging_step in blast)+
  with start show ?thesis by (auto simp: hanging_def jobs_0)
qed

section \<open>Runs\<close>

definition server_run_next :: "Server \<Rightarrow> Server" where
  "server_run_next s = (case srv_posted s of [] \<Rightarrow> s | h # hs \<Rightarrow> server_run_handler h (s\<lparr>srv_posted := hs\<rparr>))"

lemma reachable_server_run_next: "reachable server_init (server_step t) s \<Longrightarrow> reachable server_init (server_step t) (server_run_next s)"
proof (cases "srv_posted s")
  case (Cons h hs)
  assume "reachable server_init (server_step t) s"
  moreover have "server_step t s (server_run_handler h (s\<lparr>srv_posted := [] @ hs\<rparr>))"
    by (rule server_step.handler) (simp_all add: Cons)
  ultimately show ?thesis using Cons by (simp add: server_run_next_def reachable.more)
qed (simp add: server_run_next_def)

lemma reachable_server_calls:
  "reachable server_init (server_step t) s \<Longrightarrow> reachable server_init (server_step t) (snd (server_async_start s))"
  "reachable server_init (server_step t) s \<Longrightarrow> reachable server_init (server_step t) (snd (server_stop b k s))"
  by (auto intro: reachable.more server_step.intros)

lemma reachable_server_new: "reachable server_init (server_step t) (TcpServer_new r n)"
  by (rule reachable.start) (auto simp: server_init_def)

text \<open>A server that is started and then stopped at once, by one thread, and a server whose first
  accept has failed.\<close>

definition stopped_server :: Server where
  "stopped_server = server_run_next (server_run_next (server_run_next
     (snd (server_stop False 7 (snd (server_async_start (TcpServer_new 16 16)))))))"

definition failed_server :: Server where
  "failed_server = server_run_next (spost (SH_on_accept Other_error)
     ((server_run_next (snd (server_async_start (TcpServer_new 16 16))))\<lparr>srv_accepts := 0, srv_accept_failed := True\<rparr>))"

lemmas server_run_defs = server_run_next_def server_async_start_def server_stop_def server_async_stop_def
  async_accept_def handle_accept_def server_resolve_on_stopped_def stop_posted_def acceptor_cancel_def
  TcpServer_new_def sset_def sclear_def spost_def server_flags.flag_laws

lemma stopped_server_state: "srv_stopped_calls stopped_server = [7]" "srv_accepts stopped_server = 0"
  "srv_posted stopped_server = []" "sget TSS_stop_signaled stopped_server" "\<not> srv_accept_failed stopped_server"
  by (simp_all add: stopped_server_def server_run_defs)

lemma stopped_server_reachable: "reachable server_init (server_step t) stopped_server"
  unfolding stopped_server_def by (intro reachable_server_run_next reachable_server_calls reachable_server_new)

lemma failed_server_state: "sget TSS_start_signaled failed_server" "\<not> sget TSS_stop_signaled failed_server"
  "\<not> sget TSS_start_accepting failed_server" "\<not> sget TSS_accepting failed_server"
  by (simp_all add: failed_server_def server_run_defs)

lemma failed_server_reachable: "reachable server_init (server_step t) failed_server"
  unfolding failed_server_def
proof (rule reachable_server_run_next, rule reachable.more)
  let ?s = "server_run_next (snd (server_async_start (TcpServer_new 16 16)))"
  show "reachable server_init (server_step t) ?s"
    by (intro reachable_server_run_next reachable_server_calls reachable_server_new)
  show "server_step t ?s (spost (SH_on_accept Other_error) (?s\<lparr>srv_accepts := 0, srv_accept_failed := True\<rparr>))"
    by (rule server_step.failed) (simp add: server_run_defs)
qed

theorem tcp_server_stop_witness: "length (srv_stopped_calls stopped_server) = 1"
  using tcp_server_stop [OF stopped_server_reachable] stopped_server_state by simp

theorem tcp_server_quiescent_witness: "srv_stopped_calls stopped_server \<noteq> [] \<and> srv_posted stopped_server = []"
  using tcp_server_quiescent [OF stopped_server_reachable] stopped_server_state by simp

theorem tcp_server_deliveries_witness: "srv_accepts stopped_server + jobs is_on_accept (srv_posted stopped_server) = 0"
  using tcp_server_deliveries [OF stopped_server_reachable] stopped_server_state by simp

theorem tcp_server_stop_hangs_witness:
  "fst (server_stop False 7 failed_server) \<and> srv_stopped_calls (server_run_next (snd (server_stop False 7 failed_server))) = []"
proof -
  have "server_step False s (server_run_next s) \<or> server_run_next s = s" for s
  proof (cases "srv_posted s")
    case (Cons h hs)
    have "server_step False s (server_run_handler h (s\<lparr>srv_posted := [] @ hs\<rparr>))"
      by (rule server_step.handler) (simp_all add: Cons)
    with Cons show ?thesis by (simp add: server_run_next_def)
  qed (simp add: server_run_next_def)
  then have "reachable (\<lambda>x. x = snd (server_stop False 7 failed_server)) (server_step False)
      (server_run_next (snd (server_stop False 7 failed_server)))"
    by (metis (mono_tags, lifting) reachable.start reachable.more)
  from tcp_server_stop_hangs [OF failed_server_reachable failed_server_state(1,2,3,4) this] show ?thesis by blast
qed

text \<open>When several threads run the \<open>io_context\<close>, the stopped callback can run while
  the cancel handler, which refers to the server, has not: \<open>stop\<close> then returns and the server
  may be destroyed under the handler.\<close>

theorem tcp_server_cancel_after_stop:
  "\<exists>s. reachable server_init (server_step False) s \<and> srv_stopped_calls s = [k] \<and> SH_cancel \<in> set (srv_posted s)"
proof -
  let ?s = "server_run_next (snd (server_stop False k (snd (server_async_start (TcpServer_new 16 16)))))"
  have posted: "srv_posted ?s = [SH_cancel] @ SH_stopped k # []" "srv_stopped_calls ?s = []"
    by (simp_all add: server_run_defs)
  have "reachable server_init (server_step False) ?s"
    by (intro reachable_server_run_next reachable_server_calls reachable_server_new)
  moreover have "server_step False ?s (server_run_handler (SH_stopped k) (?s\<lparr>srv_posted := [SH_cancel] @ []\<rparr>))"
    using posted(1) by (rule server_step.handler) simp
  ultimately have "reachable server_init (server_step False) (server_run_handler (SH_stopped k) (?s\<lparr>srv_posted := [SH_cancel] @ []\<rparr>))"
    by (rule reachable.more)
  moreover have "srv_stopped_calls (server_run_handler (SH_stopped k) (?s\<lparr>srv_posted := [SH_cancel] @ []\<rparr>)) = [k]"
    using posted(2) by simp
  ultimately show ?thesis by (intro exI conjI) auto
qed

end
