(* ===== verification/Tcp_Client.thy ===== *)
theory Tcp_Client
  imports Flags Transitions
begin

text \<open>
  \<open>eestv/net/connection/tcp_client.hpp\<close>, \<open>tcp_client.cpp\<close> and \<open>tcp_client_states.hpp\<close>: resolving a
  host, connecting to it, and stopping either.
\<close>

section \<open>State\<close>

datatype TcpClientState =
  CLS_schedule_resolving | CLS_resolving | CLS_connecting | CLS_stopping | CLS_stop_singaled

fun cls :: "TcpClientState \<Rightarrow> nat" where
  "cls CLS_schedule_resolving = 0"
| "cls CLS_resolving = 1"
| "cls CLS_connecting = 2"
| "cls CLS_stopping = 3"
| "cls CLS_stop_singaled = 4"

fun TcpClientState_to_string :: "TcpClientState \<Rightarrow> string" where
  "TcpClientState_to_string CLS_schedule_resolving = ''schedule_resolving''"
| "TcpClientState_to_string CLS_resolving = ''resolving''"
| "TcpClientState_to_string CLS_connecting = ''connecting''"
| "TcpClientState_to_string CLS_stopping = ''stopping''"
| "TcpClientState_to_string CLS_stop_singaled = ''stop_singaled''"

interpretation client_flags: flag_enum cls
proof
  show "cls a = cls b \<Longrightarrow> a = b" for a b by (cases a; cases b) simp_all
  show "cls a < 32" for a by (cases a) simp_all
qed

declare cls.simps [simp del]

text \<open>
  The handlers: the lambdas posted by \<open>async_connect\<close> and \<open>async_stop\<close>, the completions of
  \<open>async_resolve\<close> (with the endpoints found) and \<open>async_connect\<close>, the lambda that passes an error
  to a connection callback (it refers to the client), and the stopped callback.
\<close>

datatype 'e client_handler =
  CH_resolve string int | CH_cancel | CH_on_resolve error_code "'e list" | CH_on_connect error_code
  | CH_complete nat error_code | CH_stopped nat

text \<open>
  Callbacks are numbers. \<open>cl_resolves\<close> and \<open>cl_connects\<close> are the operations the system holds. The
  last four fields record what the outside has seen: the accepted connection attempts and stop
  requests, the calls of the connection callbacks and those of the stopped callbacks.
\<close>

record 'e Client =
  cl_flags :: Flags
  on_connection_complete :: "nat option"
  on_stopped :: "nat option"
  cl_posted :: "'e client_handler list"
  cl_resolves :: "(string \<times> string) list"
  cl_connects :: "'e list list"
  attempts :: nat
  stop_requests :: nat
  completions :: "(nat \<times> error_code) list"
  cl_stopped_calls :: "nat list"

abbreviation cget :: "TcpClientState \<Rightarrow> 'e Client \<Rightarrow> bool" where
  "cget f c \<equiv> get_flag (cls f) (cl_flags c)"

definition cset :: "TcpClientState \<Rightarrow> 'e Client \<Rightarrow> 'e Client" where
  "cset f c = c\<lparr>cl_flags := set_flag (cls f) (cl_flags c)\<rparr>"

definition cclear :: "TcpClientState \<Rightarrow> 'e Client \<Rightarrow> 'e Client" where
  "cclear f c = c\<lparr>cl_flags := clear_flag (cls f) (cl_flags c)\<rparr>"

definition cpost :: "'e client_handler \<Rightarrow> 'e Client \<Rightarrow> 'e Client" where
  "cpost h c = c\<lparr>cl_posted := cl_posted c @ [h]\<rparr>"

definition TcpClient_new :: "'e Client" where
  "TcpClient_new =
     \<lparr>cl_flags = flags_init, on_connection_complete = None, on_stopped = None, cl_posted = [],
      cl_resolves = [], cl_connects = [], attempts = 0, stop_requests = 0, completions = [],
      cl_stopped_calls = []\<rparr>"

section \<open>Member functions\<close>

definition client_async_connect :: "string \<Rightarrow> int \<Rightarrow> nat \<Rightarrow> 'e Client \<Rightarrow> bool \<times> 'e Client" where
  "client_async_connect host port callback c =
     (if cget CLS_resolving c \<or> cget CLS_schedule_resolving c \<or> cget CLS_connecting c \<or> cget CLS_stopping c
      then (False, c)
      else
        (True, cpost (CH_resolve host port)
          ((cset CLS_schedule_resolving c)\<lparr>on_connection_complete := Some callback, attempts := attempts c + 1\<rparr>)))"

definition client_resolve_on_stopped :: "'e Client \<Rightarrow> 'e Client" where
  "client_resolve_on_stopped c =
     (if \<not> cget CLS_stopping c \<and> \<not> cget CLS_schedule_resolving c \<and> \<not> cget CLS_resolving c \<and> \<not> cget CLS_connecting c
      then
        (case on_stopped c of
           None \<Rightarrow> c
         | Some k \<Rightarrow> cpost (CH_stopped k) (c\<lparr>on_stopped := None\<rparr>))
      else c)"

definition client_async_resolve :: "string \<Rightarrow> int \<Rightarrow> 'e Client \<Rightarrow> 'e Client" where
  "client_async_resolve host port c =
     (let c = cclear CLS_schedule_resolving c
      in if cget CLS_stop_singaled c then client_resolve_on_stopped c
         else (cset CLS_resolving c)\<lparr>cl_resolves := cl_resolves c @ [(host, to_string_int port)]\<rparr>)"

text \<open>Posting the callback with an error, as the error branches of the two completions do.\<close>

definition post_completion :: "error_code \<Rightarrow> 'e Client \<Rightarrow> 'e Client" where
  "post_completion error_code c =
     (case on_connection_complete c of
        None \<Rightarrow> c
      | Some k \<Rightarrow> cpost (CH_complete k error_code) (c\<lparr>on_connection_complete := None\<rparr>))"

definition handle_resolve :: "error_code \<Rightarrow> 'e list \<Rightarrow> 'e Client \<Rightarrow> 'e Client" where
  "handle_resolve error_code results c =
     (let c = (if error_code \<noteq> No_error then post_completion error_code c
               else (cset CLS_connecting c)\<lparr>cl_connects := cl_connects c @ [results]\<rparr>);
          c = cclear CLS_resolving c
      in if cget CLS_stop_singaled c then client_resolve_on_stopped c else c)"

definition handle_connect :: "error_code \<Rightarrow> 'e Client \<Rightarrow> 'e Client" where
  "handle_connect error_code c =
     (let c = cclear CLS_connecting c
      in if error_code \<noteq> No_error
         then
           (let c = (if cget CLS_stop_singaled c then client_resolve_on_stopped c else c)
            in post_completion error_code c)
         else if cget CLS_stop_singaled c then client_resolve_on_stopped c
         else
           (case on_connection_complete c of
              None \<Rightarrow> c
            | Some k \<Rightarrow> c\<lparr>on_connection_complete := None, completions := completions c @ [(k, error_code)]\<rparr>))"

definition client_async_stop :: "nat \<Rightarrow> 'e Client \<Rightarrow> bool \<times> 'e Client" where
  "client_async_stop callback c =
     (if cget CLS_stop_singaled c then (False, c)
      else
        (True, cpost CH_cancel
          ((cset CLS_stopping (cset CLS_stop_singaled c))\<lparr>on_stopped := Some callback, stop_requests := stop_requests c + 1\<rparr>)))"

definition client_cancel :: "'e Client \<Rightarrow> 'e Client" where
  "client_cancel c =
     c\<lparr>cl_posted := cl_posted c @ map (\<lambda>_. CH_on_connect Operation_aborted) (cl_connects c)
         @ map (\<lambda>_. CH_on_resolve Operation_aborted []) (cl_resolves c),
       cl_connects := [], cl_resolves := []\<rparr>"

definition client_stop_posted :: "'e Client \<Rightarrow> 'e Client" where
  "client_stop_posted c = client_resolve_on_stopped (cclear CLS_stopping (client_cancel c))"

definition client_stop :: "bool \<Rightarrow> nat \<Rightarrow> 'e Client \<Rightarrow> bool \<times> 'e Client" where
  "client_stop is_on_io_thread stopped c =
     (if is_on_io_thread then (False, c) else client_async_stop stopped c)"

definition client_reset :: "'e Client \<Rightarrow> 'e Client" where
  "client_reset c = c\<lparr>cl_flags := clear_all (cl_flags c)\<rparr>"

fun client_run_handler :: "'e client_handler \<Rightarrow> 'e Client \<Rightarrow> 'e Client" where
  "client_run_handler (CH_resolve host port) c = client_async_resolve host port c"
| "client_run_handler CH_cancel c = client_stop_posted c"
| "client_run_handler (CH_on_resolve e results) c = handle_resolve e results c"
| "client_run_handler (CH_on_connect e) c = handle_connect e c"
| "client_run_handler (CH_complete k e) c = c\<lparr>completions := completions c @ [(k, e)]\<rparr>"
| "client_run_handler (CH_stopped k) c = c\<lparr>cl_stopped_calls := cl_stopped_calls c @ [k]\<rparr>"

text \<open>\<open>to_string\<close>, with the five tests of the source in order; the pair is \<open>result\<close> and \<open>first\<close>.\<close>

definition append_flag :: "'e Client \<Rightarrow> TcpClientState \<Rightarrow> string \<times> bool \<Rightarrow> string \<times> bool" where
  "append_flag c f = (\<lambda>(result, first).
     if cget f c
     then ((if \<not> first then result @ '', '' else result) @ TcpClientState_to_string f, False)
     else (result, first))"

definition client_to_string :: "'e Client \<Rightarrow> string" where
  "client_to_string c =
     (let p = (''TcpClient flags: ['', True);
          p = append_flag c CLS_schedule_resolving p;
          p = append_flag c CLS_resolving p;
          p = append_flag c CLS_connecting p;
          p = append_flag c CLS_stopping p;
          p = append_flag c CLS_stop_singaled p
      in fst p @ '']'')"

section \<open>Steps\<close>

text \<open>
  A call of the user, a completion by the system, or one queued handler. With \<open>one_thread\<close> the
  handlers run in order; \<open>may_reset\<close> allows \<open>reset\<close> where the header allows it: after a stop
  whose callback has been called, with no attempt started since.
\<close>

definition client_busy :: "'e Client \<Rightarrow> bool" where
  "client_busy c \<longleftrightarrow> cget CLS_stopping c \<or> cget CLS_schedule_resolving c \<or> cget CLS_resolving c \<or> cget CLS_connecting c"

inductive client_step :: "bool \<Rightarrow> bool \<Rightarrow> 'e Client \<Rightarrow> 'e Client \<Rightarrow> bool" for one_thread may_reset where
  connect: "client_step one_thread may_reset c (snd (client_async_connect host port k c))"
| stop: "client_step one_thread may_reset c (snd (client_stop io_thread k c))"
| reset: "may_reset \<Longrightarrow> \<not> client_busy c \<Longrightarrow> length (cl_stopped_calls c) = stop_requests c \<Longrightarrow>
    client_step one_thread may_reset c (client_reset c)"
| handler: "cl_posted c = hs @ h # hs' \<Longrightarrow> one_thread \<longrightarrow> hs = [] \<Longrightarrow>
    client_step one_thread may_reset c (client_run_handler h (c\<lparr>cl_posted := hs @ hs'\<rparr>))"
| resolved: "cl_resolves c = rs @ r # rs' \<Longrightarrow>
    client_step one_thread may_reset c (cpost (CH_on_resolve No_error results) (c\<lparr>cl_resolves := rs @ rs'\<rparr>))"
| resolve_failed: "cl_resolves c = rs @ r # rs' \<Longrightarrow>
    client_step one_thread may_reset c (cpost (CH_on_resolve Other_error []) (c\<lparr>cl_resolves := rs @ rs'\<rparr>))"
| connected: "cl_connects c = cs @ r # cs' \<Longrightarrow>
    client_step one_thread may_reset c (cpost (CH_on_connect No_error) (c\<lparr>cl_connects := cs @ cs'\<rparr>))"
| connect_failed: "cl_connects c = cs @ r # cs' \<Longrightarrow>
    client_step one_thread may_reset c (cpost (CH_on_connect Other_error) (c\<lparr>cl_connects := cs @ cs'\<rparr>))"

definition client_init :: "'e Client \<Rightarrow> bool" where
  "client_init c \<longleftrightarrow> c = TcpClient_new"

section \<open>Flags of an updated client\<close>

lemma cget_simps [simp]:
  "get_flag (cls f) (cl_flags (cset g c)) \<longleftrightarrow> f = g \<or> cget f c"
  "get_flag (cls f) (cl_flags (cclear g c)) \<longleftrightarrow> f \<noteq> g \<and> cget f c"
  "cl_flags (cpost h c) = cl_flags c"
  by (simp_all add: cset_def cclear_def cpost_def client_flags.flag_laws)

lemma cset_frame [simp]:
  "on_connection_complete (cset f c) = on_connection_complete c" "on_stopped (cset f c) = on_stopped c"
  "cl_posted (cset f c) = cl_posted c" "cl_resolves (cset f c) = cl_resolves c" "cl_connects (cset f c) = cl_connects c"
  "attempts (cset f c) = attempts c" "stop_requests (cset f c) = stop_requests c"
  "completions (cset f c) = completions c" "cl_stopped_calls (cset f c) = cl_stopped_calls c"
  by (simp_all add: cset_def)

lemma cclear_frame [simp]:
  "on_connection_complete (cclear f c) = on_connection_complete c" "on_stopped (cclear f c) = on_stopped c"
  "cl_posted (cclear f c) = cl_posted c" "cl_resolves (cclear f c) = cl_resolves c" "cl_connects (cclear f c) = cl_connects c"
  "attempts (cclear f c) = attempts c" "stop_requests (cclear f c) = stop_requests c"
  "completions (cclear f c) = completions c" "cl_stopped_calls (cclear f c) = cl_stopped_calls c"
  by (simp_all add: cclear_def)

lemma cpost_frame [simp]:
  "on_connection_complete (cpost h c) = on_connection_complete c" "on_stopped (cpost h c) = on_stopped c"
  "cl_posted (cpost h c) = cl_posted c @ [h]" "cl_resolves (cpost h c) = cl_resolves c" "cl_connects (cpost h c) = cl_connects c"
  "attempts (cpost h c) = attempts c" "stop_requests (cpost h c) = stop_requests c"
  "completions (cpost h c) = completions c" "cl_stopped_calls (cpost h c) = cl_stopped_calls c"
  by (simp_all add: cpost_def)

section \<open>The invariant\<close>

fun is_resolve :: "'e client_handler \<Rightarrow> bool" where
  "is_resolve (CH_resolve _ _) \<longleftrightarrow> True" | "is_resolve _ \<longleftrightarrow> False"

fun is_on_resolve :: "'e client_handler \<Rightarrow> bool" where
  "is_on_resolve (CH_on_resolve _ _) \<longleftrightarrow> True" | "is_on_resolve _ \<longleftrightarrow> False"

fun is_on_connect :: "'e client_handler \<Rightarrow> bool" where
  "is_on_connect (CH_on_connect _) \<longleftrightarrow> True" | "is_on_connect _ \<longleftrightarrow> False"

fun is_complete :: "'e client_handler \<Rightarrow> bool" where
  "is_complete (CH_complete _ _) \<longleftrightarrow> True" | "is_complete _ \<longleftrightarrow> False"

fun is_client_stopped :: "'e client_handler \<Rightarrow> bool" where
  "is_client_stopped (CH_stopped _) \<longleftrightarrow> True" | "is_client_stopped _ \<longleftrightarrow> False"

definition stop_owed :: "'e Client \<Rightarrow> nat" where
  "stop_owed c = (if on_stopped c = None then 0 else 1)"

definition completion_owed :: "'e Client \<Rightarrow> nat" where
  "completion_owed c = (if on_connection_complete c = None then 0 else 1)"

text \<open>Every flag counts the work it stands for, and one attempt is in at most one phase.\<close>

definition phase_inv :: "'e Client \<Rightarrow> bool" where
  "phase_inv c \<longleftrightarrow>
     jobs is_resolve (cl_posted c) = of_bool (cget CLS_schedule_resolving c) \<and>
     length (cl_resolves c) + jobs is_on_resolve (cl_posted c) = of_bool (cget CLS_resolving c) \<and>
     length (cl_connects c) + jobs is_on_connect (cl_posted c) = of_bool (cget CLS_connecting c) \<and>
     jobs (\<lambda>h. h = CH_cancel) (cl_posted c) = of_bool (cget CLS_stopping c) \<and>
     (cget CLS_schedule_resolving c \<longrightarrow> \<not> cget CLS_resolving c \<and> \<not> cget CLS_connecting c) \<and>
     (cget CLS_resolving c \<longrightarrow> \<not> cget CLS_connecting c) \<and>
     (cget CLS_stopping c \<longrightarrow> cget CLS_stop_singaled c)"

text \<open>The callbacks: a stop request is owed only while the client is busy, and as long as no stop
  was requested a connection callback is owed exactly while an attempt is in progress.\<close>

definition stop_inv :: "'e Client \<Rightarrow> bool" where
  "stop_inv c \<longleftrightarrow>
     stop_owed c + jobs is_client_stopped (cl_posted c) + length (cl_stopped_calls c) = stop_requests c \<and>
     (stop_owed c = 1 \<longrightarrow> cget CLS_stop_singaled c) \<and>
     (stop_owed c = 1 \<longrightarrow> client_busy c) \<and>
     (cget CLS_stop_singaled c \<longrightarrow> stop_requests c \<noteq> 0)"

definition attempting :: "'e Client \<Rightarrow> bool" where
  "attempting c \<longleftrightarrow> cget CLS_schedule_resolving c \<or> cget CLS_resolving c \<or> cget CLS_connecting c"

definition completion_inv :: "'e Client \<Rightarrow> bool" where
  "completion_inv c \<longleftrightarrow>
     completion_owed c + jobs is_complete (cl_posted c) + length (completions c) \<le> attempts c \<and>
     (stop_requests c = 0 \<longrightarrow>
        completion_owed c + jobs is_complete (cl_posted c) + length (completions c) = attempts c \<and>
        completion_owed c = of_bool (attempting c))"

definition client_inv :: "'e Client \<Rightarrow> bool" where
  "client_inv c \<longleftrightarrow> phase_inv c \<and> stop_inv c \<and> completion_inv c"

lemmas client_inv_defs = client_inv_def phase_inv_def stop_inv_def completion_inv_def client_busy_def attempting_def

lemma stop_owed_cases: obtains "on_stopped c = None" "stop_owed c = 0"
  | k where "on_stopped c = Some k" "stop_owed c = 1"
  by (cases "on_stopped c") (simp_all add: stop_owed_def)

lemma completion_owed_cases: obtains "on_connection_complete c = None" "completion_owed c = 0"
  | k where "on_connection_complete c = Some k" "completion_owed c = 1"
  by (cases "on_connection_complete c") (simp_all add: completion_owed_def)

lemma owed_simps [simp]:
  "stop_owed (cset f c) = stop_owed c" "stop_owed (cclear f c) = stop_owed c" "stop_owed (cpost h c) = stop_owed c"
  "stop_owed (c\<lparr>cl_posted := q\<rparr>) = stop_owed c" "stop_owed (c\<lparr>cl_resolves := rs\<rparr>) = stop_owed c"
  "stop_owed (c\<lparr>cl_connects := cs\<rparr>) = stop_owed c" "stop_owed (c\<lparr>on_connection_complete := k\<rparr>) = stop_owed c"
  "stop_owed (c\<lparr>attempts := n\<rparr>) = stop_owed c" "stop_owed (c\<lparr>completions := ks\<rparr>) = stop_owed c"
  "stop_owed (c\<lparr>cl_stopped_calls := ss\<rparr>) = stop_owed c" "stop_owed (c\<lparr>cl_flags := fl\<rparr>) = stop_owed c"
  "stop_owed (c\<lparr>stop_requests := n\<rparr>) = stop_owed c"
  "stop_owed (c\<lparr>on_stopped := None\<rparr>) = 0" "stop_owed (c\<lparr>on_stopped := Some j\<rparr>) = 1"
  by (simp_all add: stop_owed_def)

lemma completion_owed_simps [simp]:
  "completion_owed (cset f c) = completion_owed c" "completion_owed (cclear f c) = completion_owed c"
  "completion_owed (cpost h c) = completion_owed c" "completion_owed (c\<lparr>cl_posted := q\<rparr>) = completion_owed c"
  "completion_owed (c\<lparr>cl_resolves := rs\<rparr>) = completion_owed c" "completion_owed (c\<lparr>cl_connects := cs\<rparr>) = completion_owed c"
  "completion_owed (c\<lparr>attempts := n\<rparr>) = completion_owed c" "completion_owed (c\<lparr>completions := ks\<rparr>) = completion_owed c"
  "completion_owed (c\<lparr>cl_stopped_calls := ss\<rparr>) = completion_owed c" "completion_owed (c\<lparr>cl_flags := fl\<rparr>) = completion_owed c"
  "completion_owed (c\<lparr>on_stopped := k\<rparr>) = completion_owed c" "completion_owed (c\<lparr>stop_requests := n\<rparr>) = completion_owed c"
  "completion_owed (c\<lparr>on_connection_complete := None\<rparr>) = 0" "completion_owed (c\<lparr>on_connection_complete := Some j\<rparr>) = 1"
  by (simp_all add: completion_owed_def)

lemma client_init_inv: "client_init c \<Longrightarrow> client_inv c"
  by (simp add: client_init_def TcpClient_new_def client_inv_defs stop_owed_def completion_owed_def)

lemma client_resolve_eq:
  "client_resolve_on_stopped c =
    (if client_busy c then c
     else case on_stopped c of None \<Rightarrow> c | Some k \<Rightarrow> cpost (CH_stopped k) (c\<lparr>on_stopped := None\<rparr>))"
  by (auto simp: client_resolve_on_stopped_def client_busy_def)

lemma phase_inv_frame [simp]:
  "phase_inv (c\<lparr>on_stopped := k\<rparr>) = phase_inv c" "phase_inv (c\<lparr>on_connection_complete := j\<rparr>) = phase_inv c"
  "phase_inv (c\<lparr>attempts := n\<rparr>) = phase_inv c" "phase_inv (c\<lparr>stop_requests := n\<rparr>) = phase_inv c"
  "phase_inv (c\<lparr>completions := ks\<rparr>) = phase_inv c" "phase_inv (c\<lparr>cl_stopped_calls := ss\<rparr>) = phase_inv c"
  "phase_inv (cpost (CH_stopped i) c) = phase_inv c" "phase_inv (cpost (CH_complete i e) c) = phase_inv c"
  by (simp_all add: phase_inv_def)

lemma phase_inv_resolve [simp]: "phase_inv (client_resolve_on_stopped c) = phase_inv c"
  by (simp add: client_resolve_eq split: option.split)

lemma phase_inv_post_completion [simp]: "phase_inv (post_completion e c) = phase_inv c"
  by (simp add: post_completion_def split: option.split)

lemma post_completion_frame [simp]:
  "cl_flags (post_completion e c) = cl_flags c" "cl_resolves (post_completion e c) = cl_resolves c"
  "cl_connects (post_completion e c) = cl_connects c" "on_stopped (post_completion e c) = on_stopped c"
  "stop_requests (post_completion e c) = stop_requests c" "cl_stopped_calls (post_completion e c) = cl_stopped_calls c"
  "attempts (post_completion e c) = attempts c" "completions (post_completion e c) = completions c"
  "jobs is_resolve (cl_posted (post_completion e c)) = jobs is_resolve (cl_posted c)"
  "jobs is_on_resolve (cl_posted (post_completion e c)) = jobs is_on_resolve (cl_posted c)"
  "jobs is_on_connect (cl_posted (post_completion e c)) = jobs is_on_connect (cl_posted c)"
  "jobs (\<lambda>h. h = CH_cancel) (cl_posted (post_completion e c)) = jobs (\<lambda>h. h = CH_cancel) (cl_posted c)"
  "jobs is_client_stopped (cl_posted (post_completion e c)) = jobs is_client_stopped (cl_posted c)"
  "stop_owed (post_completion e c) = stop_owed c" "completion_owed (post_completion e c) = 0"
  "jobs is_complete (cl_posted (post_completion e c)) = completion_owed c + jobs is_complete (cl_posted c)"
  by (cases c rule: completion_owed_cases; simp add: post_completion_def)+

text \<open>What a queued handler says about the phase.\<close>

lemma CH_resolve_queued:
  assumes "phase_inv c" and "cl_posted c = hs @ CH_resolve host port # hs'"
  shows "cget CLS_schedule_resolving c \<and> \<not> cget CLS_resolving c \<and> \<not> cget CLS_connecting c"
  using assms by (cases "cget CLS_schedule_resolving c") (simp_all add: phase_inv_def)

lemma CH_on_resolve_queued:
  assumes "phase_inv c" and "cl_posted c = hs @ CH_on_resolve e es # hs'"
  shows "cget CLS_resolving c \<and> \<not> cget CLS_schedule_resolving c \<and> \<not> cget CLS_connecting c"
  using assms by (cases "cget CLS_resolving c"; cases "cget CLS_schedule_resolving c") (simp_all add: phase_inv_def)

lemma CH_on_connect_queued:
  assumes "phase_inv c" and "cl_posted c = hs @ CH_on_connect e # hs'"
  shows "cget CLS_connecting c \<and> \<not> cget CLS_schedule_resolving c \<and> \<not> cget CLS_resolving c"
  using assms by (cases "cget CLS_connecting c"; cases "cget CLS_schedule_resolving c"; cases "cget CLS_resolving c")
    (simp_all add: phase_inv_def)

lemma CH_cancel_queued:
  assumes "phase_inv c" and "cl_posted c = hs @ CH_cancel # hs'"
  shows "cget CLS_stopping c \<and> cget CLS_stop_singaled c"
  using assms by (cases "cget CLS_stopping c") (simp_all add: phase_inv_def)

section \<open>Preservation of the phases\<close>

lemma connect_phase: "phase_inv c \<Longrightarrow> phase_inv (snd (client_async_connect host port k c))"
  by (cases "client_busy c") (auto simp: client_async_connect_def client_busy_def phase_inv_def)

lemma stop_phase: "phase_inv c \<Longrightarrow> phase_inv (snd (client_async_stop k c))"
  by (cases "cget CLS_stop_singaled c") (auto simp: client_async_stop_def phase_inv_def)

lemma reset_phase: "phase_inv c \<Longrightarrow> \<not> client_busy c \<Longrightarrow> phase_inv (client_reset c)"
  by (simp add: client_reset_def phase_inv_def client_busy_def)

lemma cleared_schedule_phase:
  assumes "phase_inv c" and "cl_posted c = hs @ CH_resolve host port # hs'"
  shows "phase_inv (cclear CLS_schedule_resolving (c\<lparr>cl_posted := hs @ hs'\<rparr>))"
  using assms CH_resolve_queued [OF assms] by (simp add: phase_inv_def)

lemma resolve_phase:
  assumes "phase_inv c" and "cl_posted c = hs @ CH_resolve host port # hs'"
  shows "phase_inv (client_async_resolve host port (c\<lparr>cl_posted := hs @ hs'\<rparr>))"
proof (cases "cget CLS_stop_singaled c")
  case True
  with cleared_schedule_phase [OF assms] show ?thesis by (simp add: client_async_resolve_def)
next
  case False
  with assms CH_resolve_queued [OF assms] show ?thesis
    by (simp add: client_async_resolve_def Let_def phase_inv_def client_flags.flag_laws)
qed

lemma on_resolve_phase:
  assumes "phase_inv c" and "cl_posted c = hs @ CH_on_resolve e es # hs'"
  shows "phase_inv (handle_resolve e es (c\<lparr>cl_posted := hs @ hs'\<rparr>))"
proof -
  let ?d = "c\<lparr>cl_posted := hs @ hs'\<rparr>"
  have "phase_inv (cclear CLS_resolving (post_completion e ?d))"
    using assms CH_on_resolve_queued [OF assms] by (simp add: phase_inv_def)
  moreover have "phase_inv (cclear CLS_resolving ((cset CLS_connecting ?d)\<lparr>cl_connects := cl_connects c @ [es]\<rparr>))"
    using assms CH_on_resolve_queued [OF assms] by (simp add: phase_inv_def client_flags.flag_laws)
  ultimately show ?thesis by (simp add: handle_resolve_def Let_def)
qed

lemma on_connect_phase:
  assumes "phase_inv c" and "cl_posted c = hs @ CH_on_connect e # hs'"
  shows "phase_inv (handle_connect e (c\<lparr>cl_posted := hs @ hs'\<rparr>))"
proof -
  have "phase_inv (cclear CLS_connecting (c\<lparr>cl_posted := hs @ hs'\<rparr>))"
    using assms CH_on_connect_queued [OF assms] by (simp add: phase_inv_def)
  then show ?thesis by (simp add: handle_connect_def Let_def split: option.split)
qed

lemma stop_posted_phase:
  assumes "phase_inv c" and "cl_posted c = hs @ CH_cancel # hs'"
  shows "phase_inv (client_stop_posted (c\<lparr>cl_posted := hs @ hs'\<rparr>))"
proof -
  have "phase_inv (cclear CLS_stopping (client_cancel (c\<lparr>cl_posted := hs @ hs'\<rparr>)))"
    using assms CH_cancel_queued [OF assms] by (simp add: client_cancel_def phase_inv_def)
  then show ?thesis by (simp add: client_stop_posted_def)
qed

lemma handler_phase:
  assumes "phase_inv c" and "cl_posted c = hs @ h # hs'"
  shows "phase_inv (client_run_handler h (c\<lparr>cl_posted := hs @ hs'\<rparr>))"
proof (cases h)
  case (CH_complete k e)
  with assms show ?thesis by (simp add: phase_inv_def)
next
  case (CH_stopped k)
  with assms show ?thesis by (simp add: phase_inv_def)
qed (use assms in \<open>simp_all add: resolve_phase stop_posted_phase on_resolve_phase on_connect_phase\<close>)

lemma client_step_phase:
  assumes "client_step t r c c'" and "phase_inv c"
  shows "phase_inv c'"
  using assms(1)
proof cases
  case (stop io_thread k)
  with assms(2) show ?thesis by (cases io_thread) (simp_all add: client_stop_def stop_phase)
qed (use assms(2) in \<open>simp_all add: connect_phase reset_phase handler_phase, simp_all add: phase_inv_def\<close>)

section \<open>Preservation of the ledger of stop requests\<close>

text \<open>\<^const>\<open>stop_inv\<close> without the clause that \<^const>\<open>client_resolve_on_stopped\<close> restores.\<close>

definition stop_ledger :: "'e Client \<Rightarrow> bool" where
  "stop_ledger c \<longleftrightarrow>
     stop_owed c + jobs is_client_stopped (cl_posted c) + length (cl_stopped_calls c) = stop_requests c \<and>
     (stop_owed c = 1 \<longrightarrow> cget CLS_stop_singaled c) \<and>
     (cget CLS_stop_singaled c \<longrightarrow> stop_requests c \<noteq> 0)"

lemma client_resolve_flags [simp]: "cl_flags (client_resolve_on_stopped c) = cl_flags c"
  by (simp add: client_resolve_eq split: option.split)

lemma stop_inv_resolve: "stop_ledger c \<Longrightarrow> stop_inv (client_resolve_on_stopped c)"
  by (cases c rule: stop_owed_cases; cases "client_busy c")
    (simp_all add: client_resolve_eq stop_ledger_def stop_inv_def)

lemma stop_inv_ledger: "stop_inv c \<Longrightarrow> stop_ledger c"
  by (simp add: stop_inv_def stop_ledger_def)

text \<open>A handler that leaves the ledger alone and, while no stop is signaled, changes the phase.\<close>

lemma stop_inv_not_signaled: "stop_ledger c \<Longrightarrow> \<not> cget CLS_stop_singaled c \<Longrightarrow> stop_inv c"
  by (cases c rule: stop_owed_cases) (simp_all add: stop_ledger_def stop_inv_def)

lemma stop_ledger_frame [simp]:
  "stop_ledger (c\<lparr>on_connection_complete := j\<rparr>) = stop_ledger c" "stop_ledger (c\<lparr>cl_resolves := rs\<rparr>) = stop_ledger c"
  "stop_ledger (c\<lparr>cl_connects := cs\<rparr>) = stop_ledger c" "stop_ledger (c\<lparr>completions := ks\<rparr>) = stop_ledger c"
  "stop_ledger (c\<lparr>attempts := n\<rparr>) = stop_ledger c" "stop_ledger (post_completion e c) = stop_ledger c"
  by (simp_all add: stop_ledger_def)

lemma stop_ledger_flags [simp]:
  "f \<noteq> CLS_stop_singaled \<Longrightarrow> stop_ledger (cset f c) = stop_ledger c"
  "f \<noteq> CLS_stop_singaled \<Longrightarrow> stop_ledger (cclear f c) = stop_ledger c"
  by (auto simp: stop_ledger_def)

lemma stop_ledger_drop:
  "cl_posted c = hs @ h # hs' \<Longrightarrow> \<not> is_client_stopped h \<Longrightarrow> stop_ledger (c\<lparr>cl_posted := hs @ hs'\<rparr>) = stop_ledger c"
  by (simp add: stop_ledger_def)

lemma client_busy_frame [simp]:
  "client_busy (c\<lparr>on_connection_complete := j\<rparr>) = client_busy c" "client_busy (c\<lparr>cl_resolves := rs\<rparr>) = client_busy c"
  "client_busy (c\<lparr>cl_connects := cs\<rparr>) = client_busy c" "client_busy (c\<lparr>completions := ks\<rparr>) = client_busy c"
  "client_busy (c\<lparr>attempts := n\<rparr>) = client_busy c" "client_busy (post_completion e c) = client_busy c"
  "client_busy (c\<lparr>cl_posted := q\<rparr>) = client_busy c" "client_busy (c\<lparr>cl_stopped_calls := ss\<rparr>) = client_busy c"
  "client_busy (cpost h c) = client_busy c"
  by (simp_all add: client_busy_def)

lemma stop_inv_frame [simp]:
  "stop_inv (post_completion e c) = stop_inv c" "stop_inv (c\<lparr>completions := ks\<rparr>) = stop_inv c"
  "stop_inv (c\<lparr>on_connection_complete := j\<rparr>) = stop_inv c"
  by (simp_all add: stop_inv_def)

lemma connect_stop: "stop_inv c \<Longrightarrow> stop_inv (snd (client_async_connect host port k c))"
  by (cases "client_busy c"; cases c rule: stop_owed_cases)
    (simp_all add: client_async_connect_def stop_inv_def, simp_all add: client_busy_def)

lemma stop_stop: "stop_inv c \<Longrightarrow> stop_inv (snd (client_async_stop k c))"
  by (cases "cget CLS_stop_singaled c"; cases c rule: stop_owed_cases)
    (simp_all add: client_async_stop_def stop_inv_def, simp_all add: client_busy_def)

lemma reset_stop: "stop_inv c \<Longrightarrow> length (cl_stopped_calls c) = stop_requests c \<Longrightarrow> stop_inv (client_reset c)"
  by (cases c rule: stop_owed_cases) (simp_all add: client_reset_def stop_inv_def)

lemma resolve_stop:
  assumes "stop_ledger c"
  shows "stop_inv (client_async_resolve host port c)"
  using assms by (simp add: client_async_resolve_def Let_def stop_inv_resolve stop_inv_not_signaled)

lemma on_resolve_stop:
  assumes "stop_ledger c"
  shows "stop_inv (handle_resolve e es c)"
  using assms by (simp add: handle_resolve_def Let_def stop_inv_resolve stop_inv_not_signaled)

lemma on_connect_stop:
  assumes "stop_ledger c"
  shows "stop_inv (handle_connect e c)"
  using assms by (simp add: handle_connect_def Let_def stop_inv_resolve stop_inv_not_signaled split: option.split)

lemma client_cancel_ledger: "stop_ledger (client_cancel c) = stop_ledger c"
  by (simp add: stop_ledger_def client_cancel_def stop_owed_def)

lemma stop_posted_stop: "stop_ledger c \<Longrightarrow> stop_inv (client_stop_posted c)"
  by (simp add: client_stop_posted_def stop_inv_resolve client_cancel_ledger)

lemma handler_stop:
  assumes "stop_inv c" and "cl_posted c = hs @ h # hs'"
  shows "stop_inv (client_run_handler h (c\<lparr>cl_posted := hs @ hs'\<rparr>))"
proof (cases h)
  case (CH_complete k e)
  with assms show ?thesis by (simp add: stop_inv_def)
next
  case (CH_stopped k)
  with assms show ?thesis by (simp add: stop_inv_def)
qed (use stop_inv_ledger [OF assms(1)] stop_ledger_drop [OF assms(2)] in
  \<open>simp_all add: resolve_stop stop_posted_stop on_resolve_stop on_connect_stop\<close>)

lemma client_step_stop:
  assumes "client_step t r c c'" and "stop_inv c"
  shows "stop_inv c'"
  using assms(1)
proof cases
  case (stop io_thread k)
  with assms(2) show ?thesis by (cases io_thread) (simp_all add: client_stop_def stop_stop)
qed (use assms(2) in \<open>simp_all add: connect_stop reset_stop handler_stop, simp_all add: stop_inv_def\<close>)

section \<open>Preservation of the ledger of connection callbacks\<close>

lemma client_resolve_completion [simp]:
  "completion_owed (client_resolve_on_stopped c) = completion_owed c"
  "jobs is_complete (cl_posted (client_resolve_on_stopped c)) = jobs is_complete (cl_posted c)"
  "completions (client_resolve_on_stopped c) = completions c" "attempts (client_resolve_on_stopped c) = attempts c"
  "stop_requests (client_resolve_on_stopped c) = stop_requests c"
  by (simp_all add: client_resolve_eq split: option.split)

lemma attempting_resolve [simp]: "attempting (client_resolve_on_stopped c) = attempting c"
  by (simp add: attempting_def)

lemma completion_inv_resolve [simp]: "completion_inv (client_resolve_on_stopped c) = completion_inv c"
  by (simp add: completion_inv_def)

lemma stop_never: "stop_inv c \<Longrightarrow> stop_requests c = 0 \<Longrightarrow> \<not> cget CLS_stop_singaled c"
  by (auto simp: stop_inv_def)

lemma attempting_frame [simp]:
  "attempting (c\<lparr>on_connection_complete := j\<rparr>) = attempting c" "attempting (c\<lparr>cl_resolves := rs\<rparr>) = attempting c"
  "attempting (c\<lparr>cl_connects := cs\<rparr>) = attempting c" "attempting (c\<lparr>completions := ks\<rparr>) = attempting c"
  "attempting (c\<lparr>attempts := n\<rparr>) = attempting c" "attempting (post_completion e c) = attempting c"
  "attempting (c\<lparr>cl_posted := q\<rparr>) = attempting c" "attempting (c\<lparr>cl_stopped_calls := ss\<rparr>) = attempting c"
  "attempting (c\<lparr>on_stopped := k\<rparr>) = attempting c" "attempting (c\<lparr>stop_requests := n\<rparr>) = attempting c"
  "attempting (cpost h c) = attempting c"
  "attempting (cset CLS_stopping c) = attempting c" "attempting (cset CLS_stop_singaled c) = attempting c"
  "attempting (cclear CLS_stopping c) = attempting c"
  by (simp_all add: attempting_def)

lemma completion_inv_cases:
  "completion_inv c \<longleftrightarrow>
     completion_owed c + jobs is_complete (cl_posted c) + length (completions c) \<le> attempts c \<and>
     (stop_requests c \<noteq> 0 \<or>
        completion_owed c + jobs is_complete (cl_posted c) + length (completions c) = attempts c \<and>
        completion_owed c = of_bool (attempting c))"
  unfolding completion_inv_def by blast

lemma connect_completion: "completion_inv c \<Longrightarrow> completion_inv (snd (client_async_connect host port k c))"
proof (cases "client_busy c")
  case False
  moreover have "\<not> attempting c" using False by (simp add: client_busy_def attempting_def)
  moreover assume "completion_inv c"
  ultimately show ?thesis
    by (cases "stop_requests c"; cases c rule: completion_owed_cases)
      (simp_all add: client_async_connect_def completion_inv_cases client_busy_def attempting_def)
qed (auto simp: client_async_connect_def client_busy_def)

lemma stop_completion: "completion_inv c \<Longrightarrow> completion_inv (snd (client_async_stop k c))"
  by (cases "cget CLS_stop_singaled c") (simp_all add: client_async_stop_def completion_inv_cases)

lemma reset_completion: "completion_inv c \<Longrightarrow> \<not> client_busy c \<Longrightarrow> completion_inv (client_reset c)"
proof -
  assume "\<not> client_busy c"
  then have "attempting (client_reset c) = attempting c" by (simp add: client_reset_def attempting_def client_busy_def)
  then show "completion_inv c \<Longrightarrow> completion_inv (client_reset c)"
    by (simp add: completion_inv_cases client_reset_def)
qed

lemma resolve_completion:
  assumes "client_inv c" and "cl_posted c = hs @ CH_resolve host port # hs'"
  shows "completion_inv (client_async_resolve host port (c\<lparr>cl_posted := hs @ hs'\<rparr>))"
proof -
  have sched: "cget CLS_schedule_resolving c" and never: "stop_requests c = 0 \<Longrightarrow> \<not> cget CLS_stop_singaled c"
    using assms(1) CH_resolve_queued [OF _ assms(2)] stop_never [of c] by (simp_all add: client_inv_def)
  then have "attempting c" by (simp add: attempting_def)
  moreover have "completion_inv c" using assms by (simp add: client_inv_def)
  moreover have "attempting ((cset CLS_resolving d)\<lparr>cl_resolves := rs\<rparr>)" for d :: "'a Client" and rs
    by (simp add: attempting_def)
  moreover have "stop_requests c \<noteq> 0 \<or> \<not> cget CLS_stop_singaled c" using never by blast
  ultimately show ?thesis
    using assms(2)
    by (cases "cget CLS_stop_singaled c") (auto simp: client_async_resolve_def Let_def completion_inv_cases)
qed

lemma on_resolve_completion:
  assumes "client_inv c" and "cl_posted c = hs @ CH_on_resolve e es # hs'"
  shows "completion_inv (handle_resolve e es (c\<lparr>cl_posted := hs @ hs'\<rparr>))"
proof -
  have phase: "cget CLS_resolving c \<and> \<not> cget CLS_schedule_resolving c \<and> \<not> cget CLS_connecting c"
    using assms(1) CH_on_resolve_queued [OF _ assms(2)] by (simp add: client_inv_def)
  then have "attempting c" by (simp add: attempting_def)
  moreover have "completion_inv c" using assms by (simp add: client_inv_def)
  ultimately have "completion_inv (cclear CLS_resolving (post_completion e (c\<lparr>cl_posted := hs @ hs'\<rparr>)))"
    "completion_inv (cclear CLS_resolving ((cset CLS_connecting (c\<lparr>cl_posted := hs @ hs'\<rparr>))\<lparr>cl_connects := cl_connects c @ [es]\<rparr>))"
    using assms(2) phase
    by (auto simp: completion_inv_cases) (simp_all add: attempting_def client_flags.flag_laws)
  then show ?thesis by (simp add: handle_resolve_def Let_def)
qed

lemma on_connect_completion:
  assumes "client_inv c" and "cl_posted c = hs @ CH_on_connect e # hs'"
  shows "completion_inv (handle_connect e (c\<lparr>cl_posted := hs @ hs'\<rparr>))"
proof -
  let ?d = "cclear CLS_connecting (c\<lparr>cl_posted := hs @ hs'\<rparr>)"
  have "cget CLS_connecting c \<and> \<not> cget CLS_schedule_resolving c \<and> \<not> cget CLS_resolving c"
    using assms(1) CH_on_connect_queued [OF _ assms(2)] by (simp add: client_inv_def)
  then have phase: "attempting c" "\<not> attempting ?d" by (simp_all add: attempting_def)
  have never: "cget CLS_stop_singaled c \<Longrightarrow> stop_requests c \<noteq> 0" using assms(1) stop_never by (auto simp: client_inv_def)
  have inv: "completion_inv c" using assms by (simp add: client_inv_def)
  show ?thesis
  proof (cases "cget CLS_stop_singaled c")
    case True
    with inv phase never assms(2) show ?thesis
      by (simp add: handle_connect_def Let_def completion_inv_cases)
  next
    case False
    with inv phase assms(2) show ?thesis
      by (cases c rule: completion_owed_cases) (simp_all add: handle_connect_def Let_def completion_inv_cases)
  qed
qed

lemma stop_posted_completion:
  assumes "completion_inv c" and "cl_posted c = hs @ CH_cancel # hs'"
  shows "completion_inv (client_stop_posted (c\<lparr>cl_posted := hs @ hs'\<rparr>))"
proof -
  have "attempting (client_cancel d) = attempting d" "completion_owed (client_cancel d) = completion_owed d" for d :: "'a Client"
    by (simp_all add: client_cancel_def attempting_def completion_owed_def)
  with assms show ?thesis
    by (auto simp: client_stop_posted_def completion_inv_cases) (auto simp: client_cancel_def)
qed

lemma handler_completion:
  assumes "client_inv c" and "cl_posted c = hs @ h # hs'"
  shows "completion_inv (client_run_handler h (c\<lparr>cl_posted := hs @ hs'\<rparr>))"
proof -
  have inv: "completion_inv c" using assms(1) by (simp add: client_inv_def)
  show ?thesis
  proof (cases h)
    case (CH_complete k e)
    with assms(2) inv show ?thesis by (simp add: completion_inv_cases)
  next
    case (CH_stopped k)
    with assms(2) inv show ?thesis by (simp add: completion_inv_cases)
  qed (use assms inv in \<open>simp_all add: resolve_completion stop_posted_completion on_resolve_completion on_connect_completion\<close>)
qed

lemma client_step_completion:
  assumes "client_step t r c c'" and "client_inv c"
  shows "completion_inv c'"
proof -
  have inv: "completion_inv c" using assms(2) by (simp add: client_inv_def)
  from assms(1) show ?thesis
  proof cases
    case (stop io_thread k)
    with inv show ?thesis by (cases io_thread) (simp_all add: client_stop_def stop_completion)
  next
    case (handler hs h hs')
    with handler_completion [OF assms(2)] show ?thesis by simp
  qed (use inv in \<open>simp_all add: connect_completion reset_completion, simp_all add: completion_inv_cases\<close>)
qed

lemma client_step_inv: "client_step t r c c' \<Longrightarrow> client_inv c \<Longrightarrow> client_inv c'"
  using client_step_phase client_step_stop client_step_completion by (metis client_inv_def)

definition client_idle :: "'e Client \<Rightarrow> bool" where
  "client_idle c \<longleftrightarrow> cl_posted c = [] \<and> cl_resolves c = [] \<and> cl_connects c = []"

lemma idle_not_busy: "phase_inv c \<Longrightarrow> client_idle c \<Longrightarrow> \<not> client_busy c"
  by (simp add: phase_inv_def client_idle_def client_busy_def)

interpretation client: stop_protocol client_init "client_step False True" client_inv stop_requests stop_owed
  "\<lambda>c. jobs is_client_stopped (cl_posted c)" "\<lambda>c. length (cl_stopped_calls c)" client_idle
proof unfold_locales
  show "client_init c \<Longrightarrow> client_inv c" for c :: "'e Client" by (rule client_init_inv)
  show "client_inv c \<Longrightarrow> client_step False True c c' \<Longrightarrow> client_inv c'" for c c' :: "'e Client" by (rule client_step_inv)
  show "client_inv c \<Longrightarrow> stop_owed c + jobs is_client_stopped (cl_posted c) + length (cl_stopped_calls c) = stop_requests c"
    for c :: "'e Client" by (simp add: client_inv_def stop_inv_def)
  show "client_inv c \<Longrightarrow> client_idle c \<Longrightarrow> stop_owed c = 0 \<and> jobs is_client_stopped (cl_posted c) = 0"
    for c :: "'e Client"
    using idle_not_busy [of c] by (cases c rule: stop_owed_cases) (auto simp: client_inv_def stop_inv_def client_idle_def)
qed

section \<open>An attempt after a stop\<close>

definition unanswered :: "(nat \<times> error_code) list \<Rightarrow> 'e Client \<Rightarrow> bool" where
  "unanswered cs c \<longleftrightarrow> cget CLS_stop_singaled c \<and> cl_resolves c = [] \<and> cl_connects c = [] \<and> completions c = cs \<and>
     (\<forall>h \<in> set (cl_posted c). is_resolve h \<or> h = CH_cancel \<or> is_client_stopped h)"

lemma unanswered_resolve [simp]: "unanswered cs c \<Longrightarrow> unanswered cs (client_resolve_on_stopped c)"
  by (auto simp: unanswered_def client_resolve_eq split: option.split)

lemma unanswered_step:
  assumes "client_step False False c c'" and "unanswered cs c"
  shows "unanswered cs c'"
  using assms(1)
proof cases
  case (handler hs h hs')
  have drop: "unanswered cs (c\<lparr>cl_posted := hs @ hs'\<rparr>)"
    and h: "is_resolve h \<or> h = CH_cancel \<or> is_client_stopped h"
    using assms(2) handler by (auto simp: unanswered_def)
  have clear: "unanswered cs (cclear f d)" if "unanswered cs d" "f \<noteq> CLS_stop_singaled" for f and d :: "'a Client"
    using that by (auto simp: unanswered_def)
  have cancel: "unanswered cs (client_cancel d)" if "unanswered cs d" for d :: "'a Client"
    using that by (auto simp: unanswered_def client_cancel_def)
  have "cget CLS_stop_singaled c" using assms(2) by (simp add: unanswered_def)
  with handler h drop show ?thesis
    by (cases h) (simp_all add: client_async_resolve_def client_stop_posted_def clear cancel, simp add: unanswered_def)
qed (use assms(2) in \<open>auto simp: unanswered_def client_async_connect_def client_stop_def client_async_stop_def\<close>)

section \<open>Properties\<close>

text \<open>Property C19. Connection attempts: at most one operation of the client is outstanding; the
  connection callbacks are called at most once per accepted attempt, and when no stop was ever
  requested exactly once for every attempt, as soon as nothing is queued or outstanding.\<close>

theorem tcp_client_completion:
  assumes "reachable client_init (client_step False True) c"
  shows "length (cl_resolves c) + length (cl_connects c) \<le> 1 \<and> length (completions c) \<le> attempts c \<and>
    (stop_requests c = 0 \<and> cl_posted c = [] \<and> cl_resolves c = [] \<and> cl_connects c = [] \<longrightarrow>
      length (completions c) = attempts c)"
proof -
  have inv: "phase_inv c" "completion_inv c" using client.reachable_inv [OF assms] by (simp_all add: client_inv_def)
  have "length (cl_resolves c) + length (cl_connects c) \<le> 1"
    using inv(1) by (cases "cget CLS_resolving c"; cases "cget CLS_connecting c") (simp_all add: phase_inv_def)
  moreover have "length (completions c) = attempts c" if "stop_requests c = 0" "client_idle c"
  proof -
    have "\<not> attempting c" using idle_not_busy [OF inv(1) that(2)] by (simp add: client_busy_def attempting_def)
    with inv(2) that show ?thesis by (simp add: completion_inv_cases client_idle_def)
  qed
  ultimately show ?thesis using inv(2) by (auto simp: completion_inv_cases client_idle_def)
qed

text \<open>The stop protocol of the client over any number of stops and resets: never more
  stopped callbacks than accepted requests, and exactly as many when nothing is queued or
  outstanding.\<close>

theorem tcp_client_stop:
  assumes "reachable client_init (client_step False True) c"
  shows "length (cl_stopped_calls c) \<le> stop_requests c \<and>
    (cl_posted c = [] \<and> cl_resolves c = [] \<and> cl_connects c = [] \<longrightarrow> length (cl_stopped_calls c) = stop_requests c)"
  using client.called_at_most_requests [OF assms] client.idle_called [OF assms] by (simp add: client_idle_def)

text \<open>\<open>async_connect\<close> does not look at the stop request: on a client that was stopped
  and not reset it returns true, but the attempt never starts and its callback is never called,
  whatever happens next short of a \<open>reset\<close>.\<close>

theorem tcp_client_connect_after_stop:
  assumes "reachable client_init (client_step False True) c" and "get_flag (cls CLS_stop_singaled) (cl_flags c)"
    and "cl_posted c = [] \<and> cl_resolves c = [] \<and> cl_connects c = []"
    and "reachable (\<lambda>x. x = snd (client_async_connect host port k c)) (client_step False False) c'"
  shows "fst (client_async_connect host port k c) \<and> completions c' = completions c"
proof -
  have "\<not> client_busy c"
    using client.reachable_inv [OF assms(1)] assms(3) by (intro idle_not_busy) (simp_all add: client_inv_def client_idle_def)
  then have start: "fst (client_async_connect host port k c)" "unanswered (completions c) (snd (client_async_connect host port k c))"
    using assms(2,3) by (simp_all add: client_async_connect_def client_busy_def unanswered_def)
  from assms(4) have "unanswered (completions c) c'"
    by (induction rule: reachable.induct) (use start(2) unanswered_step in blast)+
  with start(1) show ?thesis by (simp add: unanswered_def)
qed

text \<open>\<open>to_string\<close> names exactly the set flags, in the order of the enumeration,
  separated by commas.\<close>

theorem client_to_string_spec:
  "client_to_string c =
     ''TcpClient flags: ['' @ join '', '' (map TcpClientState_to_string (filter (\<lambda>f. get_flag (cls f) (cl_flags c))
       [CLS_schedule_resolving, CLS_resolving, CLS_connecting, CLS_stopping, CLS_stop_singaled])) @ '']''"
  by (cases "cget CLS_schedule_resolving c"; cases "cget CLS_resolving c"; cases "cget CLS_connecting c";
      cases "cget CLS_stopping c"; cases "cget CLS_stop_singaled c")
    (simp_all add: client_to_string_def append_flag_def)

section \<open>Runs\<close>

definition client_run_next :: "'e Client \<Rightarrow> 'e Client" where
  "client_run_next c = (case cl_posted c of [] \<Rightarrow> c | h # hs \<Rightarrow> client_run_handler h (c\<lparr>cl_posted := hs\<rparr>))"

lemma client_step_run_next: "cl_posted c \<noteq> [] \<Longrightarrow> client_step t r c (client_run_next c)"
proof (cases "cl_posted c")
  case (Cons h hs)
  have "client_step t r c (client_run_handler h (c\<lparr>cl_posted := [] @ hs\<rparr>))"
    by (rule client_step.handler) (simp_all add: Cons)
  with Cons show ?thesis by (simp add: client_run_next_def)
qed simp

lemma reachable_client_run_next:
  "reachable ini (client_step t r) c \<Longrightarrow> reachable ini (client_step t r) (client_run_next c)"
  using reachable.more [of ini "client_step t r" c "client_run_next c"] client_step_run_next [of c t r] by (cases "cl_posted c = []") (auto simp: client_run_next_def)

lemma reachable_client_calls:
  "reachable ini (client_step t r) c \<Longrightarrow> reachable ini (client_step t r) (snd (client_async_connect host port k c))"
  "reachable ini (client_step t r) c \<Longrightarrow> reachable ini (client_step t r) (snd (client_stop b j c))"
  by (auto intro: reachable.more client_step.intros)

lemma reachable_client_new: "reachable client_init (client_step t r) TcpClient_new"
  by (rule reachable.start) (simp add: client_init_def)

lemmas client_run_defs = client_run_next_def client_async_connect_def client_async_resolve_def handle_resolve_def
  handle_connect_def post_completion_def client_stop_def client_async_stop_def client_stop_posted_def client_cancel_def
  client_resolve_on_stopped_def TcpClient_new_def cset_def cclear_def cpost_def client_flags.flag_laws

text \<open>A client whose attempt is connecting to one endpoint.\<close>

definition resolving_client :: "nat Client" where
  "resolving_client = client_run_next (snd (client_async_connect ''host'' 80 1 TcpClient_new))"

definition connecting_client :: "nat Client" where
  "connecting_client = client_run_next (cpost (CH_on_resolve No_error [5]) (resolving_client\<lparr>cl_resolves := [] @ []\<rparr>))"

lemma resolving_client_state: "cl_resolves resolving_client = [] @ (''host'', to_string_int 80) # []"
  by (simp add: resolving_client_def client_run_defs)

lemma connecting_client_state:
  "cl_connects connecting_client = [] @ [5] # []" "cl_resolves connecting_client = []" "cl_posted connecting_client = []"
  "on_connection_complete connecting_client = Some 1" "cl_stopped_calls connecting_client = []"
  "cget CLS_connecting connecting_client" "\<not> cget CLS_stop_singaled connecting_client"
  "\<not> cget CLS_resolving connecting_client" "\<not> cget CLS_schedule_resolving connecting_client"
  "attempts connecting_client = 1" "stop_requests connecting_client = 0" "completions connecting_client = []"
  by (simp_all add: connecting_client_def resolving_client_def client_run_defs)

lemma connecting_client_reachable: "reachable client_init (client_step t r) connecting_client"
proof -
  have "reachable client_init (client_step t r) resolving_client"
    unfolding resolving_client_def by (intro reachable_client_run_next reachable_client_calls reachable_client_new)
  from reachable.more [OF this client_step.resolved [OF resolving_client_state]] show ?thesis
    unfolding connecting_client_def by (rule reachable_client_run_next)
qed

definition connected_client :: "nat Client" where
  "connected_client = client_run_next (cpost (CH_on_connect No_error) (connecting_client\<lparr>cl_connects := [] @ []\<rparr>))"

lemma connected_client_reachable: "reachable client_init (client_step t r) connected_client"
  unfolding connected_client_def
  by (rule reachable_client_run_next [OF reachable.more [OF connecting_client_reachable
        client_step.connected [OF connecting_client_state(1)]]])

lemma connected_client_state:
  "stop_requests connected_client = 0" "cl_posted connected_client = []" "cl_resolves connected_client = []"
  "cl_connects connected_client = []" "attempts connected_client = 1"
  using connecting_client_state
  by (simp_all add: connected_client_def client_run_next_def handle_connect_def cpost_def cclear_def client_flags.flag_laws)

theorem tcp_client_completion_witness: "length (completions connected_client) = 1"
  using tcp_client_completion [OF connected_client_reachable] connected_client_state by simp

definition stopped_client :: "nat Client" where
  "stopped_client = client_run_next (client_run_next (snd (client_stop False 7 TcpClient_new)))"

lemma stopped_client_reachable: "reachable client_init (client_step t r) stopped_client"
  unfolding stopped_client_def by (intro reachable_client_run_next reachable_client_calls reachable_client_new)

lemma stopped_client_state:
  "cget CLS_stop_singaled stopped_client" "cl_posted stopped_client = [] \<and> cl_resolves stopped_client = [] \<and> cl_connects stopped_client = []"
  "stop_requests stopped_client = 1" "completions stopped_client = []"
  by (simp_all add: stopped_client_def client_run_defs)

theorem tcp_client_stop_witness: "length (cl_stopped_calls stopped_client) = 1"
  using tcp_client_stop [OF stopped_client_reachable] stopped_client_state by simp

theorem tcp_client_connect_after_stop_witness:
  "fst (client_async_connect ''host'' 80 1 stopped_client) \<and>
    completions (client_run_next (snd (client_async_connect ''host'' 80 1 stopped_client))) = []"
proof -
  have "reachable (\<lambda>x. x = snd (client_async_connect ''host'' 80 1 stopped_client)) (client_step False False)
      (client_run_next (snd (client_async_connect ''host'' 80 1 stopped_client)))"
    by (rule reachable_client_run_next) (rule reachable.start, simp)
  from tcp_client_connect_after_stop [OF stopped_client_reachable stopped_client_state(1,2) this]
  show ?thesis using stopped_client_state(4) by simp
qed

text \<open>The header says that \<open>async_stop\<close> returns false when the client is not connecting; on a
  client that was never asked to connect it returns true, and the callback is called.\<close>

theorem tcp_client_stop_when_idle:
  "fst (client_async_stop k TcpClient_new) \<and>
    cl_stopped_calls (client_run_next (client_run_next (snd (client_async_stop k TcpClient_new)))) = [k]"
  by (simp add: client_run_defs)

text \<open>When a stop aborts a connection attempt, the stopped callback is queued before
  the lambda that passes the error to the connection callback, and that lambda uses the client's
  \<open>io_context\<close> through \<open>this\<close>: on one thread the stopped callback runs first, so \<open>stop\<close>
  returns, and the destructor ends, while the lambda is still queued.\<close>

theorem tcp_client_completion_after_stop:
  "\<exists>c :: nat Client. reachable client_init (client_step True True) c \<and> cl_stopped_calls c = [k] \<and>
    CH_complete 1 Operation_aborted \<in> set (cl_posted c)"
proof -
  let ?c = "client_run_next (client_run_next (client_run_next (snd (client_stop False k connecting_client))))"
  have "reachable client_init (client_step True True) ?c"
    by (intro reachable_client_run_next reachable_client_calls connecting_client_reachable)
  moreover have "cl_stopped_calls ?c = [k] \<and> CH_complete 1 Operation_aborted \<in> set (cl_posted ?c)"
    using connecting_client_state
    by (simp add: client_run_next_def client_stop_def client_async_stop_def client_stop_posted_def client_cancel_def
        client_resolve_on_stopped_def handle_connect_def post_completion_def cset_def cclear_def cpost_def client_flags.flag_laws)
  ultimately show ?thesis by blast
qed

end
