(* ===== verification/Tcp_Drain.thy ===== *)
theory Tcp_Drain
  imports Draining Tcp_Connection Tcp_Server Tcp_Client
begin

text \<open>
  Stopping a TCP connection, server or client terminates: what may still run after the request is
  bounded by a potential of the state.
\<close>

section \<open>Connection\<close>

text \<open>Handlers and completions: the steps that are not calls of the user.\<close>

inductive conn_internal :: "Conn \<Rightarrow> Conn \<Rightarrow> bool" where
  handler: "posted c = hs @ h # hs' \<Longrightarrow> conn_internal c (run_handler h (c\<lparr>posted := hs @ hs'\<rparr>))"
| read_done: "reads c = rs @ (p, n) # rs' \<Longrightarrow> 0 < length bs \<Longrightarrow> length bs \<le> n \<Longrightarrow>
    write_bytes p bs (receive_buffer c) = Some b \<Longrightarrow>
    conn_internal c (post (H_on_receive False (length bs)) (c\<lparr>receive_buffer := b, reads := rs @ rs'\<rparr>))"
| read_failed: "reads c = rs @ (p, n) # rs' \<Longrightarrow> conn_internal c (post (H_on_receive True 0) (c\<lparr>reads := rs @ rs'\<rparr>))"
| write_some: "writes c = ws @ (p, n, sent) # ws' \<Longrightarrow> 0 < m \<Longrightarrow> sent + m < n \<Longrightarrow>
    read_bytes (p + sent) m (send_buffer c) = Some bs \<Longrightarrow>
    conn_internal c (c\<lparr>wire := wire c @ bs, writes := ws @ (p, n, sent + m) # ws'\<rparr>)"
| write_done: "writes c = ws @ (p, n, sent) # ws' \<Longrightarrow> read_bytes (p + sent) (n - sent) (send_buffer c) = Some bs \<Longrightarrow>
    conn_internal c (post (H_on_send False n) (c\<lparr>wire := wire c @ bs, writes := ws @ ws'\<rparr>))"
| write_error: "writes c = ws @ (p, n, sent) # ws' \<Longrightarrow>
    conn_internal c (post (H_on_send True sent) (c\<lparr>writes := ws @ ws', write_failed := True\<rparr>))"

lemma conn_internal_step: "conn_internal c c' \<Longrightarrow> conn_step c c'"
  by (erule conn_internal.cases) (auto intro: conn_step.intros)

text \<open>A completed write has sent something, so its handler shortens the send buffer.\<close>

definition sends_some :: "Conn \<Rightarrow> bool" where
  "sends_some c \<longleftrightarrow> (\<forall>n. H_on_send False n \<in> set (posted c) \<longrightarrow> 0 < n)"

lemma sends_some_frame [simp]:
  "sends_some (set_f f c) = sends_some c" "sends_some (clear_f f c) = sends_some c"
  "sends_some (c\<lparr>disconnected_callback := k\<rparr>) = sends_some c" "sends_some (c\<lparr>writes := ws\<rparr>) = sends_some c"
  "sends_some (c\<lparr>send_buffer := b\<rparr>) = sends_some c" "sends_some (c\<lparr>lost_calls := n\<rparr>) = sends_some c"
  "sends_some (c\<lparr>stopped_calls := ks\<rparr>) = sends_some c" "sends_some (c\<lparr>reads := rs\<rparr>) = sends_some c"
  "sends_some (c\<lparr>receive_buffer := b\<rparr>) = sends_some c" "sends_some (c\<lparr>wire := w\<rparr>) = sends_some c"
  "sends_some (c\<lparr>queued := w\<rparr>) = sends_some c" "sends_some (c\<lparr>write_failed := fl\<rparr>) = sends_some c"
  "sends_some (c\<lparr>connection_lost_callback := lc\<rparr>) = sends_some c" "sends_some (c\<lparr>data_received_callback := d\<rparr>) = sends_some c"
  by (simp_all add: sends_some_def)

lemma sends_some_post [simp]: "(\<forall>n. h = H_on_send False n \<longrightarrow> 0 < n) \<Longrightarrow> sends_some c \<Longrightarrow> sends_some (post h c)"
  by (auto simp: sends_some_def post_def)

lemma sends_some_resolve [simp]: "sends_some c \<Longrightarrow> sends_some (resolve_on_stopped c)"
  by (simp add: resolve_on_stopped_def split: option.split)

lemma sends_some_async [simp]:
  "sends_some c \<Longrightarrow> sends_some (async_receive c)" "sends_some c \<Longrightarrow> sends_some (async_send c)"
  by (simp_all add: async_receive_def async_send_def Let_def split: prod.split)

lemma sends_some_handler:
  assumes "sends_some c" and "posted c = hs @ h # hs'"
  shows "sends_some (run_handler h (c\<lparr>posted := hs @ hs'\<rparr>))"
proof -
  have drop: "sends_some (c\<lparr>posted := hs @ hs'\<rparr>)" using assms by (auto simp: sends_some_def)
  show ?thesis
  proof (cases h)
    case H_cancel
    have "sends_some (socket_cancel (c\<lparr>posted := hs @ hs'\<rparr>))" using drop by (auto simp: sends_some_def socket_cancel_def)
    with H_cancel show ?thesis by (simp add: cancel_async_operations_def)
  qed (use drop in \<open>simp_all add: send_posted_def on_receive_def on_send_def Let_def split: option.split\<close>)
qed

lemma sends_some_step:
  assumes "conn_step c c'" and "conn_inv c" and "sends_some c"
  shows "sends_some c'"
  using assms(1)
proof cases
  case (handler hs h hs')
  with sends_some_handler [OF assms(3)] show ?thesis by simp
next
  case (write_done ws p n sent ws' bs)
  then have "sent < n" using assms(2) by (fastforce simp: conn_inv_def send_inv_def send_ok_def)
  with write_done assms(3) show ?thesis by simp
qed (use assms(3) in \<open>simp_all add: call_queue_send_function_def start_sending_def start_receiving_def connection_stop_def
  async_stop_def setter_defs\<close>)

lemma sends_some_reachable: "reachable conn_init conn_step c \<Longrightarrow> sends_some c"
proof (induction rule: reachable.induct)
  case (start c)
  then show ?case by (auto simp: conn_init_def sends_some_def TcpConnection_new_def)
next
  case (more c c')
  then show ?case using sends_some_step conn.reachable_inv by blast
qed

text \<open>
  The potential: every queued handler, outstanding operation and owed callback counts, a write with
  the bytes it has left, and the send buffer enough for the writes that its bytes may still start.
\<close>

fun handler_work :: "conn_handler \<Rightarrow> nat" where
  "handler_work (H_on_receive _ _) = 2"
| "handler_work (H_on_send e _) = (if e then 2 else 3)"
| "handler_work _ = 1"

fun write_work :: "nat \<times> nat \<times> nat \<Rightarrow> nat" where
  "write_work (p, n, sent) = 4 + (n - sent)"

definition buffer_work :: "nat \<Rightarrow> nat" where
  "buffer_work l = l * (l + 5)"

definition conn_work :: "Conn \<Rightarrow> nat" where
  "conn_work c = total handler_work (posted c) + 3 * length (reads c) + total write_work (writes c) + owed c +
     buffer_work (length (contents (send_buffer c)))"

lemma buffer_work_consume:
  assumes "0 < n" and "n \<le> l"
  shows "buffer_work (l - n) + (l - n) + 1 < buffer_work l"
proof -
  obtain k where k: "l = k + n" using assms(2) by (metis le_add_diff_inverse2)
  obtain m where m: "n = Suc m" using assms(1) by (cases n) simp_all
  show ?thesis by (simp add: k m buffer_work_def algebra_simps)
qed

lemma conn_work_frame [simp]:
  "conn_work (set_f f c) = conn_work c" "conn_work (clear_f f c) = conn_work c"
  "conn_work (c\<lparr>receive_buffer := b\<rparr>) = conn_work c" "conn_work (c\<lparr>lost_calls := n\<rparr>) = conn_work c"
  "conn_work (c\<lparr>stopped_calls := ks\<rparr>) = conn_work c" "conn_work (c\<lparr>wire := w\<rparr>) = conn_work c"
  "conn_work (c\<lparr>write_failed := fl\<rparr>) = conn_work c"
  by (simp_all add: conn_work_def owed_def set_f_def clear_f_def)

lemma conn_work_post [simp]: "conn_work (post h c) = conn_work c + handler_work h"
  by (simp add: conn_work_def post_def owed_def)

lemma conn_work_resolve [simp]: "conn_work (resolve_on_stopped c) = conn_work c"
proof -
  have "conn_work (c\<lparr>disconnected_callback := None\<rparr>) + 1 = conn_work c" if "disconnected_callback c = Some k" for k
    using that by (simp add: conn_work_def owed_def)
  then show ?thesis by (auto simp: resolve_on_stopped_def split: option.split)
qed

lemma conn_work_drop: "posted c = hs @ h # hs' \<Longrightarrow> conn_work c = conn_work (c\<lparr>posted := hs @ hs'\<rparr>) + handler_work h"
  by (simp add: conn_work_def owed_def)

lemma total_aborted: "total handler_work (map (\<lambda>(p, n, sent). H_on_send True sent) ws) \<le> total write_work ws"
  by (induction ws) auto

lemma conn_work_cancel: "conn_work (socket_cancel c) \<le> conn_work c"
  using total_aborted [of "writes c"] by (simp add: conn_work_def socket_cancel_def owed_def)

lemma on_send_work:
  assumes "conn_inv c" and "sends_some c" and "posted c = hs @ H_on_send False n # hs'"
  shows "conn_work (on_send False n (c\<lparr>posted := hs @ hs'\<rparr>)) < conn_work c"
proof -
  let ?b = "send_buffer c" and ?b' = "snd (consume n (send_buffer c))"
  let ?l = "length (contents ?b)"
  have inv: "flags_inv c" "send_inv c" using assms(1) by (simp_all add: conn_inv_def)
  have b: "buffer_inv ?b" "n \<le> ?l" using inv(2) assms(3) by (auto simp: send_inv_def send_ok_def)
  have n: "0 < n" using assms(2,3) by (simp add: sends_some_def)
  have writes: "writes c = []" using single_on_send [OF inv(1) assms(3)] by simp
  let ?d = "c\<lparr>posted := hs @ hs', send_buffer := ?b'\<rparr>"
  have len: "length (contents ?b') = ?l - n" using b by (simp add: consume_contents)
  have d: "conn_work ?d + 3 + buffer_work ?l = conn_work c + buffer_work (?l - n)"
    by (simp add: conn_work_def owed_def assms(3) len)
  have "conn_work (async_send ?d) \<le> conn_work ?d + 4 + (?l - n)"
    using b(1) writes len by (simp add: async_send_eq consume_inv) (simp add: conn_work_def owed_def)
  then have "conn_work (async_send ?d) < conn_work c" using d buffer_work_consume [OF n b(2)] by linarith
  then show ?thesis by (simp add: on_send_def Let_def)
qed

lemma handler_work_decreases:
  assumes "conn_inv c" and "sends_some c" and "get TCS_stop_signaled c" and "posted c = hs @ h # hs'"
  shows "conn_work (run_handler h (c\<lparr>posted := hs @ hs'\<rparr>)) < conn_work c"
proof -
  let ?d = "c\<lparr>posted := hs @ hs'\<rparr>"
  note drop = conn_work_drop [OF assms(4)]
  show ?thesis
  proof (cases h)
    case H_cancel
    with drop conn_work_cancel [of ?d] show ?thesis by (simp add: cancel_async_operations_def)
  next
    case (H_on_receive e n)
    with drop assms(3) show ?thesis
      by (cases e) (simp_all add: on_receive_def async_receive_def Let_def split: option.split)
  next
    case (H_on_send e n)
    show ?thesis
    proof (cases e)
      case True
      with H_on_send drop show ?thesis by (simp add: on_send_def Let_def)
    next
      case False
      with H_on_send on_send_work [OF assms(1,2)] assms(4) show ?thesis by simp
    qed
  qed (use drop assms(3) in \<open>simp_all add: async_receive_def send_posted_def Let_def\<close>)
qed

lemma conn_work_decreases:
  assumes "conn_internal c c'" and "conn_inv c" and "sends_some c" and "get TCS_stop_signaled c"
  shows "conn_work c' < conn_work c"
  using assms(1)
proof cases
  case (handler hs h hs')
  with handler_work_decreases [OF assms(2-4)] show ?thesis by simp
next
  case (read_done rs p n rs' bs b)
  then show ?thesis by (simp add: conn_work_def post_def owed_def)
next
  case (read_failed rs p n rs')
  then show ?thesis by (simp add: conn_work_def post_def owed_def)
next
  case (write_some ws p n sent ws' m bs)
  then show ?thesis by (simp add: conn_work_def owed_def)
next
  case (write_done ws p n sent ws' bs)
  then show ?thesis by (simp add: conn_work_def post_def owed_def)
next
  case (write_error ws p n sent ws')
  then show ?thesis by (simp add: conn_work_def post_def owed_def)
qed

lemma conn_internal_stop:
  assumes "conn_internal c c'"
  shows "get TCS_stop_signaled c' = get TCS_stop_signaled c"
proof -
  have "get TCS_stop_signaled (run_handler h d) = get TCS_stop_signaled d" for h d
    by (cases h) (auto simp: cancel_async_operations_def socket_cancel_def async_receive_def send_posted_def async_send_def
        on_receive_def on_send_def Let_def split: option.split prod.split)
  with assms show ?thesis by cases simp_all
qed

lemma conn_internal_enabled:
  assumes "\<not> conn_idle c"
  shows "\<exists>c'. conn_internal c c'"
proof (cases "posted c")
  case (Cons h hs)
  then show ?thesis using conn_internal.handler [of c "[]" h hs] by auto
next
  case Nil
  with assms obtain w ws where "writes c = w # ws" by (cases "writes c") (auto simp: conn_idle_def)
  then show ?thesis using conn_internal.write_error [of c "[]" _ _ _ ws] by (cases w) auto
qed

lemma conn_internal_inv: "conn_internal c c' \<Longrightarrow> conn_inv c \<Longrightarrow> sends_some c \<Longrightarrow> conn_inv c' \<and> sends_some c'"
  using conn.inv_step sends_some_step conn_internal_step by blast

interpretation conn_drain: draining conn_internal "\<lambda>c. conn_inv c \<and> sends_some c \<and> get TCS_stop_signaled c"
  "\<lambda>c. 1" "\<lambda>c. length (stopped_calls c)" conn_work "\<lambda>c. 0"
proof unfold_locales
  fix c c' :: Conn
  assume stopping: "conn_inv c \<and> sends_some c \<and> get TCS_stop_signaled c"
  show "conn_inv c' \<and> sends_some c' \<and> get TCS_stop_signaled c'" if "conn_internal c c'"
    using stopping conn_internal_inv [OF that] conn_internal_stop [OF that] by simp
  show "conn_work c' + 0 < conn_work c + 0" if "conn_internal c c'" using stopping conn_work_decreases [OF that] by simp
  show "length (stopped_calls c) \<le> 1" using stopping conn.balance [of c] by simp
  show "\<exists>c'. conn_internal c c'" if "length (stopped_calls c) < 1"
    using stopping that conn.balance [of c] conn.idle_settled [of c] by (intro conn_internal_enabled) auto
qed simp

text \<open>Property C16. Stopping a connection terminates. After the request every run of handlers and
  completions, in any order, has at most \<open>conn_work\<close> steps; the callback is called at most once in it,
  and as long as it has not been called there is a handler to run or a write to complete. So no
  scheduling of the \<open>io_context\<close> lets \<open>stop\<close> wait for ever while the system completes the writes.\<close>

theorem tcp_connection_stop_terminates:
  assumes "reachable conn_init conn_step c" and "get_flag (tcs TCS_stop_signaled) (flags c)"
    and "(conn_internal ^^ n) c c'"
  shows "n \<le> conn_work c \<and> length (stopped_calls c') \<le> 1 \<and>
    (stopped_calls c' = [] \<longrightarrow> posted c' \<noteq> [] \<or> writes c' \<noteq> [])"
proof -
  have stopping: "conn_inv c \<and> sends_some c \<and> get TCS_stop_signaled c"
    using assms(1,2) conn.reachable_inv sends_some_reachable by blast
  note run = conn_drain.run_bounded [OF stopping assms(3)]
  then have "posted c' \<noteq> [] \<or> writes c' \<noteq> []" if "stopped_calls c' = []"
    using that conn.balance [of c'] conn.idle_settled [of c'] by (auto simp: conn_idle_def)
  then show ?thesis using conn_drain.drains [OF stopping assms(3)] by simp
qed

section \<open>Server\<close>

inductive server_internal :: "Server \<Rightarrow> Server \<Rightarrow> bool" where
  handler: "srv_posted s = hs @ h # hs' \<Longrightarrow> server_internal s (server_run_handler h (s\<lparr>srv_posted := hs @ hs'\<rparr>))"
| accepted: "srv_accepts s = Suc n \<Longrightarrow> server_internal s (spost (SH_on_accept No_error) (s\<lparr>srv_accepts := n\<rparr>))"
| failed: "srv_accepts s = Suc n \<Longrightarrow>
    server_internal s (spost (SH_on_accept Other_error) (s\<lparr>srv_accepts := n, srv_accept_failed := True\<rparr>))"

lemma server_internal_step: "server_internal s s' \<Longrightarrow> server_step False s s'"
  by (erule server_internal.cases) (auto intro: server_step.intros)

definition server_work :: "Server \<Rightarrow> nat" where
  "server_work s = length (srv_posted s) + 2 * srv_accepts s + server_owed s"

lemma server_work_frame [simp]:
  "server_work (sset f s) = server_work s" "server_work (sclear f s) = server_work s"
  "server_work (s\<lparr>srv_delivered := ds\<rparr>) = server_work s" "server_work (s\<lparr>srv_dropped := n\<rparr>) = server_work s"
  "server_work (s\<lparr>srv_stopped_calls := ks\<rparr>) = server_work s" "server_work (spost h s) = server_work s + 1"
  by (simp_all add: server_work_def)

lemma server_work_resolve [simp]: "server_work (server_resolve_on_stopped s) = server_work s"
  by (cases s rule: server_owed_cases) (simp_all add: server_resolve_eq server_work_def)

text \<open>A stopping server: its callback is owed only while the accept loop still runs.\<close>

definition server_stopping :: "Server \<Rightarrow> bool" where
  "server_stopping s \<longleftrightarrow> server_inv s \<and> sget TSS_stop_signaled s \<and> (server_owed s = 0 \<or> server_busy s)"

lemma server_stopping_flag: "server_stopping s \<Longrightarrow> sget TSS_stopping s"
  by (simp add: server_stopping_def server_inv_def)

lemma server_owed_resolve: "server_owed (server_resolve_on_stopped s) = 0 \<or> server_busy (server_resolve_on_stopped s)"
  by (cases s rule: server_owed_cases) (auto simp: server_resolve_eq)

lemma server_resolve_flags [simp]: "srv_flags (server_resolve_on_stopped s) = srv_flags s"
  by (simp add: server_resolve_eq split: option.split)

lemma server_busy_flags: "srv_flags s = srv_flags s' \<Longrightarrow> server_busy s = server_busy s'"
  by (simp add: server_busy_def)

lemma server_handler_stopping:
  assumes "sget TSS_stop_signaled s" and "sget TSS_stopping s" and "server_owed s = 0 \<or> server_busy s"
    and "acceptor_is_open s"
  shows "sget TSS_stop_signaled (server_run_handler h s)
    \<and> (server_owed (server_run_handler h s) = 0 \<or> server_busy (server_run_handler h s))"
proof (cases h)
  case SH_accept
  with assms(1,2) server_owed_resolve [of "sclear TSS_start_accepting s"] show ?thesis by (simp add: async_accept_def)
next
  case SH_cancel
  with assms show ?thesis by (simp add: stop_posted_def acceptor_cancel_def server_busy_def)
next
  case (SH_on_accept e)
  with assms(1,2) server_owed_resolve [of "sclear TSS_accepting s"] show ?thesis
    by (cases "connection_callback s")
      (auto simp: handle_accept_def Let_def server_resolve_frame server_busy_def)
qed (use assms in \<open>simp add: server_busy_def\<close>)

lemma server_internal_stopping: "server_internal s s' \<Longrightarrow> server_stopping s \<Longrightarrow> server_stopping s'"
proof -
  assume step: "server_internal s s'" and stopping: "server_stopping s"
  have "server_inv s'" using server_step_inv [OF server_internal_step [OF step]] stopping by (simp add: server_stopping_def)
  moreover from step have "sget TSS_stop_signaled s' \<and> (server_owed s' = 0 \<or> server_busy s')"
  proof cases
    case (handler hs h hs')
    have "sget TSS_stopping s" "acceptor_is_open s" using stopping by (simp_all add: server_stopping_def server_inv_def)
    with server_handler_stopping [of "s\<lparr>srv_posted := hs @ hs'\<rparr>" h] stopping handler show ?thesis
      by (simp add: server_stopping_def server_busy_def)
  qed (use stopping in \<open>simp_all add: server_stopping_def server_busy_def\<close>)
  ultimately show ?thesis by (simp add: server_stopping_def)
qed

lemma server_work_decreases:
  assumes "server_internal s s'" and "server_stopping s"
  shows "server_work s' < server_work s"
  using assms(1)
proof cases
  case (handler hs h hs')
  let ?d = "s\<lparr>srv_posted := hs @ hs'\<rparr>"
  have drop: "server_work s = server_work ?d + 1" using handler(2) by (simp add: server_work_def)
  have stop: "sget TSS_stopping ?d" "acceptor_is_open ?d"
    using server_stopping_flag [OF assms(2)] assms(2) by (simp_all add: server_stopping_def server_inv_def)
  have cancel: "server_work (acceptor_cancel d) \<le> server_work d" for d by (simp add: server_work_def acceptor_cancel_def)
  have "server_work (server_run_handler h ?d) \<le> server_work ?d"
  proof (cases h)
    case SH_cancel
    with stop cancel [of "sset TSS_stopping ?d"] show ?thesis by (simp add: stop_posted_def)
  qed (use stop in \<open>simp_all add: async_accept_def handle_accept_def Let_def server_resolve_frame\<close>)
  with drop handler(1) show ?thesis by simp
qed (simp_all add: server_work_def)

lemma server_internal_enabled:
  assumes "srv_posted s \<noteq> [] \<or> srv_accepts s \<noteq> 0"
  shows "\<exists>s'. server_internal s s'"
proof (cases "srv_posted s")
  case (Cons h hs)
  then show ?thesis using server_internal.handler [of s "[]" h hs] by auto
next
  case Nil
  with assms obtain n where "srv_accepts s = Suc n" by (cases "srv_accepts s") auto
  then show ?thesis using server_internal.accepted by blast
qed

lemma server_stopping_pending:
  assumes "server_stopping s" and "length (srv_stopped_calls s) < 1"
  shows "srv_posted s \<noteq> [] \<or> srv_accepts s \<noteq> 0"
proof (rule ccontr)
  assume idle: "\<not> ?thesis"
  have "server_inv s" "sget TSS_stop_signaled s" using assms(1) by (simp_all add: server_stopping_def)
  with idle assms(2) have "server_owed s = 1" "\<not> server_busy s" by (simp_all add: server_inv_def server_busy_def)
  with assms(1) show False by (simp add: server_stopping_def)
qed

interpretation server_drain: draining server_internal server_stopping "\<lambda>s. 1" "\<lambda>s. length (srv_stopped_calls s)" server_work "\<lambda>s. 0"
proof unfold_locales
  show "server_stopping s \<Longrightarrow> server_internal s s' \<Longrightarrow> server_stopping s'" for s s' by (rule server_internal_stopping)
  show "server_stopping s \<Longrightarrow> server_internal s s' \<Longrightarrow> server_work s' + 0 < server_work s + 0" for s s'
    using server_work_decreases [of s s'] by simp
  show "server_stopping s \<Longrightarrow> length (srv_stopped_calls s) \<le> 1" for s
    using server.balance [of s] by (simp add: server_stopping_def split: if_splits)
  show "server_stopping s \<Longrightarrow> length (srv_stopped_calls s) < 1 \<Longrightarrow> \<exists>s'. server_internal s s'" for s
    by (rule server_internal_enabled [OF server_stopping_pending])
qed simp

text \<open>Property C18. Stopping a server terminates, provided no error had ended its accept loop before the request.
  A run has at most one step for every queued handler, two for the outstanding accept, and one for the callback,
  whatever fails and in whatever order; and it does not end before the callback is called.\<close>

theorem tcp_server_stop_terminates:
  assumes "reachable server_init (server_step False) s" and "get_flag (tss TSS_stop_signaled) (srv_flags s)"
    and "get_flag (tss TSS_start_accepting) (srv_flags s) \<or> get_flag (tss TSS_accepting) (srv_flags s) \<or> \<not> srv_accept_failed s"
    and "(server_internal ^^ n) s s'"
  shows "n \<le> length (srv_posted s) + 2 * srv_accepts s + 1 \<and> length (srv_stopped_calls s') \<le> 1 \<and>
    (srv_stopped_calls s' = [] \<longrightarrow> srv_posted s' \<noteq> [] \<or> srv_accepts s' \<noteq> 0)"
proof -
  have inv: "server_inv s" by (rule server.reachable_inv [OF assms(1)])
  with assms(2,3) have stopping: "server_stopping s"
    by (auto simp: server_stopping_def server_inv_def server_busy_def)
  have "server_work s \<le> length (srv_posted s) + 2 * srv_accepts s + 1"
    by (cases s rule: server_owed_cases) (simp_all add: server_work_def)
  with server_drain.drains [OF stopping assms(4)] server_drain.run_bounded [OF stopping assms(4)]
    server_stopping_pending [of s'] show ?thesis by auto
qed

section \<open>Client\<close>

inductive client_internal :: "'e Client \<Rightarrow> 'e Client \<Rightarrow> bool" where
  handler: "cl_posted c = hs @ h # hs' \<Longrightarrow> client_internal c (client_run_handler h (c\<lparr>cl_posted := hs @ hs'\<rparr>))"
| resolved: "cl_resolves c = rs @ r # rs' \<Longrightarrow>
    client_internal c (cpost (CH_on_resolve No_error results) (c\<lparr>cl_resolves := rs @ rs'\<rparr>))"
| resolve_failed: "cl_resolves c = rs @ r # rs' \<Longrightarrow>
    client_internal c (cpost (CH_on_resolve Other_error []) (c\<lparr>cl_resolves := rs @ rs'\<rparr>))"
| connected: "cl_connects c = cs @ r # cs' \<Longrightarrow>
    client_internal c (cpost (CH_on_connect No_error) (c\<lparr>cl_connects := cs @ cs'\<rparr>))"
| connect_failed: "cl_connects c = cs @ r # cs' \<Longrightarrow>
    client_internal c (cpost (CH_on_connect Other_error) (c\<lparr>cl_connects := cs @ cs'\<rparr>))"

lemma client_internal_step: "client_internal c c' \<Longrightarrow> client_step False True c c'"
  by (erule client_internal.cases) (auto intro: client_step.intros)

fun client_handler_work :: "'e client_handler \<Rightarrow> nat" where
  "client_handler_work (CH_resolve _ _) = 6"
| "client_handler_work (CH_on_resolve _ _) = 4"
| "client_handler_work (CH_on_connect _) = 2"
| "client_handler_work _ = 1"

definition client_work :: "'e Client \<Rightarrow> nat" where
  "client_work c = total client_handler_work (cl_posted c) + 5 * length (cl_resolves c) + 3 * length (cl_connects c) + stop_owed c"

lemma client_work_frame [simp]:
  "client_work (cset f c) = client_work c" "client_work (cclear f c) = client_work c"
  "client_work (c\<lparr>on_connection_complete := k\<rparr>) = client_work c" "client_work (c\<lparr>completions := ks\<rparr>) = client_work c"
  "client_work (c\<lparr>cl_stopped_calls := ss\<rparr>) = client_work c" "client_work (cpost h c) = client_work c + client_handler_work h"
  "client_work (c\<lparr>cl_connects := cl_connects c @ [es]\<rparr>) = client_work c + 3"
  by (simp_all add: client_work_def)

lemma client_work_resolve [simp]: "client_work (client_resolve_on_stopped c) = client_work c"
  by (cases c rule: stop_owed_cases) (simp_all add: client_resolve_eq client_work_def)

lemma client_work_completion: "client_work (post_completion e c) \<le> client_work c + 1"
  by (simp add: post_completion_def split: option.split)

lemma client_work_cancel: "client_work (client_cancel c) \<le> client_work c"
  by (simp add: client_work_def client_cancel_def stop_owed_def)

lemma client_handler_work_decreases:
  assumes "cl_posted c = hs @ h # hs'"
  shows "client_work (client_run_handler h (c\<lparr>cl_posted := hs @ hs'\<rparr>)) < client_work c"
proof -
  let ?d = "c\<lparr>cl_posted := hs @ hs'\<rparr>"
  have drop: "client_work c = client_work ?d + client_handler_work h" using assms by (simp add: client_work_def)
  show ?thesis
  proof (cases h)
    case (CH_resolve host port)
    have "client_work ((cset CLS_resolving d)\<lparr>cl_resolves := cl_resolves d @ [r]\<rparr>) = client_work d + 5"
      for d :: "'a Client" and r by (simp add: client_work_def)
    from this [of "cclear CLS_schedule_resolving ?d"] CH_resolve drop show ?thesis
      by (simp add: client_async_resolve_def Let_def)
  next
    case CH_cancel
    with drop client_work_cancel [of ?d] show ?thesis by (simp add: client_stop_posted_def)
  next
    case (CH_on_resolve e es)
    have "client_work ((cset CLS_connecting ?d)\<lparr>cl_connects := cl_connects c @ [es]\<rparr>) = client_work ?d + 3"
      by (simp add: client_work_def)
    with CH_on_resolve drop client_work_completion [of e ?d] show ?thesis
      by (simp add: handle_resolve_def Let_def)
  next
    case (CH_on_connect e)
    have "client_work (post_completion e (client_resolve_on_stopped (cclear CLS_connecting ?d))) \<le> client_work ?d + 1"
      "client_work (post_completion e (cclear CLS_connecting ?d)) \<le> client_work ?d + 1"
      using client_work_completion [of e "client_resolve_on_stopped (cclear CLS_connecting ?d)"]
        client_work_completion [of e "cclear CLS_connecting ?d"] by simp_all
    with CH_on_connect drop show ?thesis by (simp add: handle_connect_def Let_def split: option.split)
  qed (use drop in simp_all)
qed

lemma client_work_decreases:
  assumes "client_internal c c'"
  shows "client_work c' < client_work c"
  using assms
proof cases
  case (handler hs h hs')
  with client_handler_work_decreases [of c hs h hs'] show ?thesis by simp
qed (simp_all add: client_work_def)

lemma client_internal_frame:
  assumes "client_internal c c'"
  shows "stop_requests c' = stop_requests c \<and> attempts c' = attempts c"
proof -
  have "stop_requests (client_run_handler h d) = stop_requests d \<and> attempts (client_run_handler h d) = attempts d"
    for h and d :: "'a Client"
    by (cases h) (simp_all add: client_async_resolve_def client_stop_posted_def client_cancel_def handle_resolve_def
      handle_connect_def Let_def split: option.split)
  with assms show ?thesis by cases simp_all
qed

lemma client_internal_enabled:
  assumes "\<not> client_idle c"
  shows "\<exists>c'. client_internal c c'"
proof -
  consider h hs where "cl_posted c = [] @ h # hs" | r rs where "cl_resolves c = [] @ r # rs"
    | r cs where "cl_connects c = [] @ r # cs"
    using assms by (auto simp: client_idle_def neq_Nil_conv)
  then show ?thesis by cases (blast intro: client_internal.intros)+
qed

interpretation client_drain: draining client_internal client_inv stop_requests
  "\<lambda>c. length (cl_stopped_calls c)" client_work "\<lambda>c. 0"
proof unfold_locales
  fix c c' :: "'e Client"
  assume inv: "client_inv c"
  show "client_inv c'" if "client_internal c c'" using client_step_inv [OF client_internal_step [OF that] inv] .
  show "client_work c' + 0 < client_work c + 0" if "client_internal c c'" using client_work_decreases [OF that] by simp
  show "stop_requests c' = stop_requests c" if "client_internal c c'" using client_internal_frame [OF that] by simp
  show "length (cl_stopped_calls c) \<le> stop_requests c" using inv client.balance [of c] by simp
  show "\<exists>c'. client_internal c c'" if "length (cl_stopped_calls c) < stop_requests c"
    using inv that client.balance [of c] client.idle_settled [of c] by (intro client_internal_enabled) auto
qed

lemma client_run_frame: "(client_internal ^^ n) c c' \<Longrightarrow> attempts c' = attempts c"
  by (induction n arbitrary: c') (auto dest: client_internal_frame)

text \<open>Property C17. A client left alone comes to rest, from every state, stopped or in the middle of an attempt: every
  run of handlers and completions, in any order, has at most \<open>client_work\<close> steps, and it can go on until every requested
  stopped callback has been called and, when no stop was ever requested, the callback of every attempt.\<close>

theorem tcp_client_terminates:
  assumes "reachable client_init (client_step False True) c" and "(client_internal ^^ n) c c'"
  shows "n \<le> client_work c \<and> length (cl_stopped_calls c') \<le> stop_requests c \<and> length (completions c') \<le> attempts c \<and>
    (length (cl_stopped_calls c') < stop_requests c \<or> stop_requests c = 0 \<and> length (completions c') < attempts c \<longrightarrow>
      (\<exists>c''. client_internal c' c''))"
proof -
  have inv: "client_inv c" using assms(1) client.reachable_inv by blast
  note run = client_drain.run_bounded [OF inv assms(2)] client_run_frame [OF assms(2)]
  then have "completion_inv c'" "phase_inv c'" by (simp_all add: client_inv_def)
  then have "length (completions c') \<le> attempts c" "\<not> client_idle c'"
    if "stop_requests c = 0 \<and> length (completions c') < attempts c"
    using run that idle_not_busy [of c']
    by (auto simp: completion_inv_cases client_idle_def client_busy_def attempting_def)
  moreover have "length (completions c') \<le> attempts c" using \<open>completion_inv c'\<close> run by (simp add: completion_inv_cases)
  ultimately show ?thesis
    using client_drain.drains [OF inv assms(2)] client_internal_enabled [of c'] by auto
qed

section \<open>Runs\<close>

text \<open>A connection and a server that are stopped at once, and a client that is stopped while it connects.\<close>

definition stopping_example :: Conn where
  "stopping_example = snd (async_stop 7 (TcpConnection_new 4 4 True None))"

lemma conn_internal_next: "posted c \<noteq> [] \<Longrightarrow> conn_internal c (run_next c)"
  using conn_internal.handler [of c "[]"] by (cases "posted c") (simp_all add: run_next_def)

lemma stopping_example_run: "(conn_internal ^^ 2) stopping_example stopped_example"
proof -
  have "stopped_example = run_next (run_next stopping_example)" by (simp add: stopped_example_def stopping_example_def)
  moreover have "posted stopping_example \<noteq> []" "posted (run_next stopping_example) \<noteq> []"
    by (simp_all add: stopping_example_def TcpConnection_new_def async_stop_def run_next_def cancel_async_operations_def
      socket_cancel_def resolve_on_stopped_def post_def set_f_def clear_f_def conn_flags.flag_laws)
  ultimately show ?thesis using relpowp_2 conn_internal_next by metis
qed

theorem tcp_connection_stop_terminates_witness: "2 \<le> conn_work stopping_example"
proof -
  have "reachable conn_init conn_step stopping_example"
    unfolding stopping_example_def by (intro reachable_calls reachable_new) (simp add: keeps_buffer_def)
  moreover have "get TCS_stop_signaled stopping_example"
    by (simp add: stopping_example_def TcpConnection_new_def async_stop_def post_def set_f_def conn_flags.flag_laws)
  ultimately show ?thesis using tcp_connection_stop_terminates [OF _ _ stopping_example_run] by blast
qed

definition stopping_server :: Server where
  "stopping_server = snd (server_stop False 7 (snd (server_async_start (TcpServer_new 16 16))))"

lemma server_internal_next: "srv_posted s \<noteq> [] \<Longrightarrow> server_internal s (server_run_next s)"
  using server_internal.handler [of s "[]"] by (cases "srv_posted s") (simp_all add: server_run_next_def)

lemma stopping_server_run: "(server_internal ^^ 3) stopping_server stopped_server"
proof -
  have "stopped_server = server_run_next (server_run_next (server_run_next stopping_server))"
    by (simp add: stopped_server_def stopping_server_def)
  moreover have "srv_posted stopping_server \<noteq> []" "srv_posted (server_run_next stopping_server) \<noteq> []"
    "srv_posted (server_run_next (server_run_next stopping_server)) \<noteq> []"
    by (simp_all add: stopping_server_def server_run_defs)
  ultimately show ?thesis using relpowp_3 server_internal_next by metis
qed

theorem tcp_server_stop_terminates_witness: "3 \<le> length (srv_posted stopping_server) + 2 * srv_accepts stopping_server + 1"
proof -
  have "reachable server_init (server_step False) stopping_server"
    unfolding stopping_server_def by (intro reachable_server_calls reachable_server_new)
  moreover have "sget TSS_stop_signaled stopping_server" "\<not> srv_accept_failed stopping_server"
    by (simp_all add: stopping_server_def server_run_defs)
  ultimately show ?thesis using tcp_server_stop_terminates [OF _ _ _ stopping_server_run] by blast
qed

definition stopping_client :: "nat Client" where
  "stopping_client = snd (client_stop False 7 connecting_client)"

lemma client_internal_next: "cl_posted c \<noteq> [] \<Longrightarrow> client_internal c (client_run_next c)"
  using client_internal.handler [of c "[]"] by (cases "cl_posted c") (simp_all add: client_run_next_def)

lemmas stopping_client_defs = stopping_client_def client_run_next_def client_stop_def client_async_stop_def
  client_stop_posted_def client_cancel_def client_resolve_on_stopped_def handle_connect_def post_completion_def cset_def
  cclear_def cpost_def client_flags.flag_laws

lemma stopping_client_run:
  "(client_internal ^^ 3) stopping_client (client_run_next (client_run_next (client_run_next stopping_client)))"
proof -
  have "cl_posted stopping_client \<noteq> []" "cl_posted (client_run_next stopping_client) \<noteq> []"
    "cl_posted (client_run_next (client_run_next stopping_client)) \<noteq> []"
    using connecting_client_state by (simp_all add: stopping_client_defs)
  from this [THEN client_internal_next] show ?thesis by (rule relpowp_3)
qed

theorem tcp_client_terminates_witness: "3 \<le> client_work stopping_client"
proof -
  have "reachable client_init (client_step False True) stopping_client"
    unfolding stopping_client_def by (intro reachable_client_calls connecting_client_reachable)
  with tcp_client_terminates [OF _ stopping_client_run] show ?thesis by blast
qed

section \<open>A write that nothing cancels\<close>

text \<open>The connection that is writing two bytes; a third is queued, and then the connection is stopped.\<close>

definition queued_more :: Conn where
  "queued_more = (call_queue_send_function (append_bytes [3]) writing_example)\<lparr>queued := [1, 2, 3]\<rparr>"

definition resending_example :: Conn where
  "resending_example = run_next (run_next (post (H_on_send False 2)
     ((snd (async_stop 7 queued_more))\<lparr>wire := [1, 2], writes := []\<rparr>)))"

lemma append_more:
  "append_bytes [3] \<lparr>buffer = [1, 2, 0, 0], head = 2, tail = 0, bsize = 2\<rparr> = \<lparr>buffer = [1, 2, 3, 0], head = 3, tail = 0, bsize = 3\<rparr>"
  by code_simp

lemmas conn_run_defs = async_stop_def call_queue_send_function_def append_more post_def set_f_def read_bytes_def
  writing_example_def queue_example_def append_example TcpConnection_new_def start_sending_def run_next_def
  send_posted_def async_send_def get_read_head_def Let_def clear_f_def conn_flags.flag_laws

lemma queued_more_reachable: "reachable conn_init conn_step queued_more"
proof -
  have "conn_step writing_example queued_more"
    using conn_step.queue [of "[3]" writing_example]
    by (simp add: queued_more_def writing_example_state writable_def get_write_head_def)
      (simp add: conn_run_defs)
  with writing_example_reachable show ?thesis by (rule reachable.more)
qed

lemma resending_start:
  "writes (snd (async_stop 7 queued_more)) = [] @ (0, 2, 0) # []" "wire (snd (async_stop 7 queued_more)) = []"
  "read_bytes 0 2 (send_buffer (snd (async_stop 7 queued_more))) = Some [1, 2]"
  by (simp_all add: queued_more_def conn_run_defs)

lemma resending_example_reachable: "reachable conn_init conn_step resending_example"
proof -
  let ?s = "snd (async_stop 7 queued_more)"
  have "reachable conn_init conn_step ?s" by (intro reachable_calls queued_more_reachable)
  moreover have "conn_step ?s (post (H_on_send False 2) (?s\<lparr>wire := wire ?s @ [1, 2], writes := [] @ []\<rparr>))"
    by (rule conn_step.write_done [where p = 0 and sent = 0 and n = 2]) (simp_all add: resending_start)
  ultimately show ?thesis
    unfolding resending_example_def using resending_start(2) by (intro reachable_run_next) (auto intro: reachable.more)
qed

text \<open>\<open>on_send\<close> starts the next write without looking at the stop request. When a write has completed
  before the cancel handler runs and more is queued, that next write is started after the only
  cancellation: nothing is queued, the callback is still owed, and \<open>stop\<close> waits until the peer takes the bytes.\<close>

theorem tcp_connection_stop_resends:
  "\<exists>c. reachable conn_init conn_step c \<and> get_flag (tcs TCS_stop_signaled) (flags c) \<and> posted c = [] \<and>
    writes c = [(2, 1, 0)] \<and> stopped_calls c = [] \<and> disconnected_callback c = Some 7"
proof (intro exI conjI)
  show "reachable conn_init conn_step resending_example" by (rule resending_example_reachable)
  show "get_flag (tcs TCS_stop_signaled) (flags resending_example)" "posted resending_example = []"
    "writes resending_example = [(2, 1, 0)]" "stopped_calls resending_example = []"
    "disconnected_callback resending_example = Some 7"
    by (simp_all add: resending_example_def queued_more_def conn_run_defs cancel_async_operations_def socket_cancel_def
      resolve_on_stopped_def on_send_def consume_def reset_if_empty_def)
qed
end
