(* ===== verification/Udp_Discovery_States.thy ===== *)
theory Udp_Discovery_States
  imports Flags Transitions
begin

text \<open>
  \<open>eestv/net/discovery/discovery_states.hpp\<close>, shared by the discovery client and the discovery
  server, and the receive buffer both hand to \<open>async_receive_from\<close>.
\<close>

datatype UdpDiscoveryState =
  UDS_running | UDS_stopping | UDS_timer_running | UDS_sending_async | UDS_receiving_async

fun uds :: "UdpDiscoveryState \<Rightarrow> nat" where
  "uds UDS_running = 0"
| "uds UDS_stopping = 1"
| "uds UDS_timer_running = 2"
| "uds UDS_sending_async = 3"
| "uds UDS_receiving_async = 4"

fun UdpDiscoveryState_to_string :: "UdpDiscoveryState \<Rightarrow> string" where
  "UdpDiscoveryState_to_string UDS_running = ''running''"
| "UdpDiscoveryState_to_string UDS_stopping = ''stopping''"
| "UdpDiscoveryState_to_string UDS_timer_running = ''timer_running''"
| "UdpDiscoveryState_to_string UDS_sending_async = ''sending_async''"
| "UdpDiscoveryState_to_string UDS_receiving_async = ''receiving_async''"

interpretation udp_flags: flag_enum uds
proof
  show "uds a = uds b \<Longrightarrow> a = b" for a b by (cases a; cases b) simp_all
  show "uds a < 32" for a by (cases a) simp_all
qed

declare uds.simps [simp del]

text \<open>
  \<open>recv_buffer_size\<close>, and a datagram arriving in the buffer: what does not fit is discarded, and
  the rest of the buffer keeps its old contents.
\<close>

definition recv_buffer_size :: nat where
  "recv_buffer_size = 1024"

definition datagram_size :: "string \<Rightarrow> nat" where
  "datagram_size datagram = min (length datagram) recv_buffer_size"

definition store_datagram :: "string \<Rightarrow> string \<Rightarrow> string" where
  "store_datagram datagram buf = take recv_buffer_size datagram @ drop (datagram_size datagram) buf"

lemma take_store_datagram [simp]: "take (datagram_size d) (store_datagram d buf) = take recv_buffer_size d"
  by (simp add: store_datagram_def datagram_size_def min_def)

lemma length_store_datagram: "length buf = recv_buffer_size \<Longrightarrow> length (store_datagram d buf) = recv_buffer_size"
  by (simp add: store_datagram_def datagram_size_def min_def)

end
