(* ===== verification/Udp_Discovery_Client.thy ===== *)
theory Udp_Discovery_Client
  imports Udp_Discovery_States
begin

text \<open>
  \<open>eestv/net/discovery/udp_discovery_client.hpp\<close> and \<open>udp_discovery_client.cpp\<close>: broadcasting a
  request until it is stopped, and passing the responses to a callback.
\<close>

section \<open>State\<close>

text \<open>
  The handlers: the lambdas posted by \<open>async_start\<close> and \<open>async_stop\<close>, the completions of
  \<open>async_send_to\<close>, \<open>async_receive_from\<close> (with the bytes transferred) and \<open>async_wait\<close>, and the
  stopped callback.
\<close>

datatype uclient_handler =
  UC_start | UC_cancel | UC_on_send error_code | UC_on_response error_code nat | UC_on_timeout error_code
  | UC_stopped nat

text \<open>
  \<open>uc_receives\<close>, \<open>uc_sends\<close> and \<open>uc_waits\<close> count the operations the system holds. The last fields
  record what the outside has seen: the datagrams the system has put into the buffer, the responses
  given to the callback, the accepted stop requests, the calls of their callbacks, and
  whether a send or the timer has failed since the last start.
\<close>

record 'ep UdpDiscoveryClient =
  uc_flags :: Flags
  uc_service_name :: string
  uc_destination_port :: int
  uc_on_response :: bool
  uc_on_stopped :: "nat option"
  uc_recv_buffer :: string
  uc_remote_endpoint :: "'ep option"
  uc_posted :: "uclient_handler list"
  uc_receives :: nat
  uc_sends :: nat
  uc_waits :: nat
  uc_requests_sent :: "(string \<times> int) list"
  uc_datagrams :: "(string \<times> 'ep) list"
  uc_responses :: "(string \<times> 'ep option) list"
  uc_stop_requests :: nat
  uc_stopped_calls :: "nat list"
  uc_failed :: bool

abbreviation uget :: "UdpDiscoveryState \<Rightarrow> 'ep UdpDiscoveryClient \<Rightarrow> bool" where
  "uget f c \<equiv> get_flag (uds f) (uc_flags c)"

definition uset :: "UdpDiscoveryState \<Rightarrow> 'ep UdpDiscoveryClient \<Rightarrow> 'ep UdpDiscoveryClient" where
  "uset f c = c\<lparr>uc_flags := set_flag (uds f) (uc_flags c)\<rparr>"

definition uclear :: "UdpDiscoveryState \<Rightarrow> 'ep UdpDiscoveryClient \<Rightarrow> 'ep UdpDiscoveryClient" where
  "uclear f c = c\<lparr>uc_flags := clear_flag (uds f) (uc_flags c)\<rparr>"

definition upost :: "uclient_handler \<Rightarrow> 'ep UdpDiscoveryClient \<Rightarrow> 'ep UdpDiscoveryClient" where
  "upost h c = c\<lparr>uc_posted := uc_posted c @ [h]\<rparr>"

definition UdpDiscoveryClient_new :: "string \<Rightarrow> int \<Rightarrow> bool \<Rightarrow> 'ep UdpDiscoveryClient" where
  "UdpDiscoveryClient_new service_name destination_port on_response =
     \<lparr>uc_flags = flags_init, uc_service_name = service_name, uc_destination_port = destination_port,
      uc_on_response = on_response, uc_on_stopped = None,
      uc_recv_buffer = replicate recv_buffer_size (CHR 0x00), uc_remote_endpoint = None, uc_posted = [],
      uc_receives = 0, uc_sends = 0, uc_waits = 0, uc_requests_sent = [], uc_datagrams = [],
      uc_responses = [], uc_stop_requests = 0, uc_stopped_calls = [], uc_failed = False\<rparr>"

section \<open>Member functions\<close>

definition uclient_async_start :: "'ep UdpDiscoveryClient \<Rightarrow> bool \<times> 'ep UdpDiscoveryClient" where
  "uclient_async_start c =
     (if uget UDS_running c \<or> uget UDS_stopping c then (False, c)
      else (True, upost UC_start (uset UDS_running c)))"

text \<open>\<open>post\<close> with the moved callback leaves \<open>_on_stopped\<close> empty.\<close>

definition uclient_post_stopped :: "'ep UdpDiscoveryClient \<Rightarrow> 'ep UdpDiscoveryClient" where
  "uclient_post_stopped c =
     (case uc_on_stopped c of
        None \<Rightarrow> c
      | Some k \<Rightarrow> upost (UC_stopped k) (c\<lparr>uc_on_stopped := None\<rparr>))"

definition uclient_resolve_on_stopped :: "'ep UdpDiscoveryClient \<Rightarrow> 'ep UdpDiscoveryClient" where
  "uclient_resolve_on_stopped c =
     (if uget UDS_stopping c
      then
        (if \<not> uget UDS_receiving_async c \<and> \<not> uget UDS_sending_async c \<and> \<not> uget UDS_timer_running c
         then uclient_post_stopped c else c)
      else c)"

definition uclient_async_receive :: "'ep UdpDiscoveryClient \<Rightarrow> 'ep UdpDiscoveryClient" where
  "uclient_async_receive c = c\<lparr>uc_receives := uc_receives c + 1\<rparr>"

definition send_discovery_request :: "'ep UdpDiscoveryClient \<Rightarrow> 'ep UdpDiscoveryClient" where
  "send_discovery_request c =
     (uset UDS_sending_async c)\<lparr>uc_sends := uc_sends c + 1,
        uc_requests_sent := uc_requests_sent c @ [(uc_service_name c, uc_destination_port c)]\<rparr>"

definition uclient_start_posted :: "'ep UdpDiscoveryClient \<Rightarrow> 'ep UdpDiscoveryClient" where
  "uclient_start_posted c =
     (if \<not> uget UDS_stopping c
      then send_discovery_request (uclient_async_receive (uset UDS_receiving_async c))
      else uclient_resolve_on_stopped c)"

definition uclient_async_stop :: "nat \<Rightarrow> 'ep UdpDiscoveryClient \<Rightarrow> bool \<times> 'ep UdpDiscoveryClient" where
  "uclient_async_stop callback c =
     (if uget UDS_stopping c then (False, c)
      else
        (True, upost UC_cancel
          ((uset UDS_stopping c)\<lparr>uc_on_stopped := Some callback, uc_stop_requests := uc_stop_requests c + 1\<rparr>)))"

definition uclient_cancel :: "'ep UdpDiscoveryClient \<Rightarrow> 'ep UdpDiscoveryClient" where
  "uclient_cancel c =
     c\<lparr>uc_posted := uc_posted c @ replicate (uc_waits c) (UC_on_timeout Operation_aborted)
         @ replicate (uc_receives c) (UC_on_response Operation_aborted 0)
         @ replicate (uc_sends c) (UC_on_send Operation_aborted),
       uc_waits := 0, uc_receives := 0, uc_sends := 0\<rparr>"

definition uclient_stop_posted :: "'ep UdpDiscoveryClient \<Rightarrow> 'ep UdpDiscoveryClient" where
  "uclient_stop_posted c =
     (if uget UDS_running c then uclient_cancel c else uclient_post_stopped c)"

definition uclient_stop :: "bool \<Rightarrow> nat \<Rightarrow> 'ep UdpDiscoveryClient \<Rightarrow> bool \<times> 'ep UdpDiscoveryClient" where
  "uclient_stop is_on_io_thread stopped c =
     (if is_on_io_thread then (False, c) else uclient_async_stop stopped c)"

definition handle_send_complete :: "error_code \<Rightarrow> 'ep UdpDiscoveryClient \<Rightarrow> 'ep UdpDiscoveryClient" where
  "handle_send_complete error_code c =
     (let c = (if error_code \<noteq> No_error then c
               else if \<not> uget UDS_stopping c
               then (uset UDS_timer_running c)\<lparr>uc_waits := uc_waits c + 1\<rparr>
               else c)
      in uclient_resolve_on_stopped (uclear UDS_sending_async c))"

definition handle_response :: "error_code \<Rightarrow> nat \<Rightarrow> 'ep UdpDiscoveryClient \<Rightarrow> 'ep UdpDiscoveryClient" where
  "handle_response error_code bytes_transferred c =
     (let c = (if error_code \<noteq> No_error then c
               else if bytes_transferred > 0 \<and> uc_on_response c
               then uclient_async_receive
                 (c\<lparr>uc_responses := uc_responses c @ [(take bytes_transferred (uc_recv_buffer c), uc_remote_endpoint c)]\<rparr>)
               else c)
      in uclient_resolve_on_stopped (uclear UDS_receiving_async c))"

definition handle_timeout :: "error_code \<Rightarrow> 'ep UdpDiscoveryClient \<Rightarrow> 'ep UdpDiscoveryClient" where
  "handle_timeout error_code c =
     (let c = (if error_code \<noteq> No_error then c else send_discovery_request c)
      in uclient_resolve_on_stopped (uclear UDS_timer_running c))"

definition uclient_reset :: "'ep UdpDiscoveryClient \<Rightarrow> 'ep UdpDiscoveryClient" where
  "uclient_reset c = c\<lparr>uc_flags := clear_all (uc_flags c)\<rparr>"

fun uclient_run_handler :: "uclient_handler \<Rightarrow> 'ep UdpDiscoveryClient \<Rightarrow> 'ep UdpDiscoveryClient" where
  "uclient_run_handler UC_start c = uclient_start_posted c"
| "uclient_run_handler UC_cancel c = uclient_stop_posted c"
| "uclient_run_handler (UC_on_send e) c = handle_send_complete e c"
| "uclient_run_handler (UC_on_response e n) c = handle_response e n c"
| "uclient_run_handler (UC_on_timeout e) c = handle_timeout e c"
| "uclient_run_handler (UC_stopped k) c = c\<lparr>uc_stopped_calls := uc_stopped_calls c @ [k]\<rparr>"

section \<open>Steps\<close>

text \<open>
  A call of the user, a completion by the system or one queued handler; with \<open>one_thread\<close> the
  handlers run in order. The header asks that \<open>reset\<close> is called after a successful stop: a stop was
  requested and every accepted stop has had its callback. With \<open>early_reset\<close> the user keeps
  only that rule; without it the user also waits until nothing of the client is queued or
  outstanding, which the class gives no way to find out.
\<close>

definition uclient_idle :: "'ep UdpDiscoveryClient \<Rightarrow> bool" where
  "uclient_idle c \<longleftrightarrow> uc_posted c = [] \<and> uc_receives c = 0 \<and> uc_sends c = 0 \<and> uc_waits c = 0"

inductive uclient_step :: "bool \<Rightarrow> bool \<Rightarrow> 'ep UdpDiscoveryClient \<Rightarrow> 'ep UdpDiscoveryClient \<Rightarrow> bool" for one_thread early_reset where
  start: "uclient_step one_thread early_reset c (snd (uclient_async_start c))"
| stop: "uclient_step one_thread early_reset c (snd (uclient_stop io_thread k c))"
| reset: "early_reset \<or> uclient_idle c \<Longrightarrow> length (uc_stopped_calls c) = uc_stop_requests c \<Longrightarrow> uget UDS_stopping c \<Longrightarrow>
    uclient_step one_thread early_reset c ((uclient_reset c)\<lparr>uc_failed := False\<rparr>)"
| handler: "uc_posted c = hs @ h # hs' \<Longrightarrow> one_thread \<longrightarrow> hs = [] \<Longrightarrow>
    uclient_step one_thread early_reset c (uclient_run_handler h (c\<lparr>uc_posted := hs @ hs'\<rparr>))"
| sent: "uc_sends c = Suc n \<Longrightarrow> uclient_step one_thread early_reset c (upost (UC_on_send No_error) (c\<lparr>uc_sends := n\<rparr>))"
| send_failed: "uc_sends c = Suc n \<Longrightarrow>
    uclient_step one_thread early_reset c (upost (UC_on_send Other_error) (c\<lparr>uc_sends := n, uc_failed := True\<rparr>))"
| received: "uc_receives c = Suc n \<Longrightarrow>
    uclient_step one_thread early_reset c (upost (UC_on_response No_error (datagram_size d))
      (c\<lparr>uc_receives := n, uc_recv_buffer := store_datagram d (uc_recv_buffer c), uc_remote_endpoint := Some ep,
         uc_datagrams := uc_datagrams c @ [(d, ep)]\<rparr>))"
| receive_failed: "uc_receives c = Suc n \<Longrightarrow>
    uclient_step one_thread early_reset c (upost (UC_on_response Other_error 0) (c\<lparr>uc_receives := n\<rparr>))"
| expired: "uc_waits c = Suc n \<Longrightarrow> uclient_step one_thread early_reset c (upost (UC_on_timeout No_error) (c\<lparr>uc_waits := n\<rparr>))"
| wait_failed: "uc_waits c = Suc n \<Longrightarrow>
    uclient_step one_thread early_reset c (upost (UC_on_timeout Other_error) (c\<lparr>uc_waits := n, uc_failed := True\<rparr>))"

definition uclient_init :: "'ep UdpDiscoveryClient \<Rightarrow> bool" where
  "uclient_init c \<longleftrightarrow> (\<exists>name port cb. c = UdpDiscoveryClient_new name port cb)"

section \<open>Flags of an updated client\<close>

lemma uget_simps [simp]:
  "get_flag (uds f) (uc_flags (uset g c)) \<longleftrightarrow> f = g \<or> uget f c"
  "get_flag (uds f) (uc_flags (uclear g c)) \<longleftrightarrow> f \<noteq> g \<and> uget f c"
  "uc_flags (upost h c) = uc_flags c"
  by (simp_all add: uset_def uclear_def upost_def udp_flags.flag_laws)

lemma uset_frame [simp]:
  "uc_on_stopped (uset f c) = uc_on_stopped c" "uc_posted (uset f c) = uc_posted c" "uc_receives (uset f c) = uc_receives c"
  "uc_sends (uset f c) = uc_sends c" "uc_waits (uset f c) = uc_waits c" "uc_stop_requests (uset f c) = uc_stop_requests c"
  "uc_stopped_calls (uset f c) = uc_stopped_calls c" "uc_failed (uset f c) = uc_failed c"
  "uc_datagrams (uset f c) = uc_datagrams c" "uc_responses (uset f c) = uc_responses c"
  "uc_recv_buffer (uset f c) = uc_recv_buffer c" "uc_remote_endpoint (uset f c) = uc_remote_endpoint c"
  "uc_on_response (uset f c) = uc_on_response c"
  by (simp_all add: uset_def)

lemma uclear_frame [simp]:
  "uc_on_stopped (uclear f c) = uc_on_stopped c" "uc_posted (uclear f c) = uc_posted c" "uc_receives (uclear f c) = uc_receives c"
  "uc_sends (uclear f c) = uc_sends c" "uc_waits (uclear f c) = uc_waits c" "uc_stop_requests (uclear f c) = uc_stop_requests c"
  "uc_stopped_calls (uclear f c) = uc_stopped_calls c" "uc_failed (uclear f c) = uc_failed c"
  "uc_datagrams (uclear f c) = uc_datagrams c" "uc_responses (uclear f c) = uc_responses c"
  "uc_recv_buffer (uclear f c) = uc_recv_buffer c" "uc_remote_endpoint (uclear f c) = uc_remote_endpoint c"
  "uc_on_response (uclear f c) = uc_on_response c"
  by (simp_all add: uclear_def)

lemma upost_frame [simp]:
  "uc_on_stopped (upost h c) = uc_on_stopped c" "uc_posted (upost h c) = uc_posted c @ [h]" "uc_receives (upost h c) = uc_receives c"
  "uc_sends (upost h c) = uc_sends c" "uc_waits (upost h c) = uc_waits c" "uc_stop_requests (upost h c) = uc_stop_requests c"
  "uc_stopped_calls (upost h c) = uc_stopped_calls c" "uc_failed (upost h c) = uc_failed c"
  "uc_datagrams (upost h c) = uc_datagrams c" "uc_responses (upost h c) = uc_responses c"
  "uc_recv_buffer (upost h c) = uc_recv_buffer c" "uc_remote_endpoint (upost h c) = uc_remote_endpoint c"
  "uc_on_response (upost h c) = uc_on_response c"
  by (simp_all add: upost_def)

section \<open>The invariant\<close>

fun is_usend :: "uclient_handler \<Rightarrow> bool" where
  "is_usend (UC_on_send _) \<longleftrightarrow> True" | "is_usend _ \<longleftrightarrow> False"

fun is_uresponse :: "uclient_handler \<Rightarrow> bool" where
  "is_uresponse (UC_on_response _ _) \<longleftrightarrow> True" | "is_uresponse _ \<longleftrightarrow> False"

fun is_utimeout :: "uclient_handler \<Rightarrow> bool" where
  "is_utimeout (UC_on_timeout _) \<longleftrightarrow> True" | "is_utimeout _ \<longleftrightarrow> False"

fun is_ustopped :: "uclient_handler \<Rightarrow> bool" where
  "is_ustopped (UC_stopped _) \<longleftrightarrow> True" | "is_ustopped _ \<longleftrightarrow> False"

text \<open>A handler that ends the chain of sends and waits, or that a stop has posted.\<close>

fun ends_chain :: "uclient_handler \<Rightarrow> bool" where
  "ends_chain (UC_on_send e) \<longleftrightarrow> e \<noteq> No_error"
| "ends_chain (UC_on_timeout e) \<longleftrightarrow> e \<noteq> No_error"
| "ends_chain _ \<longleftrightarrow> False"

definition ustarts :: "'ep UdpDiscoveryClient \<Rightarrow> nat" where
  "ustarts c = jobs (\<lambda>h. h = UC_start) (uc_posted c)"

definition uowed :: "'ep UdpDiscoveryClient \<Rightarrow> nat" where
  "uowed c = (if uc_on_stopped c = None then 0 else 1)"

text \<open>
  \<open>sending_async\<close> and \<open>timer_running\<close> count their operations exactly and never both; of
  \<open>receiving_async\<close> only one direction holds. While a client runs undisturbed its chain of sends
  and waits is alive.
\<close>

definition ucore :: "'ep UdpDiscoveryClient \<Rightarrow> bool" where
  "ucore c \<longleftrightarrow>
     uc_sends c + jobs is_usend (uc_posted c) = of_bool (uget UDS_sending_async c) \<and>
     uc_waits c + jobs is_utimeout (uc_posted c) = of_bool (uget UDS_timer_running c) \<and>
     ustarts c + of_bool (uget UDS_sending_async c) + of_bool (uget UDS_timer_running c) \<le> 1 \<and>
     ustarts c + uc_receives c + jobs is_uresponse (uc_posted c) \<le> 1 \<and>
     (uget UDS_receiving_async c \<longrightarrow> uc_receives c + jobs is_uresponse (uc_posted c) = 1) \<and>
     (\<not> uget UDS_running c \<longrightarrow> ustarts c = 0 \<and> \<not> uget UDS_sending_async c \<and> \<not> uget UDS_timer_running c \<and>
        uc_receives c = 0 \<and> jobs is_uresponse (uc_posted c) = 0) \<and>
     (uget UDS_stopping c \<or> uc_failed c \<or>
        jobs (\<lambda>h. h = UC_cancel) (uc_posted c) = 0 \<and> jobs ends_chain (uc_posted c) = 0 \<and>
        (uget UDS_running c \<longrightarrow> ustarts c = 1 \<or> uget UDS_sending_async c \<or> uget UDS_timer_running c)) \<and>
     (jobs (\<lambda>h. h = UC_cancel) (uc_posted c) = 0 \<or> uget UDS_stopping c)"

definition uactive :: "'ep UdpDiscoveryClient \<Rightarrow> bool" where
  "uactive c \<longleftrightarrow> ustarts c = 1 \<or> uget UDS_sending_async c \<or> uget UDS_timer_running c \<or> uget UDS_receiving_async c \<or>
     \<not> uget UDS_running c \<and> jobs (\<lambda>h. h = UC_cancel) (uc_posted c) \<noteq> 0 \<or> uc_failed c"

definition uledger :: "'ep UdpDiscoveryClient \<Rightarrow> bool" where
  "uledger c \<longleftrightarrow>
     uowed c + jobs is_ustopped (uc_posted c) + length (uc_stopped_calls c) = uc_stop_requests c \<and>
     (uowed c = 1 \<longrightarrow> uget UDS_stopping c)"

definition ustop :: "'ep UdpDiscoveryClient \<Rightarrow> bool" where
  "ustop c \<longleftrightarrow> uledger c \<and> (uowed c = 1 \<longrightarrow> uactive c)"

lemma uowed_cases: obtains "uc_on_stopped c = None" "uowed c = 0" | k where "uc_on_stopped c = Some k" "uowed c = 1"
  by (cases "uc_on_stopped c") (simp_all add: uowed_def)

lemma uowed_simps [simp]:
  "uowed (uset f c) = uowed c" "uowed (uclear f c) = uowed c" "uowed (upost h c) = uowed c"
  "uowed (c\<lparr>uc_posted := q\<rparr>) = uowed c" "uowed (c\<lparr>uc_receives := n\<rparr>) = uowed c" "uowed (c\<lparr>uc_sends := n\<rparr>) = uowed c"
  "uowed (c\<lparr>uc_waits := n\<rparr>) = uowed c" "uowed (c\<lparr>uc_failed := b\<rparr>) = uowed c" "uowed (c\<lparr>uc_flags := fl\<rparr>) = uowed c"
  "uowed (c\<lparr>uc_requests_sent := rs\<rparr>) = uowed c" "uowed (c\<lparr>uc_datagrams := ds\<rparr>) = uowed c"
  "uowed (c\<lparr>uc_responses := qs\<rparr>) = uowed c" "uowed (c\<lparr>uc_recv_buffer := b'\<rparr>) = uowed c"
  "uowed (c\<lparr>uc_remote_endpoint := ep\<rparr>) = uowed c" "uowed (c\<lparr>uc_stop_requests := n\<rparr>) = uowed c"
  "uowed (c\<lparr>uc_stopped_calls := ks\<rparr>) = uowed c"
  "uowed (c\<lparr>uc_on_stopped := None\<rparr>) = 0" "uowed (c\<lparr>uc_on_stopped := Some k\<rparr>) = 1"
  by (simp_all add: uowed_def)

lemma ustarts_simps [simp]:
  "ustarts (uset f c) = ustarts c" "ustarts (uclear f c) = ustarts c"
  "ustarts (upost h c) = ustarts c + of_bool (h = UC_start)"
  "ustarts (c\<lparr>uc_posted := q\<rparr>) = jobs (\<lambda>h. h = UC_start) q"
  "ustarts (c\<lparr>uc_receives := n\<rparr>) = ustarts c" "ustarts (c\<lparr>uc_sends := n\<rparr>) = ustarts c"
  "ustarts (c\<lparr>uc_waits := n\<rparr>) = ustarts c" "ustarts (c\<lparr>uc_failed := b\<rparr>) = ustarts c" "ustarts (c\<lparr>uc_flags := fl\<rparr>) = ustarts c"
  "ustarts (c\<lparr>uc_requests_sent := rs\<rparr>) = ustarts c" "ustarts (c\<lparr>uc_datagrams := ds\<rparr>) = ustarts c"
  "ustarts (c\<lparr>uc_responses := qs\<rparr>) = ustarts c" "ustarts (c\<lparr>uc_recv_buffer := b'\<rparr>) = ustarts c"
  "ustarts (c\<lparr>uc_remote_endpoint := ep\<rparr>) = ustarts c" "ustarts (c\<lparr>uc_stop_requests := n\<rparr>) = ustarts c"
  "ustarts (c\<lparr>uc_stopped_calls := ks\<rparr>) = ustarts c" "ustarts (c\<lparr>uc_on_stopped := k\<rparr>) = ustarts c"
  by (simp_all add: ustarts_def)

lemma uclient_init_inv: "uclient_init c \<Longrightarrow> ucore c \<and> ustop c"
  by (auto simp: uclient_init_def UdpDiscoveryClient_new_def ucore_def ustop_def uledger_def ustarts_def uowed_def)

lemma post_stopped_frame [simp]:
  "ucore (uclient_post_stopped c) = ucore c" "uc_flags (uclient_post_stopped c) = uc_flags c"
  "uowed (uclient_post_stopped c) = 0"
  by (cases c rule: uowed_cases; simp add: uclient_post_stopped_def ucore_def)+

lemma post_stopped_ledger: "uledger c \<Longrightarrow> ustop (uclient_post_stopped c)"
  by (cases c rule: uowed_cases) (simp_all add: uclient_post_stopped_def ustop_def uledger_def)

lemma uclient_resolve_core [simp]: "ucore (uclient_resolve_on_stopped c) = ucore c"
  by (simp add: uclient_resolve_on_stopped_def)

lemma uclient_resolve_ustop: "uledger c \<Longrightarrow> ustop (uclient_resolve_on_stopped c)"
  by (cases c rule: uowed_cases; cases "uget UDS_stopping c")
    (auto simp: uclient_resolve_on_stopped_def post_stopped_ledger, auto simp: ustop_def uledger_def uactive_def)

section \<open>Preservation of the operations\<close>

lemma ucore_frame [simp]:
  "ucore (c\<lparr>uc_on_stopped := k\<rparr>) = ucore c" "ucore (c\<lparr>uc_stop_requests := n\<rparr>) = ucore c"
  "ucore (c\<lparr>uc_stopped_calls := ks\<rparr>) = ucore c" "ucore (c\<lparr>uc_responses := rs\<rparr>) = ucore c"
  "ucore (c\<lparr>uc_datagrams := ds\<rparr>) = ucore c" "ucore (c\<lparr>uc_requests_sent := qs\<rparr>) = ucore c"
  "ucore (c\<lparr>uc_recv_buffer := b\<rparr>) = ucore c" "ucore (c\<lparr>uc_remote_endpoint := ep\<rparr>) = ucore c"
  by (simp_all add: ucore_def)

lemma ustart_core: "ucore c \<Longrightarrow> ucore (snd (uclient_async_start c))"
  by (cases "uget UDS_running c"; cases "uget UDS_stopping c") (auto simp: uclient_async_start_def ucore_def)

lemma uasync_stop_core: "ucore c \<Longrightarrow> ucore (snd (uclient_async_stop k c))"
  by (cases "uget UDS_stopping c") (auto simp: uclient_async_stop_def ucore_def)

lemma ureset_core: "ucore c \<Longrightarrow> uclient_idle c \<Longrightarrow> ucore ((uclient_reset c)\<lparr>uc_failed := False\<rparr>)"
  by (simp add: ucore_def uclient_idle_def uclient_reset_def ustarts_def)

lemma UC_start_queued:
  assumes "ucore c" and "uc_posted c = hs @ UC_start # hs'"
  shows "\<not> uget UDS_sending_async c \<and> \<not> uget UDS_timer_running c \<and> \<not> uget UDS_receiving_async c \<and> uget UDS_running c
    \<and> uc_receives c = 0 \<and> jobs is_uresponse (uc_posted c) = 0"
  using assms by (cases "uget UDS_running c"; cases "uget UDS_receiving_async c") (simp_all add: ucore_def ustarts_def)

lemma UC_on_send_queued:
  assumes "ucore c" and "uc_posted c = hs @ UC_on_send e # hs'"
  shows "uget UDS_sending_async c \<and> \<not> uget UDS_timer_running c \<and> ustarts c = 0 \<and> uget UDS_running c"
  using assms by (cases "uget UDS_sending_async c"; cases "uget UDS_timer_running c"; cases "uget UDS_running c") (simp_all add: ucore_def)

lemma UC_on_timeout_queued:
  assumes "ucore c" and "uc_posted c = hs @ UC_on_timeout e # hs'"
  shows "uget UDS_timer_running c \<and> \<not> uget UDS_sending_async c \<and> ustarts c = 0 \<and> uget UDS_running c"
  using assms by (cases "uget UDS_sending_async c"; cases "uget UDS_timer_running c"; cases "uget UDS_running c") (simp_all add: ucore_def)

lemma UC_on_response_queued:
  assumes "ucore c" and "uc_posted c = hs @ UC_on_response e n # hs'"
  shows "uc_receives c = 0 \<and> jobs is_uresponse hs = 0 \<and> jobs is_uresponse hs' = 0 \<and> ustarts c = 0 \<and> uget UDS_running c"
  using assms by (cases "uget UDS_running c") (simp_all add: ucore_def)

lemma send_request_flags [simp]:
  "get_flag (uds f) (uc_flags (send_discovery_request c)) \<longleftrightarrow> f = UDS_sending_async \<or> uget f c"
  "uc_posted (send_discovery_request c) = uc_posted c" "uc_receives (send_discovery_request c) = uc_receives c"
  "uc_sends (send_discovery_request c) = uc_sends c + 1" "uc_waits (send_discovery_request c) = uc_waits c"
  "uc_failed (send_discovery_request c) = uc_failed c" "uowed (send_discovery_request c) = uowed c"
  "ustarts (send_discovery_request c) = ustarts c" "uc_stop_requests (send_discovery_request c) = uc_stop_requests c"
  "uc_stopped_calls (send_discovery_request c) = uc_stopped_calls c" "uc_responses (send_discovery_request c) = uc_responses c"
  "uc_datagrams (send_discovery_request c) = uc_datagrams c" "uc_recv_buffer (send_discovery_request c) = uc_recv_buffer c"
  "uc_remote_endpoint (send_discovery_request c) = uc_remote_endpoint c" "uc_on_response (send_discovery_request c) = uc_on_response c"
  by (simp_all add: send_discovery_request_def ustarts_def uowed_def udp_flags.flag_laws)

lemma UC_start_core:
  assumes "ucore c" and "uc_posted c = hs @ UC_start # hs'"
  shows "ucore (uclient_start_posted (c\<lparr>uc_posted := hs @ hs'\<rparr>))"
proof (cases "uget UDS_stopping c")
  case True
  from assms True UC_start_queued [OF assms] have "ucore (c\<lparr>uc_posted := hs @ hs'\<rparr>)"
    by (simp add: ucore_def ustarts_def)
  with True show ?thesis by (simp add: uclient_start_posted_def)
next
  case False
  from assms False UC_start_queued [OF assms] show ?thesis
    by (auto simp: uclient_start_posted_def uclient_async_receive_def ucore_def ustarts_def)
qed

lemma UC_on_send_core:
  assumes "ucore c" and "uc_posted c = hs @ UC_on_send e # hs'"
  shows "ucore (handle_send_complete e (c\<lparr>uc_posted := hs @ hs'\<rparr>))"
proof -
  note q = UC_on_send_queued [OF assms]
  have "ucore (uclear UDS_sending_async (c\<lparr>uc_posted := hs @ hs'\<rparr>))" if "e \<noteq> No_error \<or> uget UDS_stopping c"
    using assms q that by (auto simp: ucore_def ustarts_def)
  moreover have "ucore (uclear UDS_sending_async ((uset UDS_timer_running (c\<lparr>uc_posted := hs @ hs'\<rparr>))\<lparr>uc_waits := uc_waits c + 1\<rparr>))"
    if "\<not> uget UDS_stopping c"
    using assms q that by (auto simp: ucore_def ustarts_def udp_flags.flag_laws)
  ultimately show ?thesis by (simp add: handle_send_complete_def Let_def)
qed

lemma UC_on_timeout_core:
  assumes "ucore c" and "uc_posted c = hs @ UC_on_timeout e # hs'"
  shows "ucore (handle_timeout e (c\<lparr>uc_posted := hs @ hs'\<rparr>))"
proof -
  note q = UC_on_timeout_queued [OF assms]
  have "ucore (uclear UDS_timer_running (c\<lparr>uc_posted := hs @ hs'\<rparr>))" if "e \<noteq> No_error"
    using assms q that by (auto simp: ucore_def ustarts_def)
  moreover have "ucore (uclear UDS_timer_running (send_discovery_request (c\<lparr>uc_posted := hs @ hs'\<rparr>)))"
    using assms q by (auto simp: ucore_def ustarts_def)
  ultimately show ?thesis by (simp add: handle_timeout_def Let_def)
qed

lemma UC_on_response_core:
  assumes "ucore c" and "uc_posted c = hs @ UC_on_response e n # hs'"
  shows "ucore (handle_response e n (c\<lparr>uc_posted := hs @ hs'\<rparr>))"
proof -
  note q = UC_on_response_queued [OF assms]
  have "ucore (uclear UDS_receiving_async (c\<lparr>uc_posted := hs @ hs'\<rparr>))"
    using assms q by (auto simp: ucore_def ustarts_def)
  moreover have "ucore (uclear UDS_receiving_async (uclient_async_receive (c\<lparr>uc_posted := hs @ hs', uc_responses := rs\<rparr>)))" for rs
    using assms q by (auto simp: ucore_def ustarts_def uclient_async_receive_def)
  ultimately show ?thesis by (simp add: handle_response_def Let_def)
qed

lemma UC_cancel_core:
  assumes "ucore c" and "uc_posted c = hs @ UC_cancel # hs'"
  shows "ucore (uclient_stop_posted (c\<lparr>uc_posted := hs @ hs'\<rparr>))"
proof -
  have stop: "uget UDS_stopping c" using assms by (simp add: ucore_def)
  have "ucore (c\<lparr>uc_posted := hs @ hs'\<rparr>)" using assms stop by (simp add: ucore_def ustarts_def)
  moreover have "ucore (uclient_cancel (c\<lparr>uc_posted := hs @ hs'\<rparr>))"
    using assms stop by (cases "uget UDS_receiving_async c") (simp_all add: ucore_def ustarts_def uclient_cancel_def add_ac)
  ultimately show ?thesis by (simp add: uclient_stop_posted_def)
qed

lemma uhandler_core:
  assumes "ucore c" and "uc_posted c = hs @ h # hs'"
  shows "ucore (uclient_run_handler h (c\<lparr>uc_posted := hs @ hs'\<rparr>))"
proof (cases h)
  case (UC_stopped k)
  with assms show ?thesis by (simp add: ucore_def ustarts_def)
qed (use assms in \<open>simp_all add: UC_start_core UC_cancel_core UC_on_send_core UC_on_response_core UC_on_timeout_core\<close>)

lemma uclient_step_core:
  assumes "uclient_step t False c c'" and "ucore c"
  shows "ucore c'"
  using assms(1)
proof cases
  case (stop io_thread k)
  with assms(2) show ?thesis by (cases io_thread) (simp_all add: uclient_stop_def uasync_stop_core)
qed (use assms(2) in \<open>simp_all add: ustart_core ureset_core uhandler_core, simp_all add: ucore_def\<close>)

section \<open>Preservation of the ledger of stop requests\<close>

lemma uledger_frame [simp]:
  "uledger (c\<lparr>uc_receives := n\<rparr>) = uledger c" "uledger (c\<lparr>uc_waits := n\<rparr>) = uledger c"
  "uledger (c\<lparr>uc_sends := n\<rparr>) = uledger c" "uledger (c\<lparr>uc_responses := rs\<rparr>) = uledger c"
  "uledger (c\<lparr>uc_failed := b\<rparr>) = uledger c" "uledger (c\<lparr>uc_datagrams := ds\<rparr>) = uledger c"
  "uledger (c\<lparr>uc_recv_buffer := b'\<rparr>) = uledger c" "uledger (c\<lparr>uc_remote_endpoint := ep\<rparr>) = uledger c"
  "uledger (uclient_async_receive c) = uledger c" "uledger (send_discovery_request c) = uledger c"
  "\<not> is_ustopped h \<Longrightarrow> uledger (upost h c) = uledger c"
  by (simp_all add: uledger_def uclient_async_receive_def)

lemma uledger_flags [simp]:
  "f \<noteq> UDS_stopping \<Longrightarrow> uledger (uset f c) = uledger c" "f \<noteq> UDS_stopping \<Longrightarrow> uledger (uclear f c) = uledger c"
  by (auto simp: uledger_def)

lemma uledger_drop:
  "uc_posted c = hs @ h # hs' \<Longrightarrow> \<not> is_ustopped h \<Longrightarrow> uledger (c\<lparr>uc_posted := hs @ hs'\<rparr>) = uledger c"
  by (simp add: uledger_def)

lemma ustop_not_stopping: "uledger c \<Longrightarrow> \<not> uget UDS_stopping c \<Longrightarrow> ustop c"
  by (auto simp: ustop_def uledger_def)

lemma ustart_ustop: "ustop c \<Longrightarrow> ustop (snd (uclient_async_start c))"
proof (cases "uget UDS_running c \<or> uget UDS_stopping c")
  case False
  moreover assume "ustop c"
  ultimately show ?thesis
    by (intro ustop_not_stopping) (simp_all add: uclient_async_start_def ustop_def)
qed (simp add: uclient_async_start_def)

lemma uasync_stop_ustop:
  assumes "ustop c" and "ucore c"
  shows "ustop (snd (uclient_async_stop k c))"
proof (cases "uget UDS_stopping c")
  case False
  have "uactive c \<or> \<not> uget UDS_running c" using assms(2) False by (auto simp: ucore_def uactive_def)
  then have "uactive (snd (uclient_async_stop k c))"
    using False by (auto simp: uclient_async_stop_def uactive_def)
  moreover have "uledger (snd (uclient_async_stop k c))"
    using assms(1) False by (cases c rule: uowed_cases) (auto simp: uclient_async_stop_def ustop_def uledger_def)
  ultimately show ?thesis by (simp add: ustop_def)
qed (use assms in \<open>simp add: uclient_async_stop_def\<close>)

lemma UC_start_ustop: "uledger c \<Longrightarrow> ustop (uclient_start_posted c)"
  by (cases "uget UDS_stopping c")
    (auto simp: uclient_start_posted_def uclient_resolve_ustop uclient_async_receive_def intro: ustop_not_stopping)

lemma UC_on_send_ustop: "uledger c \<Longrightarrow> ustop (handle_send_complete e c)"
  by (simp add: handle_send_complete_def Let_def uclient_resolve_ustop)

lemma UC_on_timeout_ustop: "uledger c \<Longrightarrow> ustop (handle_timeout e c)"
  by (simp add: handle_timeout_def Let_def uclient_resolve_ustop)

lemma UC_on_response_ustop: "uledger c \<Longrightarrow> ustop (handle_response e n c)"
  by (simp add: handle_response_def Let_def uclient_resolve_ustop)

lemma UC_cancel_ustop:
  assumes "ustop c" and "uc_posted c = hs @ UC_cancel # hs'"
  shows "ustop (uclient_stop_posted (c\<lparr>uc_posted := hs @ hs'\<rparr>))"
proof (cases "uget UDS_running c")
  case True
  moreover have "uledger (uclient_cancel (c\<lparr>uc_posted := hs @ hs'\<rparr>))"
    using assms by (simp add: ustop_def uledger_def uclient_cancel_def)
  moreover have "uactive c \<Longrightarrow> uactive (uclient_cancel (c\<lparr>uc_posted := hs @ hs'\<rparr>))"
    using assms(2) True by (simp add: uactive_def uclient_cancel_def ustarts_def)
  moreover have "uowed (uclient_cancel (c\<lparr>uc_posted := hs @ hs'\<rparr>)) = uowed c" by (simp add: uclient_cancel_def)
  ultimately show ?thesis using assms(1) by (auto simp: uclient_stop_posted_def ustop_def)
next
  case False
  have "uledger (c\<lparr>uc_posted := hs @ hs'\<rparr>)" using assms by (simp add: uledger_drop ustop_def)
  with False show ?thesis by (simp add: uclient_stop_posted_def post_stopped_ledger)
qed

lemma uhandler_ustop:
  assumes "ustop c" and "uc_posted c = hs @ h # hs'"
  shows "ustop (uclient_run_handler h (c\<lparr>uc_posted := hs @ hs'\<rparr>))"
proof -
  have ledger: "\<not> is_ustopped h \<Longrightarrow> uledger (c\<lparr>uc_posted := hs @ hs'\<rparr>)"
    using assms by (simp add: uledger_drop ustop_def)
  show ?thesis
  proof (cases h)
    case (UC_stopped k)
    with assms show ?thesis by (simp add: ustop_def uledger_def uactive_def ustarts_def)
  qed (use assms ledger in \<open>simp_all add: UC_cancel_ustop UC_start_ustop UC_on_send_ustop UC_on_timeout_ustop UC_on_response_ustop\<close>)
qed

text \<open>The ledger alone does not need the counts of \<open>ucore\<close>, and survives an early reset.\<close>

lemma ustop_ledger: "ustop c \<Longrightarrow> uledger c"
  by (simp add: ustop_def)

lemma uasync_stop_ledger: "uledger c \<Longrightarrow> uledger (snd (uclient_async_stop k c))"
  by (cases c rule: uowed_cases) (auto simp: uclient_async_stop_def uledger_def)

lemma UC_cancel_ledger: "uledger c \<Longrightarrow> uledger (uclient_stop_posted c)"
  using post_stopped_ledger [of c] by (auto simp: uclient_stop_posted_def ustop_def) (simp add: uledger_def uclient_cancel_def)

lemma uhandler_ledger:
  assumes "uledger c" and "uc_posted c = hs @ h # hs'"
  shows "uledger (uclient_run_handler h (c\<lparr>uc_posted := hs @ hs'\<rparr>))"
proof -
  have ledger: "\<not> is_ustopped h \<Longrightarrow> uledger (c\<lparr>uc_posted := hs @ hs'\<rparr>)" using assms by (simp add: uledger_drop)
  show ?thesis
  proof (cases h)
    case (UC_stopped k)
    with assms show ?thesis by (simp add: uledger_def)
  qed (use ledger in \<open>simp_all add: UC_cancel_ledger UC_start_ustop UC_on_send_ustop UC_on_timeout_ustop
      UC_on_response_ustop ustop_ledger\<close>)
qed

lemma uclient_step_ledger:
  assumes "uclient_step t e c c'" and "uledger c"
  shows "uledger c'"
  using assms(1)
proof cases
  case (stop io_thread k)
  with assms(2) show ?thesis by (cases io_thread) (simp_all add: uclient_stop_def uasync_stop_ledger)
next
  case reset
  with assms(2) show ?thesis by (cases c rule: uowed_cases) (simp_all add: uclient_reset_def uledger_def)
qed (use assms(2) in \<open>simp_all add: uhandler_ledger, auto simp: uclient_async_start_def uledger_def\<close>)

lemma uclient_step_ustop:
  assumes "uclient_step t False c c'" and "ustop c" and "ucore c"
  shows "ustop c'"
  using assms(1)
proof cases
  case (stop io_thread k)
  with assms(2,3) show ?thesis by (cases io_thread) (simp_all add: uclient_stop_def uasync_stop_ustop)
next
  case reset
  with assms(2) show ?thesis
    by (cases c rule: uowed_cases) (simp_all add: uclient_reset_def ustop_def uledger_def)
qed (use assms(2) in \<open>simp_all add: ustart_ustop uhandler_ustop, auto simp: ustop_def uactive_def\<close>)

section \<open>The responses\<close>

text \<open>What the callback must see of a datagram, and the response whose handler still waits.\<close>

definition seen :: "(string \<times> 'ep) list \<Rightarrow> (string \<times> 'ep option) list" where
  "seen ds = map (\<lambda>(d, ep). (take recv_buffer_size d, Some ep)) (filter (\<lambda>(d, ep). d \<noteq> []) ds)"

fun response_of :: "string \<Rightarrow> 'ep option \<Rightarrow> uclient_handler \<Rightarrow> (string \<times> 'ep option) list" where
  "response_of buf ep (UC_on_response No_error n) = (if n > 0 then [(take n buf, ep)] else [])"
| "response_of buf ep _ = []"

definition waiting :: "'ep UdpDiscoveryClient \<Rightarrow> (string \<times> 'ep option) list" where
  "waiting c = concat (map (response_of (uc_recv_buffer c) (uc_remote_endpoint c)) (uc_posted c))"

definition udata :: "'ep UdpDiscoveryClient \<Rightarrow> bool" where
  "udata c \<longleftrightarrow> (uc_on_response c \<longrightarrow> uc_responses c @ waiting c = seen (uc_datagrams c))"

lemma no_response: "jobs is_uresponse q = 0 \<Longrightarrow> concat (map (response_of buf ep) q) = []"
proof (induction q)
  case (Cons h q)
  then show ?case by (cases h) (simp_all split: if_splits)
qed simp

lemma response_of_not: "\<not> is_uresponse h \<Longrightarrow> response_of buf ep h = []"
  by (cases h) simp_all

lemma waiting_drop:
  "uc_posted c = hs @ h # hs' \<Longrightarrow> \<not> is_uresponse h \<Longrightarrow> waiting (c\<lparr>uc_posted := hs @ hs'\<rparr>) = waiting c"
  by (simp add: waiting_def response_of_not)

lemma udata_frame [simp]:
  "udata (uset f c) = udata c" "udata (uclear f c) = udata c" "udata (c\<lparr>uc_receives := n\<rparr>) = udata c"
  "udata (c\<lparr>uc_sends := n\<rparr>) = udata c" "udata (c\<lparr>uc_waits := n\<rparr>) = udata c" "udata (c\<lparr>uc_failed := b\<rparr>) = udata c"
  "udata (c\<lparr>uc_on_stopped := k\<rparr>) = udata c" "udata (c\<lparr>uc_stop_requests := n\<rparr>) = udata c"
  "udata (c\<lparr>uc_stopped_calls := ks\<rparr>) = udata c" "udata (send_discovery_request c) = udata c"
  "udata (uclient_async_receive c) = udata c" "udata (c\<lparr>uc_flags := fl\<rparr>) = udata c"
  "\<not> is_uresponse h \<Longrightarrow> udata (upost h c) = udata c"
  by (simp_all add: udata_def waiting_def uset_def uclear_def send_discovery_request_def uclient_async_receive_def response_of_not)

lemma udata_post_stopped [simp]: "udata (uclient_post_stopped c) = udata c"
  by (simp add: uclient_post_stopped_def split: option.split)

lemma udata_resolve [simp]: "udata (uclient_resolve_on_stopped c) = udata c"
  by (simp add: uclient_resolve_on_stopped_def)

lemma udata_cancel [simp]: "udata (uclient_cancel c) = udata c"
proof -
  have "concat (map (response_of buf ep) (replicate n h)) = []" if "response_of buf ep h = []" for buf ep n h
    using that by (induction n) simp_all
  then show ?thesis by (simp add: udata_def waiting_def uclient_cancel_def)
qed

lemma UC_on_response_data:
  assumes "udata c" and "ucore c" and "uc_posted c = hs @ UC_on_response e n # hs'"
  shows "udata (handle_response e n (c\<lparr>uc_posted := hs @ hs'\<rparr>))"
proof -
  have "jobs is_uresponse hs = 0" "jobs is_uresponse hs' = 0" using UC_on_response_queued [OF assms(2,3)] by simp_all
  then have rest: "waiting (c\<lparr>uc_posted := hs @ hs'\<rparr>) = []"
    and all: "waiting c = response_of (uc_recv_buffer c) (uc_remote_endpoint c) (UC_on_response e n)"
    using assms(3) by (simp_all add: waiting_def no_response)
  show ?thesis
  proof (cases "uc_on_response c \<and> e = No_error \<and> n > 0")
    case True
    have "waiting (c\<lparr>uc_posted := hs @ hs', uc_responses := rs\<rparr>) = waiting (c\<lparr>uc_posted := hs @ hs'\<rparr>)" for rs
      by (simp add: waiting_def)
    then have "udata (c\<lparr>uc_posted := hs @ hs', uc_responses := uc_responses c @ [(take n (uc_recv_buffer c), uc_remote_endpoint c)]\<rparr>)"
      using assms(1) rest all True by (simp add: udata_def)
    with True show ?thesis by (simp add: handle_response_def Let_def)
  next
    case False
    have "udata (c\<lparr>uc_posted := hs @ hs'\<rparr>)"
      using assms(1) rest all False by (cases e) (auto simp: udata_def)
    with False show ?thesis by (auto simp: handle_response_def Let_def)
  qed
qed

lemma uhandler_data:
  assumes "udata c" and "ucore c" and "uc_posted c = hs @ h # hs'"
  shows "udata (uclient_run_handler h (c\<lparr>uc_posted := hs @ hs'\<rparr>))"
proof -
  have "udata (c\<lparr>uc_posted := hs @ hs'\<rparr>)" if "\<not> is_uresponse h"
    using assms(1,3) that by (simp add: udata_def waiting_drop)
  then show ?thesis using assms
    by (cases h) (simp_all add: UC_on_response_data uclient_start_posted_def uclient_stop_posted_def
        handle_send_complete_def handle_timeout_def Let_def)
qed

lemma received_data:
  assumes "udata c" and "ucore c" and "uc_receives c = Suc m"
  shows "udata (upost (UC_on_response No_error (datagram_size d))
      (c\<lparr>uc_receives := m, uc_recv_buffer := store_datagram d (uc_recv_buffer c), uc_remote_endpoint := Some ep,
         uc_datagrams := uc_datagrams c @ [(d, ep)]\<rparr>))"
proof -
  have "jobs is_uresponse (uc_posted c) = 0" using assms(2,3) by (simp add: ucore_def)
  then have none: "concat (map (response_of buf ep') (uc_posted c)) = []" for buf and ep' :: "'a option" by (rule no_response)
  have "datagram_size d = 0 \<longleftrightarrow> d = []" by (auto simp: datagram_size_def recv_buffer_size_def min_def)
  with assms(1) none show ?thesis
    by (auto simp: udata_def waiting_def seen_def)
qed

lemma uclient_step_data:
  assumes "uclient_step t False c c'" and "udata c" and "ucore c"
  shows "udata c'"
  using assms(1)
proof cases
  case (received n d ep)
  with received_data [OF assms(2,3)] show ?thesis by simp
next
  case (receive_failed n)
  with assms(2) show ?thesis by (simp add: udata_def waiting_def)
qed (use assms(2,3) in \<open>simp_all add: uhandler_data uclient_async_start_def uclient_stop_def uclient_async_stop_def uclient_reset_def\<close>)

definition uclient_inv :: "'ep UdpDiscoveryClient \<Rightarrow> bool" where
  "uclient_inv c \<longleftrightarrow> ucore c \<and> ustop c \<and> udata c"

definition uclient_settled :: "'ep UdpDiscoveryClient \<Rightarrow> bool" where
  "uclient_settled c \<longleftrightarrow> uclient_idle c \<and> \<not> uc_failed c"

interpretation udp_client: stop_protocol uclient_init "uclient_step False False" uclient_inv uc_stop_requests uowed
  "\<lambda>c. jobs is_ustopped (uc_posted c)" "\<lambda>c. length (uc_stopped_calls c)" uclient_settled
proof unfold_locales
  show "uclient_init c \<Longrightarrow> uclient_inv c" for c :: "'ep UdpDiscoveryClient"
    using uclient_init_inv [of c]
    by (auto simp: uclient_inv_def uclient_init_def UdpDiscoveryClient_new_def udata_def waiting_def seen_def)
  show "uclient_inv c \<Longrightarrow> uclient_step False False c c' \<Longrightarrow> uclient_inv c'" for c c' :: "'ep UdpDiscoveryClient"
    by (simp add: uclient_inv_def uclient_step_core uclient_step_ustop uclient_step_data)
  show "uclient_inv c \<Longrightarrow> uowed c + jobs is_ustopped (uc_posted c) + length (uc_stopped_calls c) = uc_stop_requests c"
    for c :: "'ep UdpDiscoveryClient" by (simp add: uclient_inv_def ustop_def uledger_def)
  show "uclient_inv c \<Longrightarrow> uclient_settled c \<Longrightarrow> uowed c = 0 \<and> jobs is_ustopped (uc_posted c) = 0"
    for c :: "'ep UdpDiscoveryClient"
    by (cases c rule: uowed_cases; cases "uget UDS_sending_async c"; cases "uget UDS_timer_running c"; cases "uget UDS_receiving_async c")
      (simp_all add: uclient_inv_def uclient_settled_def uclient_idle_def ucore_def ustop_def uactive_def ustarts_def)
qed

section \<open>A stop with nothing outstanding\<close>

definition uhanging :: "nat list \<Rightarrow> 'ep UdpDiscoveryClient \<Rightarrow> bool" where
  "uhanging ks c \<longleftrightarrow> uget UDS_running c \<and> uget UDS_stopping c \<and> uc_receives c = 0 \<and> uc_sends c = 0 \<and> uc_waits c = 0 \<and>
     uc_stopped_calls c = ks \<and> length ks < uc_stop_requests c \<and> (\<forall>h \<in> set (uc_posted c). h = UC_cancel)"

lemma uhanging_step:
  assumes "uclient_step t e c c'" and "uhanging ks c"
  shows "uhanging ks c'"
  using assms(1)
proof cases
  case (handler hs h hs')
  moreover from handler assms(2) have "h = UC_cancel" by (simp add: uhanging_def)
  ultimately show ?thesis using assms(2)
    by (auto simp: uhanging_def uclient_stop_posted_def uclient_cancel_def)
qed (use assms(2) in \<open>auto simp: uhanging_def uclient_async_start_def uclient_stop_def uclient_async_stop_def\<close>)

section \<open>Properties\<close>

text \<open>The stop protocol of the discovery client over any number of restarts: never
  more stopped callbacks than accepted stop requests, and exactly as many when nothing is queued or
  outstanding and since the last start no send and no wait has failed.\<close>

theorem udp_client_stop:
  assumes "reachable uclient_init (uclient_step False False) c"
  shows "length (uc_stopped_calls c) \<le> uc_stop_requests c \<and>
    (uc_posted c = [] \<and> uc_receives c = 0 \<and> uc_sends c = 0 \<and> uc_waits c = 0 \<and> \<not> uc_failed c \<longrightarrow>
      length (uc_stopped_calls c) = uc_stop_requests c)"
  using udp_client.called_at_most_requests [OF assms] udp_client.idle_called [OF assms]
  by (simp add: uclient_settled_def uclient_idle_def)

lemma length_waiting: "length (concat (map (response_of buf ep) q)) \<le> jobs is_uresponse q"
proof (induction q)
  case (Cons h q)
  have "length (response_of buf ep h) \<le> of_bool (is_uresponse h)"
    by (cases h; cases "case h of UC_on_response e n \<Rightarrow> e | _ \<Rightarrow> No_error") auto
  with Cons show ?case by (cases "is_uresponse h") auto
qed simp

text \<open>Property C21. The discovery client has at most one receive, one send and one wait outstanding,
  and the response callback sees every non-empty datagram exactly once, in the order of arrival,
  with its first 1024 bytes unchanged and with the endpoint it came from; only the last one may
  still be on its way. This is for a user who resets the client only when nothing of it is queued or
  outstanding any more. The header asks for less, a successful stop, and then the claim is false:
  \<open>udp_client_reset_two_receives\<close>.\<close>

theorem udp_client_responses:
  assumes "reachable uclient_init (uclient_step False False) c"
  shows "uc_receives c + jobs is_uresponse (uc_posted c) \<le> 1 \<and>
    uc_sends c + jobs is_usend (uc_posted c) + uc_waits c + jobs is_utimeout (uc_posted c) \<le> 1 \<and>
    (uc_on_response c \<longrightarrow> (\<exists>rest. seen (uc_datagrams c) = uc_responses c @ rest \<and> length rest \<le> 1 \<and>
      (jobs is_uresponse (uc_posted c) = 0 \<longrightarrow> rest = [])))"
proof -
  have inv: "ucore c" "udata c" using udp_client.reachable_inv [OF assms] by (simp_all add: uclient_inv_def)
  have one: "uc_receives c + jobs is_uresponse (uc_posted c) \<le> 1" using inv(1) by (auto simp: ucore_def)
  have "uc_sends c + jobs is_usend (uc_posted c) + uc_waits c + jobs is_utimeout (uc_posted c) \<le> 1"
    using inv(1) by (cases "uget UDS_sending_async c"; cases "uget UDS_timer_running c") (simp_all add: ucore_def)
  moreover have "length (waiting c) \<le> jobs is_uresponse (uc_posted c)" by (simp add: waiting_def length_waiting)
  ultimately show ?thesis using one inv(2) by (auto simp: udata_def intro!: exI [of _ "waiting c"])
qed

text \<open>A discovery client whose operations have all ended (an empty datagram or a
  receive error ends the receiving, a failed send ends the requests) still counts as running, and
  cannot be stopped: the stop is accepted, nothing is there to cancel, and no continuation calls
  the stopped callback.\<close>

theorem udp_client_stop_hangs:
  assumes "reachable uclient_init (uclient_step False False) c"
    and "get_flag (uds UDS_running) (uc_flags c)" and "\<not> get_flag (uds UDS_stopping) (uc_flags c)"
    and "uc_posted c = [] \<and> uc_receives c = 0 \<and> uc_sends c = 0 \<and> uc_waits c = 0"
    and "reachable (\<lambda>x. x = snd (uclient_stop False k c)) (uclient_step False False) c'"
  shows "fst (uclient_stop False k c) \<and> uc_stopped_calls c' = uc_stopped_calls c \<and> uc_stop_requests c < uc_stop_requests c'"
proof -
  let ?s = "snd (uclient_stop False k c)"
  have "length (uc_stopped_calls c) \<le> uc_stop_requests c" by (rule udp_client.called_at_most_requests [OF assms(1)])
  then have start: "fst (uclient_stop False k c)" "uhanging (uc_stopped_calls c) ?s" "uc_stop_requests ?s = uc_stop_requests c + 1"
    using assms(2-4) by (auto simp: uclient_stop_def uclient_async_stop_def uhanging_def)
  from assms(5) have "uhanging (uc_stopped_calls c) c' \<and> uc_stop_requests c < uc_stop_requests c'"
  proof (induction rule: reachable.induct)
    case (more d d')
    from more.hyps(2) have "uc_stop_requests d \<le> uc_stop_requests d'"
    proof cases
      case (handler hs h hs')
      with more.IH have "h = UC_cancel" by (simp add: uhanging_def)
      with handler show ?thesis
        by (simp add: uclient_stop_posted_def uclient_cancel_def uclient_post_stopped_def split: option.split)
    qed (auto simp: uclient_async_start_def uclient_stop_def uclient_async_stop_def uclient_reset_def)
    with more uhanging_step [OF more.hyps(2)] show ?case by auto
  qed (use start in auto)
  with start(1) show ?thesis by (simp add: uhanging_def)
qed

section \<open>Runs\<close>

definition uclient_run_next :: "'ep UdpDiscoveryClient \<Rightarrow> 'ep UdpDiscoveryClient" where
  "uclient_run_next c = (case uc_posted c of [] \<Rightarrow> c | h # hs \<Rightarrow> uclient_run_handler h (c\<lparr>uc_posted := hs\<rparr>))"

lemma reachable_uclient_run_next:
  "reachable ini (uclient_step t e) c \<Longrightarrow> reachable ini (uclient_step t e) (uclient_run_next c)"
proof (cases "uc_posted c")
  case (Cons h hs)
  assume "reachable ini (uclient_step t e) c"
  moreover have "uclient_step t e c (uclient_run_handler h (c\<lparr>uc_posted := [] @ hs\<rparr>))"
    by (rule uclient_step.handler) (simp_all add: Cons)
  ultimately show ?thesis using Cons by (simp add: uclient_run_next_def reachable.more)
qed (simp add: uclient_run_next_def)

lemma reachable_uclient_calls:
  "reachable ini (uclient_step t e) c \<Longrightarrow> reachable ini (uclient_step t e) (snd (uclient_async_start c))"
  "reachable ini (uclient_step t e) c \<Longrightarrow> reachable ini (uclient_step t e) (snd (uclient_stop b j c))"
  by (auto intro: reachable.more uclient_step.intros)

text \<open>Completions as functions, for the concrete runs.\<close>

definition uc_sent :: "error_code \<Rightarrow> nat UdpDiscoveryClient \<Rightarrow> nat UdpDiscoveryClient" where
  "uc_sent e c = (if e = No_error then upost (UC_on_send No_error) (c\<lparr>uc_sends := uc_sends c - 1\<rparr>)
     else upost (UC_on_send Other_error) (c\<lparr>uc_sends := uc_sends c - 1, uc_failed := True\<rparr>))"

definition uc_received :: "string \<Rightarrow> nat UdpDiscoveryClient \<Rightarrow> nat UdpDiscoveryClient" where
  "uc_received d c = upost (UC_on_response No_error (datagram_size d))
     (c\<lparr>uc_receives := uc_receives c - 1, uc_recv_buffer := store_datagram d (uc_recv_buffer c), uc_remote_endpoint := Some 5,
        uc_datagrams := uc_datagrams c @ [(d, 5)]\<rparr>)"

lemma reachable_uc_sent: "reachable ini (uclient_step t e') c \<Longrightarrow> 0 < uc_sends c \<Longrightarrow> reachable ini (uclient_step t e') (uc_sent e c)"
  using reachable.more [of ini "uclient_step t e'" c "uc_sent e c"] uclient_step.sent [of c "uc_sends c - 1" t e']
    uclient_step.send_failed [of c "uc_sends c - 1" t e']
  by (cases "e = No_error") (simp_all add: uc_sent_def)

lemma reachable_uc_received: "reachable ini (uclient_step t e) c \<Longrightarrow> 0 < uc_receives c \<Longrightarrow> reachable ini (uclient_step t e) (uc_received d c)"
  using reachable.more [of ini "uclient_step t e" c "uc_received d c"] uclient_step.received [of c "uc_receives c - 1" t e d 5]
  by (simp add: uc_received_def)

lemma reachable_uclient_new: "reachable uclient_init (uclient_step t e) (UdpDiscoveryClient_new name p b)"
  by (rule reachable.start) (auto simp: uclient_init_def)

definition started_uclient :: "nat UdpDiscoveryClient" where
  "started_uclient = uclient_run_next (snd (uclient_async_start (UdpDiscoveryClient_new ''svc'' 12345 True)))"

lemma started_uclient_reachable: "reachable uclient_init (uclient_step t e) started_uclient"
  unfolding started_uclient_def by (intro reachable_uclient_run_next reachable_uclient_calls reachable_uclient_new)

lemma started_uclient_state:
  "uc_posted started_uclient = []" "uc_receives started_uclient = 1" "uc_sends started_uclient = 1" "uc_waits started_uclient = 0"
  "uc_on_stopped started_uclient = None" "uc_stopped_calls started_uclient = []" "uc_stop_requests started_uclient = 0"
  "uc_on_response started_uclient" "uc_datagrams started_uclient = []" "uc_responses started_uclient = []"
  "uget f started_uclient \<longleftrightarrow> f \<in> {UDS_running, UDS_sending_async, UDS_receiving_async}"
  by (simp_all add: started_uclient_def uclient_run_next_def uclient_async_start_def UdpDiscoveryClient_new_def
      uclient_start_posted_def uclient_async_receive_def send_discovery_request_def uset_def upost_def udp_flags.flag_laws) auto

lemmas uclient_run_defs = uclient_run_next_def uc_sent_def uc_received_def handle_send_complete_def handle_response_def
  handle_timeout_def uclient_stop_def uclient_async_stop_def uclient_stop_posted_def uclient_cancel_def
  uclient_resolve_on_stopped_def uclient_post_stopped_def uclient_async_receive_def uset_def uclear_def upost_def udp_flags.flag_laws

text \<open>A client that has received an empty datagram and could not send.\<close>

definition dead_uclient :: "nat UdpDiscoveryClient" where
  "dead_uclient = uclient_run_next (uclient_run_next (uc_sent Other_error (uc_received [] started_uclient)))"

lemma dead_uclient_reachable: "reachable uclient_init (uclient_step t e) dead_uclient"
  unfolding dead_uclient_def
  by (intro reachable_uclient_run_next reachable_uc_sent reachable_uc_received started_uclient_reachable)
    (simp_all add: started_uclient_state uc_received_def)

lemma dead_uclient_state:
  "uget UDS_running dead_uclient" "\<not> uget UDS_stopping dead_uclient"
  "uc_posted dead_uclient = [] \<and> uc_receives dead_uclient = 0 \<and> uc_sends dead_uclient = 0 \<and> uc_waits dead_uclient = 0"
  using started_uclient_state by (simp_all add: dead_uclient_def uclient_run_defs datagram_size_def)

theorem udp_client_stop_hangs_witness:
  "fst (uclient_stop False 7 dead_uclient) \<and>
    uc_stopped_calls (uclient_run_next (snd (uclient_stop False 7 dead_uclient))) = uc_stopped_calls dead_uclient"
proof -
  have "reachable (\<lambda>x. x = snd (uclient_stop False 7 dead_uclient)) (uclient_step False False)
      (uclient_run_next (snd (uclient_stop False 7 dead_uclient)))"
    by (rule reachable_uclient_run_next) (rule reachable.start, simp)
  from udp_client_stop_hangs [OF dead_uclient_reachable dead_uclient_state(1,2,3) this] show ?thesis by blast
qed

text \<open>A client that is stopped before it was started.\<close>

definition stopped_uclient :: "nat UdpDiscoveryClient" where
  "stopped_uclient = uclient_run_next (uclient_run_next (snd (uclient_stop False 7 (UdpDiscoveryClient_new ''svc'' 12345 True))))"

theorem udp_client_stop_witness: "length (uc_stopped_calls stopped_uclient) = 1"
proof -
  have "reachable uclient_init (uclient_step False False) stopped_uclient"
    unfolding stopped_uclient_def by (intro reachable_uclient_run_next reachable_uclient_calls reachable_uclient_new)
  moreover have "uc_posted stopped_uclient = [] \<and> uc_receives stopped_uclient = 0 \<and> uc_sends stopped_uclient = 0 \<and>
      uc_waits stopped_uclient = 0 \<and> \<not> uc_failed stopped_uclient" "uc_stop_requests stopped_uclient = 1"
    by (simp_all add: stopped_uclient_def UdpDiscoveryClient_new_def uclient_run_defs)
  ultimately show ?thesis using udp_client_stop [of stopped_uclient] by simp
qed

theorem udp_client_responses_witness:
  "\<exists>rest. seen [(''a:b'', 5)] = uc_responses (uclient_run_next (uc_received ''a:b'' started_uclient)) @ rest \<and> rest = []"
proof -
  let ?c = "uclient_run_next (uc_received ''a:b'' started_uclient)"
  have "reachable uclient_init (uclient_step False False) ?c"
    by (intro reachable_uclient_run_next reachable_uc_received started_uclient_reachable) (simp add: started_uclient_state)
  moreover have "uc_on_response ?c" "uc_posted ?c = []" "uc_datagrams ?c = [(''a:b'', 5)]"
    using started_uclient_state by (simp_all add: uclient_run_defs datagram_size_def recv_buffer_size_def)
  ultimately show ?thesis using udp_client_responses [of ?c] by simp
qed

lemma stopped_receiving:
  obtains c :: "nat UdpDiscoveryClient" where "reachable uclient_init (uclient_step True e) c" "uc_stopped_calls c = [k]"
    "uc_posted c = []" "uc_receives c = 1" "uc_stop_requests c = 1" "uget UDS_stopping c"
proof -
  let ?w = "uclient_run_next (uc_sent No_error started_uclient)"
  let ?s = "uc_received ''x'' (snd (uclient_stop False k ?w))"
  let ?c = "uclient_run_next (uclient_run_next (uclient_run_next (uclient_run_next ?s)))"
  have "reachable uclient_init (uclient_step True e) ?w"
    by (intro reachable_uclient_run_next reachable_uc_sent started_uclient_reachable) (simp add: started_uclient_state)
  moreover have "0 < uc_receives (snd (uclient_stop False k ?w))"
    using started_uclient_state by (simp add: uclient_run_defs)
  ultimately have "reachable uclient_init (uclient_step True e) ?s" by (simp only: reachable_uc_received reachable_uclient_calls)
  then have "reachable uclient_init (uclient_step True e) ?c" by (intro reachable_uclient_run_next)
  moreover have "uc_stopped_calls ?c = [k]" "uc_posted ?c = []" "uc_receives ?c = 1" "uc_stop_requests ?c = 1" "uget UDS_stopping ?c"
    using started_uclient_state by (simp_all add: uclient_run_defs datagram_size_def recv_buffer_size_def)
  ultimately show ?thesis by (rule that)
qed

text \<open>
  A response that is handled while a stop is in progress starts another receive after the
  cancellation, and clears \<open>receiving_async\<close>: on one thread the stopped callback has run and the
  receive into the buffer of the client is still outstanding.
\<close>

theorem udp_client_receive_after_stop:
  "\<exists>c :: nat UdpDiscoveryClient. reachable uclient_init (uclient_step True False) c \<and> uc_stopped_calls c = [k] \<and>
    uc_posted c = [] \<and> uc_receives c = 1"
  using stopped_receiving by metis

text \<open>
  So a user who does what the header asks and resets the client after the successful stop
  (\<open>early_reset\<close>) has, after the next start, two receives into the one buffer.
\<close>

theorem udp_client_reset_two_receives:
  "\<exists>c :: nat UdpDiscoveryClient. reachable uclient_init (uclient_step True True) c \<and> uc_receives c = 2"
proof -
  obtain c :: "nat UdpDiscoveryClient" where c: "reachable uclient_init (uclient_step True True) c"
    "uc_stopped_calls c = [k]" "uc_posted c = []" "uc_receives c = 1" "uc_stop_requests c = 1" "uget UDS_stopping c"
    by (rule stopped_receiving)
  let ?r = "(uclient_reset c)\<lparr>uc_failed := False\<rparr>"
  let ?s = "uclient_run_next (snd (uclient_async_start ?r))"
  have "uclient_step True True c ?r" using c by (intro uclient_step.reset) simp_all
  with c(1) have "reachable uclient_init (uclient_step True True) ?s"
    by (intro reachable_uclient_run_next reachable_uclient_calls) (rule reachable.more)
  moreover have "uc_receives ?s = 2"
    using c by (simp add: uclient_reset_def uclient_async_start_def uclient_run_next_def uclient_start_posted_def
        uclient_async_receive_def send_discovery_request_def uset_def upost_def udp_flags.flag_laws)
  ultimately show ?thesis by blast
qed

end
