(* ===== verification/Discovery_String.thy ===== *)
theory Discovery_String
  imports Prelude
begin

text \<open>
  \<open>eestv/net/discovery/discovery_string.cpp\<close>: the text of a discovery response, and
  \<open>discoverable.cpp\<close>. The clock and \<open>boost::asio::ip::make_address\<close> are parameters; the string
  and number functions of the C++ library are modelled.
\<close>

section \<open>The C++ library\<close>

text \<open>\<open>s.find(c, pos)\<close> (\<^const>\<open>None\<close> is \<open>npos\<close>) and \<open>s.substr(pos, n)\<close>.\<close>

definition find_char :: "string \<Rightarrow> char \<Rightarrow> nat \<Rightarrow> nat option" where
  "find_char s c pos = find (\<lambda>i. s ! i = c) [pos..<length s]"

definition substr :: "string \<Rightarrow> nat \<Rightarrow> nat \<Rightarrow> string" where
  "substr s pos n = take n (drop pos s)"

definition is_space :: "char \<Rightarrow> bool" where
  "is_space c \<longleftrightarrow> (of_char c :: nat) = 32 \<or> (9 \<le> (of_char c :: nat) \<and> (of_char c :: nat) \<le> 13)"

text \<open>\<open>std::stoi\<close> and \<open>std::stoull\<close> in base 10: leading white space, an optional sign, digits;
  what follows the digits is ignored. \<^const>\<open>None\<close> is the exception \<open>invalid_argument\<close> (no digits)
  or \<open>out_of_range\<close>.\<close>

definition split_sign :: "string \<Rightarrow> bool \<times> string" where
  "split_sign s =
     (case s of
        [] \<Rightarrow> (False, [])
      | c # r \<Rightarrow> if c = CHR ''-'' then (True, r) else if c = CHR ''+'' then (False, r) else (False, s))"

definition scan_number :: "string \<Rightarrow> (bool \<times> nat) option" where
  "scan_number s =
     (let (neg, r) = split_sign (dropWhile is_space s); ds = takeWhile is_digit r
      in if ds = [] then None else Some (neg, decimal ds))"

definition stoi :: "string \<Rightarrow> int option" where
  "stoi s = do {
     (neg, n) \<leftarrow> scan_number s;
     let v = (if neg then - int n else int n);
     (if int_min \<le> v \<and> v \<le> int_max then Some v else None)
   }"

definition stoull :: "string \<Rightarrow> u64 option" where
  "stoull s = do {
     (neg, n) \<leftarrow> scan_number s;
     (if n < 2 ^ 64 then Some (if neg then - of_nat n else of_nat n) else None)
   }"

section \<open>DiscoveryString\<close>

record 'addr DiscoveryInfo =
  service_name :: string
  ip_address :: string
  port :: u16
  endpoint :: "'addr \<times> u16"
  timestamp_ms :: u64

text \<open>The argument \<open>now\<close> is \<open>system_clock::now()\<close> in nanoseconds since the epoch.\<close>

definition construct :: "int \<Rightarrow> string \<Rightarrow> string \<Rightarrow> u16 \<Rightarrow> string" where
  "construct now name ip p =
     name @ '':'' @ ip @ '':'' @ to_string_nat (unat p) @ '':'' @ to_string_int (now sdiv 1000000)"

definition parse :: "(string \<Rightarrow> 'addr option) \<Rightarrow> string \<Rightarrow> 'addr DiscoveryInfo option" where
  "parse make_address response = do {
     first_colon_pos \<leftarrow> find_char response CHR '':'' 0;
     second_colon_pos \<leftarrow> find_char response CHR '':'' (first_colon_pos + 1);
     third_colon_pos \<leftarrow> find_char response CHR '':'' (second_colon_pos + 1);
     let name = substr response 0 first_colon_pos;
     let ip_str = substr response (first_colon_pos + 1) (second_colon_pos - first_colon_pos - 1);
     let port_str = substr response (second_colon_pos + 1) (third_colon_pos - second_colon_pos - 1);
     let timestamp_str = drop (third_colon_pos + 1) response;
     (if name = [] then None
      else if ip_str = [] then None
      else do {
        v \<leftarrow> stoi port_str;
        let p = (word_of_int v :: u16);
        ts \<leftarrow> stoull timestamp_str;
        address \<leftarrow> make_address ip_str;
        Some \<lparr>service_name = name, ip_address = ip_str, port = p, endpoint = (address, p), timestamp_ms = ts\<rparr>
      })
   }"

section \<open>Discoverable\<close>

record 'endpoint Discoverable =
  disc_identifier :: string
  disc_callback :: "'endpoint \<Rightarrow> string"

definition Discoverable_new :: "string \<Rightarrow> ('endpoint \<Rightarrow> string) \<Rightarrow> 'endpoint Discoverable" where
  "Discoverable_new name reply = \<lparr>disc_identifier = name, disc_callback = reply\<rparr>"

definition get_identifier :: "'endpoint Discoverable \<Rightarrow> string" where
  "get_identifier d = disc_identifier d"

definition get_reply :: "'endpoint Discoverable \<Rightarrow> 'endpoint \<Rightarrow> string" where
  "get_reply d remote_endpoint = disc_callback d remote_endpoint"

section \<open>Splitting at the first colon\<close>

lemma find_append: "find P (xs @ ys) = (case find P xs of None \<Rightarrow> find P ys | Some x \<Rightarrow> Some x)"
  by (induction xs) simp_all

lemma find_char_none: "c \<notin> set xs \<Longrightarrow> find_char (us @ xs) c (length us) = None"
  by (auto simp: find_char_def find_None_iff nth_append set_conv_nth)

lemma find_char_some:
  assumes "c \<notin> set xs"
  shows "find_char (us @ xs @ c # ys) c (length us) = Some (length us + length xs)"
proof -
  let ?s = "us @ xs @ c # ys"
  have none: "find (\<lambda>i. ?s ! i = c) [length us..<length us + length xs] = None"
    using assms by (auto simp: find_None_iff nth_append set_conv_nth)
  have "[length us..<length ?s] = [length us..<length us + length xs] @ [length us + length xs..<length ?s]"
    using upt_add_eq_append [of "length us" "length us + length xs" "Suc (length ys)"]
    by (simp add: add.assoc del: upt_Suc)
  moreover have "[length us + length xs..<length ?s] = (length us + length xs) # [Suc (length us + length xs)..<length ?s]"
    by (rule upt_conv_Cons) simp
  ultimately have split: "[length us..<length ?s] = [length us..<length us + length xs] @
      (length us + length xs) # [Suc (length us + length xs)..<length ?s]" by (simp only:)
  show ?thesis unfolding find_char_def split find_append none by (simp add: nth_append)
qed

lemma find_char_split:
  assumes "find_char (us @ t) c (length us) = Some k"
  obtains xs ys where "t = xs @ c # ys" and "c \<notin> set xs" and "k = length us + length xs"
proof (cases "c \<in> set t")
  case True
  then obtain xs ys where "t = xs @ c # ys" "c \<notin> set xs" by (meson split_list_first)
  with assms find_char_some [of c xs us ys] that show thesis by simp
next
  case False
  with assms find_char_none show thesis by simp
qed

text \<open>The parser is the split of the text at its first three colons.\<close>

definition fields_of :: "(string \<Rightarrow> 'addr option) \<Rightarrow> string \<Rightarrow> string \<Rightarrow> string \<Rightarrow> string \<Rightarrow> 'addr DiscoveryInfo option" where
  "fields_of make_address name ip port_str timestamp_str =
     (if name = [] \<or> ip = [] then None
      else do {
        v \<leftarrow> stoi port_str;
        ts \<leftarrow> stoull timestamp_str;
        address \<leftarrow> make_address ip;
        Some \<lparr>service_name = name, ip_address = ip, port = word_of_int v,
          endpoint = (address, word_of_int v), timestamp_ms = ts\<rparr>
      })"

lemma parse_split:
  assumes "CHR '':'' \<notin> set name" and "CHR '':'' \<notin> set ip" and "CHR '':'' \<notin> set p"
  shows "parse make_address (name @ CHR '':'' # ip @ CHR '':'' # p @ CHR '':'' # ts) = fields_of make_address name ip p ts"
proof -
  let ?r = "name @ CHR '':'' # ip @ CHR '':'' # p @ CHR '':'' # ts"
  have first: "find_char ?r CHR '':'' 0 = Some (length name)"
    using find_char_some [OF assms(1), of "[]"] by simp
  have second: "find_char ?r CHR '':'' (length name + 1) = Some (length name + 1 + length ip)"
    using find_char_some [OF assms(2), of "name @ '':''"] by simp
  have third: "find_char ?r CHR '':'' (length name + 1 + length ip + 1) = Some (length name + 1 + length ip + 1 + length p)"
    using find_char_some [OF assms(3), of "name @ '':'' @ ip @ '':''"] by (simp add: add.assoc)
  show ?thesis
    unfolding parse_def first second third Option.bind.bind_lunit Let_def
    by (simp add: substr_def fields_of_def numeral_3_eq_3)
qed

lemma parse_only_split:
  assumes "parse make_address r = Some info"
  obtains name ip p ts where "r = name @ CHR '':'' # ip @ CHR '':'' # p @ CHR '':'' # ts"
    and "CHR '':'' \<notin> set name" and "CHR '':'' \<notin> set ip" and "CHR '':'' \<notin> set p"
proof -
  from assms obtain i j k where ijk: "find_char r CHR '':'' 0 = Some i" "find_char r CHR '':'' (i + 1) = Some j"
    "find_char r CHR '':'' (j + 1) = Some k"
    by (auto simp: parse_def bind_eq_Some_conv)
  from ijk(1) find_char_split [of "[]" r] obtain name r1 where 1: "r = name @ CHR '':'' # r1" "CHR '':'' \<notin> set name" "i = length name"
    by (metis append_Nil list.size(3) plus_nat.add_0)
  from ijk(2) find_char_split [of "name @ '':''" r1 "CHR '':''" j] 1 obtain ip r2
    where 2: "r1 = ip @ CHR '':'' # r2" "CHR '':'' \<notin> set ip" "j = length name + 1 + length ip" by auto
  have "find_char ((name @ '':'' @ ip @ '':'') @ r2) CHR '':'' (length (name @ '':'' @ ip @ '':'')) = Some k"
    using ijk(3) 1 2 by simp
  then obtain p ts where 3: "r2 = p @ CHR '':'' # ts" "CHR '':'' \<notin> set p" by (rule find_char_split)
  show thesis using that 1 2 3 by simp
qed

text \<open>Property C30. \<open>DiscoveryString::parse\<close> is exact: it accepts a response just when the text is
  service name, IP, port and timestamp joined by colons, where the first three parts have no
  colon, name and IP are not empty, \<open>stoi\<close> and \<open>stoull\<close> read the numbers and the address library
  accepts the IP; the result holds those parts and the port reduced to 16 bits.\<close>

theorem discovery_parse_exact:
  "parse make_address r = Some info \<longleftrightarrow>
    (\<exists>name ip p ts v t a. r = name @ '':'' @ ip @ '':'' @ p @ '':'' @ ts \<and>
      CHR '':'' \<notin> set name \<and> CHR '':'' \<notin> set ip \<and> CHR '':'' \<notin> set p \<and> name \<noteq> [] \<and> ip \<noteq> [] \<and>
      stoi p = Some v \<and> stoull ts = Some t \<and> make_address ip = Some a \<and>
      info = \<lparr>service_name = name, ip_address = ip, port = word_of_int v,
        endpoint = (a, word_of_int v), timestamp_ms = t\<rparr>)"
  (is "?parse \<longleftrightarrow> ?parts")
proof
  assume p: ?parse
  then obtain name ip p ts where r: "r = name @ CHR '':'' # ip @ CHR '':'' # p @ CHR '':'' # ts"
    "CHR '':'' \<notin> set name" "CHR '':'' \<notin> set ip" "CHR '':'' \<notin> set p" by (rule parse_only_split)
  with p parse_split [of name ip p make_address ts] have "fields_of make_address name ip p ts = Some info" by simp
  with r show ?parts
    by (intro exI [of _ name] exI [of _ ip] exI [of _ p] exI [of _ ts])
      (auto simp: fields_of_def bind_eq_Some_conv split: if_splits)
next
  assume ?parts
  then show ?parse by (auto simp: parse_split fields_of_def)
qed

lemma discovery_ip_no_colon:
  assumes info: "parse make_address r = Some info"
  shows "CHR '':'' \<notin> set (ip_address info)"
proof -
  obtain name ip p ts where r: "r = name @ CHR '':'' # ip @ CHR '':'' # p @ CHR '':'' # ts"
    and parts: "CHR '':'' \<notin> set name" "CHR '':'' \<notin> set ip" "CHR '':'' \<notin> set p"
    using info by (rule parse_only_split)
  from info have "fields_of make_address name ip p ts = Some info" unfolding r parse_split [OF parts] .
  then show ?thesis using parts by (auto simp: fields_of_def bind_eq_Some_conv split: if_splits)
qed

section \<open>Round trip\<close>

lemma digit_not_special:
  assumes "is_digit c"
  shows "c \<noteq> CHR ''-''" and "c \<noteq> CHR ''+''" and "c \<noteq> CHR '':''" and "\<not> is_space c"
  using assms by (auto simp: is_digit_def is_space_def)

lemma scan_digits:
  assumes "ds \<noteq> []" and "list_all is_digit ds" and "r = [] \<or> \<not> is_digit (hd r)"
  shows "scan_number (ds @ r) = Some (False, decimal ds)"
proof -
  obtain c cs where c: "ds = c # cs" "is_digit c" using assms(1,2) by (cases ds) auto
  then have "dropWhile is_space (ds @ r) = ds @ r" "split_sign (ds @ r) = (False, ds @ r)"
    using digit_not_special [OF c(2)] by (simp_all add: split_sign_def)
  with assms takeWhile_append_stop [of is_digit ds r] show ?thesis by (simp add: scan_number_def)
qed

lemma stoi_to_string: "n \<le> 2147483647 \<Longrightarrow> stoi (to_string_nat n) = Some (int n)"
  using scan_digits [of "to_string_nat n" "[]"] to_string_nat_digits [of n]
  by (simp add: stoi_def int_max_def int_min_def)

lemma stoull_to_string: "n < 2 ^ 64 \<Longrightarrow> stoull (to_string_nat n) = Some (of_nat n)"
  using scan_digits [of "to_string_nat n" "[]"] to_string_nat_digits [of n] by (simp add: stoull_def)

lemma to_string_nat_no_colon: "CHR '':'' \<notin> set (to_string_nat n)"
  using to_string_nat_digits [of n] digit_not_special(3) by (auto simp: list_all_iff)

lemma parse_construct:
  assumes "name \<noteq> []" and "CHR '':'' \<notin> set name" and "ip \<noteq> []" and "CHR '':'' \<notin> set ip"
    and "make_address ip = Some a" and "0 \<le> now" and "now < 2 ^ 63"
  shows "parse make_address (construct now name ip p) =
    Some \<lparr>service_name = name, ip_address = ip, port = p, endpoint = (a, p),
      timestamp_ms = of_int (now div 1000000)\<rparr>"
proof -
  have ms: "now sdiv 1000000 = now div 1000000" "0 \<le> now div 1000000" "nat (now div 1000000) < 2 ^ 64"
    using assms(6,7) by (simp_all add: signed_divide_int_def sgn_if nat_less_iff)
  have p: "stoi (to_string_nat (unat p)) = Some (int (unat p))"
  proof (rule stoi_to_string)
    have "unat p < 65536" using unsigned_less [of p] by simp
    then show "unat p \<le> 2147483647" by simp
  qed
  have t: "stoull (to_string_nat (nat (now div 1000000))) = Some (of_int (now div 1000000))"
    using stoull_to_string [OF ms(3)] ms(2) by simp
  have "construct now name ip p = name @ CHR '':'' # ip @ CHR '':'' # to_string_nat (unat p) @ CHR '':'' #
      to_string_nat (nat (now div 1000000))"
    using ms(1,2) by (simp add: construct_def to_string_int_def)
  then show ?thesis
    using parse_split [OF assms(2,4) to_string_nat_no_colon, of make_address "unat p"] p t assms(1,3,5) by (simp add: fields_of_def)
qed

text \<open>Construct and parse are inverse: for a service name and an IP text without
  colons that the address library accepts, and a clock from the epoch on, the response parses
  back to the same name, IP and port and to the clock's time in milliseconds.\<close>

theorem discovery_roundtrip:
  assumes "name \<noteq> []" and "CHR '':'' \<notin> set name" and "ip \<noteq> []" and "CHR '':'' \<notin> set ip"
    and "make_address ip = Some a" and "0 \<le> now" and "now < 2 ^ 63"
  shows "parse make_address (construct now name ip p) =
    Some \<lparr>service_name = name, ip_address = ip, port = p, endpoint = (a, p),
      timestamp_ms = of_int (now div 1000000)\<rparr>"
  using assms by (rule parse_construct)

text \<open>A port outside 16 bits is not refused: any port text that fits an \<open>int\<close> is
  accepted and reduced modulo \<open>2^16\<close>.\<close>

theorem discovery_port_wraps:
  assumes "name \<noteq> []" and "CHR '':'' \<notin> set name" and "ip \<noteq> []" and "CHR '':'' \<notin> set ip"
    and "make_address ip = Some a" and "n \<le> 2147483647" and "t < 2 ^ 64"
  shows "map_option (unat \<circ> port)
      (parse make_address (name @ '':'' @ ip @ '':'' @ to_string_nat n @ '':'' @ to_string_nat t)) = Some (n mod 65536)"
proof -
  have "parse make_address (name @ CHR '':'' # ip @ CHR '':'' # to_string_nat n @ CHR '':'' # to_string_nat t) =
    fields_of make_address name ip (to_string_nat n) (to_string_nat t)"
    by (rule parse_split [OF assms(2,4) to_string_nat_no_colon])
  then show ?thesis
    using assms by (simp add: fields_of_def stoi_to_string stoull_to_string unat_of_nat)
qed

text \<open>An IP text with a colon, as IPv6 addresses have, does not survive: whatever
  the address library accepts, the response constructed for it never parses back to that IP.\<close>

theorem discovery_colon_in_ip:
  assumes "CHR '':'' \<in> set ip" and "parse make_address (construct now name ip p) = Some info"
  shows "ip_address info \<noteq> ip"
  using assms discovery_ip_no_colon [OF assms(2)] by auto

section \<open>Instances\<close>

definition accept_all :: "string \<Rightarrow> string option" where
  "accept_all s = Some s"

theorem discovery_roundtrip_witness:
  "parse accept_all (construct 1700000000000000000 ''svc'' ''10.0.0.1'' 54321) =
    Some \<lparr>service_name = ''svc'', ip_address = ''10.0.0.1'', port = 54321,
      endpoint = (''10.0.0.1'', 54321), timestamp_ms = 1700000000000\<rparr>"
  using discovery_roundtrip [of "''svc''" "''10.0.0.1''" accept_all "''10.0.0.1''" 1700000000000000000 54321]
  by (simp add: accept_all_def)

theorem discovery_port_wraps_witness:
  "map_option (unat \<circ> port) (parse accept_all (''svc'' @ '':'' @ ''10.0.0.1'' @ '':'' @ to_string_nat 65616 @ '':'' @ to_string_nat 5)) = Some 80"
  using discovery_port_wraps [of "''svc''" "''10.0.0.1''" accept_all "''10.0.0.1''" 65616 5]
  by (simp add: accept_all_def)

lemma colon_example:
  "parse accept_all (construct 0 ''s'' ''a:1'' 80) =
    Some \<lparr>service_name = ''s'', ip_address = ''a'', port = 1, endpoint = (''a'', 1), timestamp_ms = 80\<rparr>"
proof -
  have chars: "char_of (48 :: nat) = CHR ''0''" "char_of (49 :: nat) = CHR ''1''" "char_of (56 :: nat) = CHR ''8''"
    by code_simp+
  have digits: "to_string_nat 1 = ''1''" "to_string_nat 80 = ''80''" "to_string_nat 0 = ''0''"
    by (simp_all add: to_string_nat.simps digit_char_def chars)
  have n: "stoi ''1'' = Some 1" using stoi_to_string [of 1] digits(1) by simp
  have t: "stoull ''80:0'' = Some 80"
    using scan_digits [of "''80''" "'':0''"] decimal_to_string_nat [of 80] to_string_nat_digits [of 80]
    by (simp add: digits stoull_def is_digit_def)
  have "construct 0 ''s'' ''a:1'' 80 = ''s'' @ CHR '':'' # ''a'' @ CHR '':'' # ''1'' @ CHR '':'' # ''80:0''"
    using digits by (simp add: construct_def to_string_int_def)
  moreover have "parse accept_all (''s'' @ CHR '':'' # ''a'' @ CHR '':'' # ''1'' @ CHR '':'' # ''80:0'') =
      fields_of accept_all ''s'' ''a'' ''1'' ''80:0''"
    by (rule parse_split) simp_all
  ultimately show ?thesis by (simp add: fields_of_def n t accept_all_def)
qed

theorem discovery_colon_in_ip_witness:
  "\<exists>info. parse accept_all (construct 0 ''s'' ''a:1'' 80) = Some info \<and> ip_address info \<noteq> ''a:1''"
  using discovery_colon_in_ip [OF _ colon_example] colon_example by auto

end
