(* ===== verification/Udp_Discovery_Server.thy ===== *)
theory Udp_Discovery_Server
  imports Udp_Discovery_States Discovery_String
begin

text \<open>
  \<open>eestv/net/discovery/udp_discovery_server.hpp\<close> and \<open>udp_discovery_server.cpp\<close>: answering the
  requests for the registered discoverables.
\<close>

section \<open>State\<close>

datatype userver_handler =
  US_start | US_cancel | US_on_receive error_code nat | US_on_send error_code | US_stopped nat

text \<open>
  \<open>us_receives\<close> counts the receives the system holds, \<open>us_sends\<close> holds the replies it has been
  given and not completed. \<open>us_requests\<close> are the datagrams it has put into the buffer, \<open>us_replies\<close> the
  replies it was asked to send.
\<close>

record 'ep UdpDiscoveryServer =
  us_flags :: Flags
  us_discoverables :: "string \<Rightarrow> 'ep Discoverable option"
  us_port :: int
  us_on_stopped :: "nat option"
  us_recv_buffer :: string
  us_remote_endpoint :: 'ep
  us_posted :: "userver_handler list"
  us_receives :: nat
  us_sends :: "(string \<times> 'ep) list"
  us_requests :: "(string \<times> 'ep) list"
  us_replies :: "(string \<times> 'ep) list"
  us_stop_requests :: nat
  us_stopped_calls :: "nat list"

abbreviation vget :: "UdpDiscoveryState \<Rightarrow> 'ep UdpDiscoveryServer \<Rightarrow> bool" where
  "vget f s \<equiv> get_flag (uds f) (us_flags s)"

definition vset :: "UdpDiscoveryState \<Rightarrow> 'ep UdpDiscoveryServer \<Rightarrow> 'ep UdpDiscoveryServer" where
  "vset f s = s\<lparr>us_flags := set_flag (uds f) (us_flags s)\<rparr>"

definition vclear :: "UdpDiscoveryState \<Rightarrow> 'ep UdpDiscoveryServer \<Rightarrow> 'ep UdpDiscoveryServer" where
  "vclear f s = s\<lparr>us_flags := clear_flag (uds f) (us_flags s)\<rparr>"

definition vpost :: "userver_handler \<Rightarrow> 'ep UdpDiscoveryServer \<Rightarrow> 'ep UdpDiscoveryServer" where
  "vpost h s = s\<lparr>us_posted := us_posted s @ [h]\<rparr>"

text \<open>\<open>no_endpoint\<close> is the endpoint that \<open>boost::asio\<close> constructs by default.\<close>

definition UdpDiscoveryServer_new :: "'ep \<Rightarrow> int \<Rightarrow> 'ep UdpDiscoveryServer" where
  "UdpDiscoveryServer_new no_endpoint port_number =
     \<lparr>us_flags = flags_init, us_discoverables = Map.empty, us_port = port_number, us_on_stopped = None,
      us_recv_buffer = replicate recv_buffer_size (CHR 0x00), us_remote_endpoint = no_endpoint, us_posted = [],
      us_receives = 0, us_sends = [], us_requests = [], us_replies = [], us_stop_requests = 0, us_stopped_calls = []\<rparr>"

section \<open>Member functions\<close>

definition userver_async_start :: "'ep UdpDiscoveryServer \<Rightarrow> bool \<times> 'ep UdpDiscoveryServer" where
  "userver_async_start s =
     (if vget UDS_running s \<or> vget UDS_stopping s then (False, s)
      else (True, vpost US_start (vset UDS_running s)))"

definition userver_post_stopped :: "'ep UdpDiscoveryServer \<Rightarrow> 'ep UdpDiscoveryServer" where
  "userver_post_stopped s =
     (case us_on_stopped s of
        None \<Rightarrow> s
      | Some k \<Rightarrow> vpost (US_stopped k) (s\<lparr>us_on_stopped := None\<rparr>))"

definition userver_resolve_on_stopped :: "'ep UdpDiscoveryServer \<Rightarrow> 'ep UdpDiscoveryServer" where
  "userver_resolve_on_stopped s =
     (if vget UDS_stopping s
      then
        (if \<not> vget UDS_receiving_async s \<and> \<not> vget UDS_sending_async s then userver_post_stopped s else s)
      else s)"

definition start_receive :: "'ep UdpDiscoveryServer \<Rightarrow> 'ep UdpDiscoveryServer" where
  "start_receive s = (vset UDS_receiving_async s)\<lparr>us_receives := us_receives s + 1\<rparr>"

definition userver_start_posted :: "'ep UdpDiscoveryServer \<Rightarrow> 'ep UdpDiscoveryServer" where
  "userver_start_posted s =
     (if \<not> vget UDS_stopping s then start_receive s else userver_resolve_on_stopped s)"

definition userver_async_stop :: "nat \<Rightarrow> 'ep UdpDiscoveryServer \<Rightarrow> bool \<times> 'ep UdpDiscoveryServer" where
  "userver_async_stop callback s =
     (if vget UDS_stopping s then (False, s)
      else
        (True, vpost US_cancel
          ((vset UDS_stopping s)\<lparr>us_on_stopped := Some callback, us_stop_requests := us_stop_requests s + 1\<rparr>)))"

definition userver_cancel :: "'ep UdpDiscoveryServer \<Rightarrow> 'ep UdpDiscoveryServer" where
  "userver_cancel s =
     s\<lparr>us_posted := us_posted s @ replicate (us_receives s) (US_on_receive Operation_aborted 0)
         @ map (\<lambda>_. US_on_send Operation_aborted) (us_sends s),
       us_receives := 0, us_sends := []\<rparr>"

definition userver_stop_posted :: "'ep UdpDiscoveryServer \<Rightarrow> 'ep UdpDiscoveryServer" where
  "userver_stop_posted s =
     (if vget UDS_running s then userver_cancel s else userver_post_stopped s)"

definition userver_stop :: "bool \<Rightarrow> nat \<Rightarrow> 'ep UdpDiscoveryServer \<Rightarrow> bool \<times> 'ep UdpDiscoveryServer" where
  "userver_stop is_on_io_thread stopped s =
     (if is_on_io_thread then (False, s) else userver_async_stop stopped s)"

text \<open>\<open>emplace\<close> does not replace an entry.\<close>

definition add_discoverable :: "'ep Discoverable \<Rightarrow> 'ep UdpDiscoveryServer \<Rightarrow> 'ep UdpDiscoveryServer" where
  "add_discoverable d s =
     (case us_discoverables s (get_identifier d) of
        None \<Rightarrow> s\<lparr>us_discoverables := (us_discoverables s)(get_identifier d \<mapsto> d)\<rparr>
      | Some _ \<Rightarrow> s)"

definition reply_to :: "string \<Rightarrow> 'ep UdpDiscoveryServer \<Rightarrow> string" where
  "reply_to received_identifier s =
     (case us_discoverables s received_identifier of
        None \<Rightarrow> ''''
      | Some d \<Rightarrow> get_reply d (us_remote_endpoint s))"

definition userver_handle_receive :: "error_code \<Rightarrow> nat \<Rightarrow> 'ep UdpDiscoveryServer \<Rightarrow> 'ep UdpDiscoveryServer" where
  "userver_handle_receive error_code bytes_transferred s =
     (let s = (if error_code \<noteq> No_error then s
               else if bytes_transferred > 0
               then
                 (let reply = reply_to (take bytes_transferred (us_recv_buffer s)) s
                  in if reply \<noteq> ''''
                     then (vset UDS_sending_async s)\<lparr>us_sends := us_sends s @ [(reply, us_remote_endpoint s)],
                            us_replies := us_replies s @ [(reply, us_remote_endpoint s)]\<rparr>
                     else s)
               else s)
      in if \<not> vget UDS_stopping s then s\<lparr>us_receives := us_receives s + 1\<rparr>
         else userver_resolve_on_stopped (vclear UDS_receiving_async s))"

definition userver_handle_send :: "error_code \<Rightarrow> 'ep UdpDiscoveryServer \<Rightarrow> 'ep UdpDiscoveryServer" where
  "userver_handle_send error_code s = userver_resolve_on_stopped (vclear UDS_sending_async s)"

definition userver_reset :: "'ep UdpDiscoveryServer \<Rightarrow> 'ep UdpDiscoveryServer" where
  "userver_reset s = s\<lparr>us_flags := clear_all (us_flags s)\<rparr>"

fun userver_run_handler :: "userver_handler \<Rightarrow> 'ep UdpDiscoveryServer \<Rightarrow> 'ep UdpDiscoveryServer" where
  "userver_run_handler US_start s = userver_start_posted s"
| "userver_run_handler US_cancel s = userver_stop_posted s"
| "userver_run_handler (US_on_receive e n) s = userver_handle_receive e n s"
| "userver_run_handler (US_on_send e) s = userver_handle_send e s"
| "userver_run_handler (US_stopped k) s = s\<lparr>us_stopped_calls := us_stopped_calls s @ [k]\<rparr>"

section \<open>Steps\<close>

text \<open>
  \<open>reset\<close> clears the flags without looking at them, and the header does not say when it may be called.
  The steps allow it when every accepted stop has had its callback; without \<open>early_reset\<close> the user
  also waits until nothing of the server is queued or outstanding.
\<close>

definition userver_idle :: "'ep UdpDiscoveryServer \<Rightarrow> bool" where
  "userver_idle s \<longleftrightarrow> us_posted s = [] \<and> us_receives s = 0 \<and> us_sends s = []"

inductive userver_step :: "bool \<Rightarrow> bool \<Rightarrow> 'ep UdpDiscoveryServer \<Rightarrow> 'ep UdpDiscoveryServer \<Rightarrow> bool" for one_thread early_reset where
  start: "userver_step one_thread early_reset s (snd (userver_async_start s))"
| stop: "userver_step one_thread early_reset s (snd (userver_stop io_thread k s))"
| add: "userver_step one_thread early_reset s (add_discoverable d s)"
| reset: "early_reset \<or> userver_idle s \<Longrightarrow> length (us_stopped_calls s) = us_stop_requests s \<Longrightarrow>
    userver_step one_thread early_reset s (userver_reset s)"
| handler: "us_posted s = hs @ h # hs' \<Longrightarrow> one_thread \<longrightarrow> hs = [] \<Longrightarrow>
    userver_step one_thread early_reset s (userver_run_handler h (s\<lparr>us_posted := hs @ hs'\<rparr>))"
| received: "us_receives s = Suc n \<Longrightarrow>
    userver_step one_thread early_reset s (vpost (US_on_receive No_error (datagram_size d))
      (s\<lparr>us_receives := n, us_recv_buffer := store_datagram d (us_recv_buffer s), us_remote_endpoint := ep,
         us_requests := us_requests s @ [(d, ep)]\<rparr>))"
| receive_failed: "us_receives s = Suc n \<Longrightarrow>
    userver_step one_thread early_reset s (vpost (US_on_receive Other_error 0) (s\<lparr>us_receives := n\<rparr>))"
| sent: "us_sends s = rs @ r # rs' \<Longrightarrow> e \<noteq> Operation_aborted \<Longrightarrow>
    userver_step one_thread early_reset s (vpost (US_on_send e) (s\<lparr>us_sends := rs @ rs'\<rparr>))"

definition userver_init :: "'ep UdpDiscoveryServer \<Rightarrow> bool" where
  "userver_init s \<longleftrightarrow> (\<exists>ep p. s = UdpDiscoveryServer_new ep p)"

section \<open>Flags of an updated server\<close>

lemma vget_simps [simp]:
  "get_flag (uds f) (us_flags (vset g s)) \<longleftrightarrow> f = g \<or> vget f s"
  "get_flag (uds f) (us_flags (vclear g s)) \<longleftrightarrow> f \<noteq> g \<and> vget f s"
  "us_flags (vpost h s) = us_flags s"
  by (simp_all add: vset_def vclear_def vpost_def udp_flags.flag_laws)

lemma vset_frame [simp]:
  "us_on_stopped (vset f s) = us_on_stopped s" "us_posted (vset f s) = us_posted s" "us_receives (vset f s) = us_receives s"
  "us_sends (vset f s) = us_sends s" "us_stop_requests (vset f s) = us_stop_requests s"
  "us_stopped_calls (vset f s) = us_stopped_calls s" "us_discoverables (vset f s) = us_discoverables s"
  "us_requests (vset f s) = us_requests s" "us_replies (vset f s) = us_replies s"
  "us_recv_buffer (vset f s) = us_recv_buffer s" "us_remote_endpoint (vset f s) = us_remote_endpoint s"
  by (simp_all add: vset_def)

lemma vclear_frame [simp]:
  "us_on_stopped (vclear f s) = us_on_stopped s" "us_posted (vclear f s) = us_posted s" "us_receives (vclear f s) = us_receives s"
  "us_sends (vclear f s) = us_sends s" "us_stop_requests (vclear f s) = us_stop_requests s"
  "us_stopped_calls (vclear f s) = us_stopped_calls s" "us_discoverables (vclear f s) = us_discoverables s"
  "us_requests (vclear f s) = us_requests s" "us_replies (vclear f s) = us_replies s"
  "us_recv_buffer (vclear f s) = us_recv_buffer s" "us_remote_endpoint (vclear f s) = us_remote_endpoint s"
  by (simp_all add: vclear_def)

lemma vpost_frame [simp]:
  "us_on_stopped (vpost h s) = us_on_stopped s" "us_posted (vpost h s) = us_posted s @ [h]" "us_receives (vpost h s) = us_receives s"
  "us_sends (vpost h s) = us_sends s" "us_stop_requests (vpost h s) = us_stop_requests s"
  "us_stopped_calls (vpost h s) = us_stopped_calls s" "us_discoverables (vpost h s) = us_discoverables s"
  "us_requests (vpost h s) = us_requests s" "us_replies (vpost h s) = us_replies s"
  "us_recv_buffer (vpost h s) = us_recv_buffer s" "us_remote_endpoint (vpost h s) = us_remote_endpoint s"
  by (simp_all add: vpost_def)

section \<open>The invariant\<close>

fun is_vreceive :: "userver_handler \<Rightarrow> bool" where
  "is_vreceive (US_on_receive _ _) \<longleftrightarrow> True" | "is_vreceive _ \<longleftrightarrow> False"

fun is_vsend :: "userver_handler \<Rightarrow> bool" where
  "is_vsend (US_on_send _) \<longleftrightarrow> True" | "is_vsend _ \<longleftrightarrow> False"

fun is_vstopped :: "userver_handler \<Rightarrow> bool" where
  "is_vstopped (US_stopped _) \<longleftrightarrow> True" | "is_vstopped _ \<longleftrightarrow> False"

definition vstarts :: "'ep UdpDiscoveryServer \<Rightarrow> nat" where
  "vstarts s = jobs (\<lambda>h. h = US_start) (us_posted s)"

definition vowed :: "'ep UdpDiscoveryServer \<Rightarrow> nat" where
  "vowed s = (if us_on_stopped s = None then 0 else 1)"

text \<open>
  \<open>receiving_async\<close> counts the one receive exactly and is set as long as a started server is not
  stopping; \<open>sending_async\<close> only says that some send is outstanding.
\<close>

definition vcore :: "'ep UdpDiscoveryServer \<Rightarrow> bool" where
  "vcore s \<longleftrightarrow>
     us_receives s + jobs is_vreceive (us_posted s) = of_bool (vget UDS_receiving_async s) \<and>
     vstarts s + of_bool (vget UDS_receiving_async s) \<le> 1 \<and>
     (vget UDS_sending_async s \<longrightarrow> length (us_sends s) + jobs is_vsend (us_posted s) \<noteq> 0) \<and>
     (\<not> vget UDS_running s \<longrightarrow> vstarts s = 0 \<and> \<not> vget UDS_receiving_async s \<and> us_sends s = [] \<and> jobs is_vsend (us_posted s) = 0) \<and>
     (vget UDS_stopping s \<or>
        jobs (\<lambda>h. h = US_cancel) (us_posted s) = 0 \<and>
        (vget UDS_running s \<longrightarrow> vstarts s = 1 \<or> vget UDS_receiving_async s))"

definition vactive :: "'ep UdpDiscoveryServer \<Rightarrow> bool" where
  "vactive s \<longleftrightarrow> vstarts s = 1 \<or> vget UDS_receiving_async s \<or> vget UDS_sending_async s \<or>
     \<not> vget UDS_running s \<and> jobs (\<lambda>h. h = US_cancel) (us_posted s) \<noteq> 0"

definition vledger :: "'ep UdpDiscoveryServer \<Rightarrow> bool" where
  "vledger s \<longleftrightarrow>
     vowed s + jobs is_vstopped (us_posted s) + length (us_stopped_calls s) = us_stop_requests s \<and>
     (vowed s = 1 \<longrightarrow> vget UDS_stopping s)"

definition vstop :: "'ep UdpDiscoveryServer \<Rightarrow> bool" where
  "vstop s \<longleftrightarrow> vledger s \<and> (vowed s = 1 \<longrightarrow> vactive s)"

lemma vowed_cases: obtains "us_on_stopped s = None" "vowed s = 0" | k where "us_on_stopped s = Some k" "vowed s = 1"
  by (cases "us_on_stopped s") (simp_all add: vowed_def)

lemma vowed_simps [simp]:
  "vowed (vset f s) = vowed s" "vowed (vclear f s) = vowed s" "vowed (vpost h s) = vowed s"
  "vowed (s\<lparr>us_posted := q\<rparr>) = vowed s" "vowed (s\<lparr>us_receives := n\<rparr>) = vowed s" "vowed (s\<lparr>us_sends := rs\<rparr>) = vowed s"
  "vowed (s\<lparr>us_replies := qs\<rparr>) = vowed s" "vowed (s\<lparr>us_requests := qs\<rparr>) = vowed s" "vowed (s\<lparr>us_flags := fl\<rparr>) = vowed s"
  "vowed (s\<lparr>us_recv_buffer := b'\<rparr>) = vowed s" "vowed (s\<lparr>us_remote_endpoint := ep\<rparr>) = vowed s"
  "vowed (s\<lparr>us_stop_requests := n\<rparr>) = vowed s" "vowed (s\<lparr>us_stopped_calls := ks\<rparr>) = vowed s"
  "vowed (s\<lparr>us_discoverables := ds\<rparr>) = vowed s"
  "vowed (s\<lparr>us_on_stopped := None\<rparr>) = 0" "vowed (s\<lparr>us_on_stopped := Some k\<rparr>) = 1"
  by (simp_all add: vowed_def)

lemma vpost_stopped_frame [simp]:
  "vcore (userver_post_stopped s) = vcore s" "us_flags (userver_post_stopped s) = us_flags s"
  "vowed (userver_post_stopped s) = 0" "us_replies (userver_post_stopped s) = us_replies s"
  "us_requests (userver_post_stopped s) = us_requests s" "us_discoverables (userver_post_stopped s) = us_discoverables s"
  "us_recv_buffer (userver_post_stopped s) = us_recv_buffer s" "us_remote_endpoint (userver_post_stopped s) = us_remote_endpoint s"
  "us_sends (userver_post_stopped s) = us_sends s"
  "US_on_receive e n \<in> set (us_posted (userver_post_stopped s)) \<longleftrightarrow> US_on_receive e n \<in> set (us_posted s)"
  by (cases s rule: vowed_cases; simp add: userver_post_stopped_def vcore_def vstarts_def)+

lemma vpost_stopped_ledger: "vledger s \<Longrightarrow> vstop (userver_post_stopped s)"
  by (cases s rule: vowed_cases) (simp_all add: userver_post_stopped_def vstop_def vledger_def)

lemma vresolve_frame [simp]:
  "vcore (userver_resolve_on_stopped s) = vcore s" "us_flags (userver_resolve_on_stopped s) = us_flags s"
  "us_replies (userver_resolve_on_stopped s) = us_replies s" "us_requests (userver_resolve_on_stopped s) = us_requests s"
  "us_discoverables (userver_resolve_on_stopped s) = us_discoverables s" "us_sends (userver_resolve_on_stopped s) = us_sends s"
  "us_recv_buffer (userver_resolve_on_stopped s) = us_recv_buffer s"
  "us_remote_endpoint (userver_resolve_on_stopped s) = us_remote_endpoint s"
  "US_on_receive e n \<in> set (us_posted (userver_resolve_on_stopped s)) \<longleftrightarrow> US_on_receive e n \<in> set (us_posted s)"
  by (simp_all add: userver_resolve_on_stopped_def)

lemma vresolve_vstop: "vledger s \<Longrightarrow> vstop (userver_resolve_on_stopped s)"
  by (cases s rule: vowed_cases; cases "vget UDS_stopping s")
    (auto simp: userver_resolve_on_stopped_def vpost_stopped_ledger, auto simp: vstop_def vledger_def vactive_def)

section \<open>Preservation of the operations\<close>

lemma vcore_frame [simp]:
  "vcore (s\<lparr>us_on_stopped := k\<rparr>) = vcore s" "vcore (s\<lparr>us_stop_requests := n\<rparr>) = vcore s"
  "vcore (s\<lparr>us_stopped_calls := ks\<rparr>) = vcore s" "vcore (s\<lparr>us_discoverables := ds\<rparr>) = vcore s"
  by (simp_all add: vcore_def vstarts_def)

lemma vstart_core: "vcore s \<Longrightarrow> vcore (snd (userver_async_start s))"
  by (cases "vget UDS_running s"; cases "vget UDS_stopping s") (auto simp: userver_async_start_def vcore_def vstarts_def)

lemma vasync_stop_core: "vcore s \<Longrightarrow> vcore (snd (userver_async_stop k s))"
  by (cases "vget UDS_stopping s") (auto simp: userver_async_stop_def vcore_def vstarts_def)

lemma vreset_core: "vcore s \<Longrightarrow> userver_idle s \<Longrightarrow> vcore (userver_reset s)"
  by (simp add: vcore_def userver_idle_def userver_reset_def vstarts_def)

lemma US_start_queued:
  assumes "vcore s" and "us_posted s = hs @ US_start # hs'"
  shows "\<not> vget UDS_receiving_async s \<and> vget UDS_running s \<and> us_receives s = 0"
  using assms by (cases "vget UDS_receiving_async s"; cases "vget UDS_running s") (simp_all add: vcore_def vstarts_def)

lemma US_on_receive_queued:
  assumes "vcore s" and "us_posted s = hs @ US_on_receive e n # hs'"
  shows "vget UDS_receiving_async s \<and> vget UDS_running s \<and> us_receives s = 0 \<and> jobs is_vreceive hs = 0
    \<and> jobs is_vreceive hs' = 0 \<and> vstarts s = 0"
  using assms by (cases "vget UDS_receiving_async s"; cases "vget UDS_running s") (simp_all add: vcore_def)

lemma US_on_send_queued:
  assumes "vcore s" and "us_posted s = hs @ US_on_send e # hs'"
  shows "vget UDS_running s"
  using assms by (cases "vget UDS_running s") (simp_all add: vcore_def)

lemma US_start_core:
  assumes "vcore s" and "us_posted s = hs @ US_start # hs'"
  shows "vcore (userver_start_posted (s\<lparr>us_posted := hs @ hs'\<rparr>))"
proof (cases "vget UDS_stopping s")
  case True
  from assms True US_start_queued [OF assms] have "vcore (s\<lparr>us_posted := hs @ hs'\<rparr>)" by (simp add: vcore_def vstarts_def)
  with True show ?thesis by (simp add: userver_start_posted_def)
next
  case False
  from assms False US_start_queued [OF assms] show ?thesis
    by (auto simp: userver_start_posted_def start_receive_def vcore_def vstarts_def udp_flags.flag_laws)
qed

lemma receive_ended_core:
  assumes "vcore s" and "us_posted s = hs @ US_on_receive e n # hs'"
  shows "vget UDS_stopping s \<Longrightarrow> vcore (vclear UDS_receiving_async (s\<lparr>us_posted := hs @ hs'\<rparr>))"
    and "vcore (s\<lparr>us_posted := hs @ hs', us_receives := us_receives s + 1\<rparr>)"
  using assms US_on_receive_queued [OF assms] by (auto simp: vcore_def vstarts_def)

lemma reply_sent_core:
  "vget UDS_running s \<Longrightarrow> vcore s \<Longrightarrow> vcore ((vset UDS_sending_async s)\<lparr>us_sends := us_sends s @ [r], us_replies := rs\<rparr>)"
  by (auto simp: vcore_def vstarts_def udp_flags.flag_laws)

lemma US_on_receive_core:
  assumes "vcore s" and "us_posted s = hs @ US_on_receive e n # hs'"
  shows "vcore (userver_handle_receive e n (s\<lparr>us_posted := hs @ hs'\<rparr>))"
proof -
  note q = US_on_receive_queued [OF assms]
  note ended = receive_ended_core [OF assms]
  let ?d = "s\<lparr>us_posted := hs @ hs'\<rparr>"
  have sent: "vcore (vclear UDS_receiving_async ((vset UDS_sending_async ?d)\<lparr>us_sends := us_sends s @ [r], us_replies := rs\<rparr>))"
    if "vget UDS_stopping s" for r rs
    using ended(1) [OF that] q by (auto simp: vcore_def vstarts_def udp_flags.flag_laws)
  have again: "vcore ((vset UDS_sending_async ?d)\<lparr>us_sends := us_sends s @ [r], us_replies := rs, us_receives := us_receives s + 1\<rparr>)" for r rs
    using ended(2) q by (auto simp: vcore_def vstarts_def udp_flags.flag_laws)
  show ?thesis
    using ended sent again by (simp add: userver_handle_receive_def Let_def)
qed

lemma US_on_send_core:
  assumes "vcore s" and "us_posted s = hs @ US_on_send e # hs'"
  shows "vcore (userver_handle_send e (s\<lparr>us_posted := hs @ hs'\<rparr>))"
proof -
  have "vcore (vclear UDS_sending_async (s\<lparr>us_posted := hs @ hs'\<rparr>))"
    using assms US_on_send_queued [OF assms] by (auto simp: vcore_def vstarts_def)
  then show ?thesis by (simp add: userver_handle_send_def)
qed

lemma US_cancel_core:
  assumes "vcore s" and "us_posted s = hs @ US_cancel # hs'"
  shows "vcore (userver_stop_posted (s\<lparr>us_posted := hs @ hs'\<rparr>))"
proof -
  have stop: "vget UDS_stopping s" using assms by (simp add: vcore_def)
  have "vcore (s\<lparr>us_posted := hs @ hs'\<rparr>)" using assms stop by (simp add: vcore_def vstarts_def)
  moreover have "vcore (userver_cancel (s\<lparr>us_posted := hs @ hs'\<rparr>))"
    using assms stop by (cases "vget UDS_receiving_async s"; cases "vget UDS_running s")
      (simp_all add: vcore_def vstarts_def userver_cancel_def add_ac)
  ultimately show ?thesis by (simp add: userver_stop_posted_def)
qed

lemma vhandler_core:
  assumes "vcore s" and "us_posted s = hs @ h # hs'"
  shows "vcore (userver_run_handler h (s\<lparr>us_posted := hs @ hs'\<rparr>))"
proof (cases h)
  case (US_stopped k)
  with assms show ?thesis by (simp add: vcore_def vstarts_def)
qed (use assms in \<open>simp_all add: US_start_core US_cancel_core US_on_send_core US_on_receive_core\<close>)

lemma add_discoverable_frame [simp]:
  "us_flags (add_discoverable d s) = us_flags s" "us_posted (add_discoverable d s) = us_posted s"
  "vcore (add_discoverable d s) = vcore s" "vowed (add_discoverable d s) = vowed s"
  "us_stopped_calls (add_discoverable d s) = us_stopped_calls s" "us_stop_requests (add_discoverable d s) = us_stop_requests s"
  "us_replies (add_discoverable d s) = us_replies s" "us_requests (add_discoverable d s) = us_requests s"
  "us_recv_buffer (add_discoverable d s) = us_recv_buffer s" "us_remote_endpoint (add_discoverable d s) = us_remote_endpoint s"
  by (simp_all add: add_discoverable_def split: option.split)

lemma userver_step_core:
  assumes "userver_step t False s s'" and "vcore s"
  shows "vcore s'"
  using assms(1)
proof cases
  case (stop io_thread k)
  with assms(2) show ?thesis by (cases io_thread) (simp_all add: userver_stop_def vasync_stop_core)
qed (use assms(2) in \<open>simp_all add: vstart_core vreset_core vhandler_core, auto simp: vcore_def vstarts_def\<close>)

section \<open>Preservation of the ledger of stop requests\<close>

lemma vledger_frame [simp]:
  "vledger (s\<lparr>us_receives := n\<rparr>) = vledger s" "vledger (s\<lparr>us_sends := rs\<rparr>) = vledger s"
  "vledger (s\<lparr>us_replies := qs\<rparr>) = vledger s" "vledger (add_discoverable d s) = vledger s"
  by (simp_all add: vledger_def)

lemma vledger_flags [simp]:
  "f \<noteq> UDS_stopping \<Longrightarrow> vledger (vset f s) = vledger s" "f \<noteq> UDS_stopping \<Longrightarrow> vledger (vclear f s) = vledger s"
  by (auto simp: vledger_def)

lemma vledger_drop:
  "us_posted s = hs @ h # hs' \<Longrightarrow> \<not> is_vstopped h \<Longrightarrow> vledger (s\<lparr>us_posted := hs @ hs'\<rparr>) = vledger s"
  by (simp add: vledger_def)

lemma vstop_not_stopping: "vledger s \<Longrightarrow> \<not> vget UDS_stopping s \<Longrightarrow> vstop s"
  by (auto simp: vstop_def vledger_def)

lemma vstart_vstop: "vstop s \<Longrightarrow> vstop (snd (userver_async_start s))"
proof (cases "vget UDS_running s \<or> vget UDS_stopping s")
  case False
  moreover assume "vstop s"
  ultimately show ?thesis
    by (intro vstop_not_stopping) (simp_all add: userver_async_start_def vstop_def vledger_def)
qed (simp add: userver_async_start_def)

lemma vasync_stop_vstop:
  assumes "vstop s" and "vcore s"
  shows "vstop (snd (userver_async_stop k s))"
proof (cases "vget UDS_stopping s")
  case False
  have "vactive s \<or> \<not> vget UDS_running s" using assms(2) False by (auto simp: vcore_def vactive_def)
  then have "vactive (snd (userver_async_stop k s))"
    using False by (auto simp: userver_async_stop_def vactive_def vstarts_def)
  moreover have "vledger (snd (userver_async_stop k s))"
    using assms(1) False by (cases s rule: vowed_cases) (auto simp: userver_async_stop_def vstop_def vledger_def)
  ultimately show ?thesis by (simp add: vstop_def)
qed (use assms in \<open>simp add: userver_async_stop_def\<close>)

lemma US_start_vstop: "vledger s \<Longrightarrow> vstop (userver_start_posted s)"
  by (cases "vget UDS_stopping s")
    (auto simp: userver_start_posted_def vresolve_vstop start_receive_def intro: vstop_not_stopping)

lemma US_on_receive_vstop: "vledger s \<Longrightarrow> vstop (userver_handle_receive e n s)"
  by (cases "vget UDS_stopping s")
    (auto simp: userver_handle_receive_def Let_def vresolve_vstop intro: vstop_not_stopping)

lemma US_on_send_vstop: "vledger s \<Longrightarrow> vstop (userver_handle_send e s)"
  by (simp add: userver_handle_send_def vresolve_vstop)

lemma US_cancel_vstop:
  assumes "vstop s" and "us_posted s = hs @ US_cancel # hs'"
  shows "vstop (userver_stop_posted (s\<lparr>us_posted := hs @ hs'\<rparr>))"
proof (cases "vget UDS_running s")
  case True
  moreover have "vledger (userver_cancel (s\<lparr>us_posted := hs @ hs'\<rparr>))"
    using assms by (simp add: vstop_def vledger_def userver_cancel_def)
  moreover have "vactive s \<Longrightarrow> vactive (userver_cancel (s\<lparr>us_posted := hs @ hs'\<rparr>))"
    using assms(2) True by (simp add: vactive_def userver_cancel_def vstarts_def)
  moreover have "vowed (userver_cancel (s\<lparr>us_posted := hs @ hs'\<rparr>)) = vowed s" by (simp add: userver_cancel_def)
  ultimately show ?thesis using assms(1) by (auto simp: userver_stop_posted_def vstop_def)
next
  case False
  have "vledger (s\<lparr>us_posted := hs @ hs'\<rparr>)" using assms by (simp add: vledger_drop vstop_def)
  with False show ?thesis by (simp add: userver_stop_posted_def vpost_stopped_ledger)
qed

lemma vhandler_vstop:
  assumes "vstop s" and "us_posted s = hs @ h # hs'"
  shows "vstop (userver_run_handler h (s\<lparr>us_posted := hs @ hs'\<rparr>))"
proof -
  have ledger: "\<not> is_vstopped h \<Longrightarrow> vledger (s\<lparr>us_posted := hs @ hs'\<rparr>)"
    using assms by (simp add: vledger_drop vstop_def)
  show ?thesis
  proof (cases h)
    case (US_stopped k)
    with assms show ?thesis by (simp add: vstop_def vledger_def vactive_def vstarts_def)
  qed (use assms ledger in \<open>simp_all add: US_cancel_vstop US_start_vstop US_on_send_vstop US_on_receive_vstop\<close>)
qed

text \<open>The ledger alone does not need the counts of \<open>vcore\<close>, and survives an early reset.\<close>

lemma vstop_ledger: "vstop s \<Longrightarrow> vledger s"
  by (simp add: vstop_def)

lemma vasync_stop_ledger: "vledger s \<Longrightarrow> vledger (snd (userver_async_stop k s))"
  by (cases s rule: vowed_cases) (auto simp: userver_async_stop_def vledger_def)

lemma US_cancel_ledger: "vledger s \<Longrightarrow> vledger (userver_stop_posted s)"
  using vpost_stopped_ledger [of s] by (auto simp: userver_stop_posted_def vstop_def) (simp add: vledger_def userver_cancel_def)

lemma vhandler_ledger:
  assumes "vledger s" and "us_posted s = hs @ h # hs'"
  shows "vledger (userver_run_handler h (s\<lparr>us_posted := hs @ hs'\<rparr>))"
proof -
  have ledger: "\<not> is_vstopped h \<Longrightarrow> vledger (s\<lparr>us_posted := hs @ hs'\<rparr>)" using assms by (simp add: vledger_drop)
  show ?thesis
  proof (cases h)
    case (US_stopped k)
    with assms show ?thesis by (simp add: vledger_def)
  qed (use ledger in \<open>simp_all add: US_cancel_ledger US_start_vstop US_on_send_vstop US_on_receive_vstop vstop_ledger\<close>)
qed

lemma userver_step_ledger:
  assumes "userver_step t e s s'" and "vledger s"
  shows "vledger s'"
  using assms(1)
proof cases
  case (stop io_thread k)
  with assms(2) show ?thesis by (cases io_thread) (simp_all add: userver_stop_def vasync_stop_ledger)
next
  case reset
  with assms(2) show ?thesis by (cases s rule: vowed_cases) (simp_all add: userver_reset_def vledger_def)
qed (use assms(2) in \<open>simp_all add: vhandler_ledger, auto simp: userver_async_start_def vledger_def\<close>)

lemma userver_step_vstop:
  assumes "userver_step t False s s'" and "vstop s" and "vcore s"
  shows "vstop s'"
  using assms(1)
proof cases
  case (stop io_thread k)
  with assms(2,3) show ?thesis by (cases io_thread) (simp_all add: userver_stop_def vasync_stop_vstop)
next
  case reset
  with assms(2) show ?thesis
    by (cases s rule: vowed_cases) (simp_all add: userver_reset_def vstop_def vledger_def)
qed (use assms(2) in \<open>simp_all add: vstart_vstop vhandler_vstop, auto simp: vstop_def vledger_def vactive_def vstarts_def\<close>)

section \<open>The replies\<close>

text \<open>
  A handler that is going to look at the buffer finds the request it was called for, and every
  reply so far is that of a registered discoverable to a request that named it.
\<close>

definition answers :: "'ep UdpDiscoveryServer \<Rightarrow> string \<times> 'ep \<Rightarrow> bool" where
  "answers s = (\<lambda>(reply, ep). reply \<noteq> [] \<and> (\<exists>req d. (req, ep) \<in> set (us_requests s) \<and>
     us_discoverables s (take recv_buffer_size req) = Some d \<and> reply = get_reply d ep))"

definition vdata :: "'ep UdpDiscoveryServer \<Rightarrow> bool" where
  "vdata s \<longleftrightarrow>
     (\<forall>n. US_on_receive No_error n \<in> set (us_posted s) \<longrightarrow>
        (\<exists>req. (req, us_remote_endpoint s) \<in> set (us_requests s) \<and> take n (us_recv_buffer s) = take recv_buffer_size req)) \<and>
     (\<forall>r \<in> set (us_replies s). answers s r)"

lemma vdata_frame [simp]:
  "vdata (vset f s) = vdata s" "vdata (vclear f s) = vdata s" "vdata (s\<lparr>us_receives := n\<rparr>) = vdata s"
  "vdata (s\<lparr>us_sends := rs\<rparr>) = vdata s" "vdata (s\<lparr>us_on_stopped := k\<rparr>) = vdata s"
  "vdata (s\<lparr>us_stop_requests := n\<rparr>) = vdata s" "vdata (s\<lparr>us_stopped_calls := ks\<rparr>) = vdata s"
  "vdata (s\<lparr>us_flags := fl\<rparr>) = vdata s" "\<not> is_vreceive h \<Longrightarrow> vdata (vpost h s) = vdata s"
  "vdata (userver_post_stopped s) = vdata s" "vdata (userver_resolve_on_stopped s) = vdata s"
  by (auto simp: vdata_def answers_def)

lemma vdata_drop: "us_posted s = hs @ h # hs' \<Longrightarrow> vdata s \<Longrightarrow> vdata (s\<lparr>us_posted := hs @ hs'\<rparr>)"
  by (auto simp: vdata_def answers_def)

lemma vdata_cancel: "vdata s \<Longrightarrow> vdata (userver_cancel s)"
  by (auto simp: vdata_def answers_def userver_cancel_def)

lemma vdata_add: "vdata s \<Longrightarrow> vdata (add_discoverable d s)"
  by (fastforce simp: vdata_def answers_def add_discoverable_def split: option.split)

lemma US_on_receive_data:
  assumes "vdata s" and "us_posted s = hs @ US_on_receive e n # hs'"
  shows "vdata (userver_handle_receive e n (s\<lparr>us_posted := hs @ hs'\<rparr>))"
proof -
  let ?d = "s\<lparr>us_posted := hs @ hs'\<rparr>"
  have drop: "vdata ?d" by (rule vdata_drop [OF assms(2,1)])
  have reply: "vdata (?d\<lparr>us_replies := us_replies s @ [(r, us_remote_endpoint s)]\<rparr>)"
    if "e = No_error" and r: "r = reply_to (take n (us_recv_buffer s)) ?d" "r \<noteq> []" for r
  proof -
    from assms that(1) obtain req where "(req, us_remote_endpoint s) \<in> set (us_requests s)"
      "take n (us_recv_buffer s) = take recv_buffer_size req" by (auto simp: vdata_def)
    with r have "answers ?d (r, us_remote_endpoint s)"
      by (auto simp: answers_def reply_to_def split: option.splits)
    with drop show ?thesis by (auto simp: vdata_def answers_def)
  qed
  have "vdata ((vset UDS_sending_async ?d)\<lparr>us_sends := x, us_replies := y\<rparr>) = vdata (?d\<lparr>us_replies := y\<rparr>)" for x y
    by (simp add: vdata_def answers_def)
  with drop reply show ?thesis by (simp add: userver_handle_receive_def Let_def)
qed

lemma userver_step_data:
  assumes "userver_step t False s s'" and "vdata s" and "vcore s"
  shows "vdata s'"
  using assms(1)
proof cases
  case (handler hs h hs')
  with vdata_drop [OF handler(2) assms(2)] assms(2) show ?thesis
    by (cases h) (simp_all add: US_on_receive_data vdata_cancel userver_start_posted_def start_receive_def
        userver_stop_posted_def userver_handle_send_def)
next
  case (received n d ep)
  have "jobs is_vreceive (us_posted s) = 0"
    using assms(3) received by (cases "vget UDS_receiving_async s") (simp_all add: vcore_def)
  then have "US_on_receive e m \<notin> set (us_posted s)" for e m by (auto simp: jobs_0)
  moreover have "answers s r \<Longrightarrow> answers s' r" for r using received by (cases r) (auto simp: answers_def)
  ultimately show ?thesis using received assms(2) by (auto simp: vdata_def)
next
  case (receive_failed n)
  with assms(2) show ?thesis by (auto simp: vdata_def answers_def)
qed (use assms(2) in \<open>simp_all add: vdata_add userver_async_start_def userver_stop_def userver_async_stop_def userver_reset_def\<close>)

definition userver_inv :: "'ep UdpDiscoveryServer \<Rightarrow> bool" where
  "userver_inv s \<longleftrightarrow> vcore s \<and> vstop s \<and> vdata s"

interpretation udp_server: stop_protocol userver_init "userver_step False False" userver_inv us_stop_requests vowed
  "\<lambda>s. jobs is_vstopped (us_posted s)" "\<lambda>s. length (us_stopped_calls s)" userver_idle
proof unfold_locales
  show "userver_init s \<Longrightarrow> userver_inv s" for s :: "'ep UdpDiscoveryServer"
    by (auto simp: userver_inv_def userver_init_def UdpDiscoveryServer_new_def vcore_def vstop_def vledger_def vdata_def
        vowed_def vstarts_def)
  show "userver_inv s \<Longrightarrow> userver_step False False s s' \<Longrightarrow> userver_inv s'" for s s' :: "'ep UdpDiscoveryServer"
    by (simp add: userver_inv_def userver_step_core userver_step_vstop userver_step_data)
  show "userver_inv s \<Longrightarrow> vowed s + jobs is_vstopped (us_posted s) + length (us_stopped_calls s) = us_stop_requests s"
    for s :: "'ep UdpDiscoveryServer" by (simp add: userver_inv_def vstop_def vledger_def)
  show "userver_inv s \<Longrightarrow> userver_idle s \<Longrightarrow> vowed s = 0 \<and> jobs is_vstopped (us_posted s) = 0"
    for s :: "'ep UdpDiscoveryServer"
    by (cases s rule: vowed_cases; cases "vget UDS_sending_async s"; cases "vget UDS_receiving_async s")
      (simp_all add: userver_inv_def userver_idle_def vcore_def vstop_def vactive_def vstarts_def)
qed

section \<open>Properties\<close>

text \<open>The stop protocol of the discovery server over any number of restarts: never
  more stopped callbacks than accepted stop requests, and exactly as many when nothing is queued or
  outstanding, whatever errors the sends and receives ended with.\<close>

theorem udp_server_stop:
  assumes "reachable userver_init (userver_step False False) s"
  shows "length (us_stopped_calls s) \<le> us_stop_requests s \<and>
    (us_posted s = [] \<and> us_receives s = 0 \<and> us_sends s = [] \<longrightarrow> length (us_stopped_calls s) = us_stop_requests s)"
  using udp_server.called_at_most_requests [OF assms] udp_server.idle_called [OF assms] by (simp add: userver_idle_def)

text \<open>Property C22. A started discovery server keeps listening until it is stopped: it has exactly
  one receive outstanding or being handled (or its start is queued), after errors and unknown
  requests too; and everything it sends is the non-empty reply of a registered discoverable to a
  request with that identifier, sent to where that request came from. The server is reset only when
  nothing of it is queued or outstanding.\<close>

theorem udp_server_listens:
  assumes "reachable userver_init (userver_step False False) s"
  shows "(get_flag (uds UDS_running) (us_flags s) \<and> \<not> get_flag (uds UDS_stopping) (us_flags s) \<longrightarrow>
      us_receives s + jobs is_vreceive (us_posted s) + jobs (\<lambda>h. h = US_start) (us_posted s) = 1) \<and>
    (\<forall>(reply, ep) \<in> set (us_replies s). reply \<noteq> [] \<and> (\<exists>req d. (req, ep) \<in> set (us_requests s) \<and>
      us_discoverables s (take recv_buffer_size req) = Some d \<and> reply = get_reply d ep))"
proof -
  have inv: "vcore s" "vdata s" using udp_server.reachable_inv [OF assms] by (simp_all add: userver_inv_def)
  have "us_receives s + jobs is_vreceive (us_posted s) + jobs (\<lambda>h. h = US_start) (us_posted s) = 1"
    if "vget UDS_running s" "\<not> vget UDS_stopping s"
    using inv(1) that by (cases "vget UDS_receiving_async s") (simp_all add: vcore_def vstarts_def)
  with inv(2) show ?thesis by (auto simp: vdata_def answers_def)
qed

lemma discoverables_add: "us_discoverables (fold add_discoverable ds s) i =
    (case us_discoverables s i of None \<Rightarrow> find (\<lambda>d. get_identifier d = i) ds | Some d \<Rightarrow> Some d)"
proof (induction ds arbitrary: s)
  case (Cons d ds)
  then show ?case by (auto simp: add_discoverable_def split: option.split)
qed (simp split: option.split)

text \<open>Property C33. Which discoverable answers: when \<open>ds\<close> were added to a new server in this order,
  a request is answered by the first of them that has its identifier, and a request nobody has, or
  whose reply is empty, is not answered.\<close>

theorem udp_server_answers:
  assumes "us_discoverables s = us_discoverables (fold add_discoverable ds (UdpDiscoveryServer_new ep0 p))"
    and "0 < n"
  shows "us_sends (userver_handle_receive No_error n s) = us_sends s @
    (case find (\<lambda>d. get_identifier d = take n (us_recv_buffer s)) ds of
       None \<Rightarrow> []
     | Some d \<Rightarrow> if get_reply d (us_remote_endpoint s) = [] then []
                 else [(get_reply d (us_remote_endpoint s), us_remote_endpoint s)])"
proof -
  have "us_discoverables s i = find (\<lambda>d. get_identifier d = i) ds" for i
    using assms(1) by (simp add: discoverables_add UdpDiscoveryServer_new_def)
  then show ?thesis
    using assms(2) by (auto simp: userver_handle_receive_def reply_to_def Let_def split: option.split)
qed

section \<open>Runs\<close>

definition userver_run_next :: "'ep UdpDiscoveryServer \<Rightarrow> 'ep UdpDiscoveryServer" where
  "userver_run_next s = (case us_posted s of [] \<Rightarrow> s | h # hs \<Rightarrow> userver_run_handler h (s\<lparr>us_posted := hs\<rparr>))"

lemma reachable_userver_run_next:
  "reachable ini (userver_step t e) s \<Longrightarrow> reachable ini (userver_step t e) (userver_run_next s)"
proof (cases "us_posted s")
  case (Cons h hs)
  assume "reachable ini (userver_step t e) s"
  moreover have "userver_step t e s (userver_run_handler h (s\<lparr>us_posted := [] @ hs\<rparr>))"
    by (rule userver_step.handler) (simp_all add: Cons)
  ultimately show ?thesis using Cons by (simp add: userver_run_next_def reachable.more)
qed (simp add: userver_run_next_def)

lemma reachable_userver_calls:
  "reachable ini (userver_step t e) s \<Longrightarrow> reachable ini (userver_step t e) (snd (userver_async_start s))"
  "reachable ini (userver_step t e) s \<Longrightarrow> reachable ini (userver_step t e) (snd (userver_stop b j s))"
  "reachable ini (userver_step t e) s \<Longrightarrow> reachable ini (userver_step t e) (add_discoverable d s)"
  by (auto intro: reachable.more userver_step.intros)

lemma reachable_userver_new: "reachable userver_init (userver_step t e) (UdpDiscoveryServer_new ep p)"
  by (rule reachable.start) (auto simp: userver_init_def)

definition us_received :: "string \<Rightarrow> nat UdpDiscoveryServer \<Rightarrow> nat UdpDiscoveryServer" where
  "us_received d s = vpost (US_on_receive No_error (datagram_size d))
     (s\<lparr>us_receives := us_receives s - 1, us_recv_buffer := store_datagram d (us_recv_buffer s), us_remote_endpoint := 5,
        us_requests := us_requests s @ [(d, 5)]\<rparr>)"

lemma reachable_us_received: "reachable ini (userver_step t e) s \<Longrightarrow> 0 < us_receives s \<Longrightarrow> reachable ini (userver_step t e) (us_received d s)"
  using reachable.more [of ini "userver_step t e" s "us_received d s"] userver_step.received [of s "us_receives s - 1" t e d 5]
  by (simp add: us_received_def)

definition example_discoverable :: "nat Discoverable" where
  "example_discoverable = Discoverable_new ''svc'' (\<lambda>_. ''here'')"

text \<open>A server that has answered one request; the reply is being sent.\<close>

definition answering_server :: "nat UdpDiscoveryServer" where
  "answering_server = userver_run_next (us_received ''svc''
     (userver_run_next (snd (userver_async_start (add_discoverable example_discoverable (UdpDiscoveryServer_new 0 12345))))))"

lemmas userver_run_defs = userver_run_next_def us_received_def userver_async_start_def userver_start_posted_def
  start_receive_def add_discoverable_def example_discoverable_def Discoverable_new_def get_identifier_def get_reply_def
  reply_to_def userver_handle_receive_def userver_handle_send_def userver_stop_def userver_async_stop_def
  userver_stop_posted_def userver_cancel_def userver_resolve_on_stopped_def userver_post_stopped_def
  UdpDiscoveryServer_new_def vset_def vclear_def vpost_def udp_flags.flag_laws Let_def

lemma svc_stored: "datagram_size ''svc'' = 3" "take 3 (store_datagram ''svc'' buf) = ''svc''"
  using take_store_datagram [of "''svc''" buf]
  by (simp_all add: datagram_size_def recv_buffer_size_def numeral_3_eq_3)

lemma answering_server_reachable: "reachable userver_init (userver_step t e) answering_server"
  unfolding answering_server_def
  by (intro reachable_userver_run_next reachable_us_received reachable_userver_calls reachable_userver_new)
    (simp add: userver_run_defs)

lemma answering_server_state:
  "us_posted answering_server = []" "us_receives answering_server = 1" "us_sends answering_server = [(''here'', 5)]"
  "us_replies answering_server = [(''here'', 5)]" "us_requests answering_server = [(''svc'', 5)]"
  "us_on_stopped answering_server = None" "us_stopped_calls answering_server = []" "us_stop_requests answering_server = 0"
  "us_discoverables answering_server = [''svc'' \<mapsto> example_discoverable]"
  "vget f answering_server \<longleftrightarrow> f \<in> {UDS_running, UDS_receiving_async, UDS_sending_async}"
  by (simp_all add: answering_server_def userver_run_defs svc_stored) auto

theorem udp_server_listens_witness:
  "us_receives answering_server = 1 \<and> get_reply example_discoverable 5 = ''here''"
proof -
  from udp_server_listens [OF answering_server_reachable]
  obtain d where "us_discoverables answering_server (take recv_buffer_size ''svc'') = Some d" "''here'' = get_reply d 5"
    by (auto simp: answering_server_state)
  then have "get_reply example_discoverable 5 = ''here''"
    by (simp add: answering_server_state recv_buffer_size_def)
  with answering_server_state(2) show ?thesis by simp
qed

definition stopped_userver :: "nat UdpDiscoveryServer" where
  "stopped_userver = userver_run_next (userver_run_next (snd (userver_stop False 7 (UdpDiscoveryServer_new 0 12345))))"

theorem udp_server_stop_witness: "length (us_stopped_calls stopped_userver) = 1"
proof -
  have "reachable userver_init (userver_step False False) stopped_userver"
    unfolding stopped_userver_def by (intro reachable_userver_run_next reachable_userver_calls reachable_userver_new)
  moreover have "us_posted stopped_userver = [] \<and> us_receives stopped_userver = 0 \<and> us_sends stopped_userver = []"
    "us_stop_requests stopped_userver = 1"
    by (simp_all add: stopped_userver_def userver_run_defs)
  ultimately show ?thesis using udp_server_stop [of stopped_userver] by simp
qed

theorem udp_server_answers_witness:
  "us_sends (userver_handle_receive No_error 3 ((fold add_discoverable [example_discoverable, Discoverable_new ''svc'' (\<lambda>_. ''there'')]
      (UdpDiscoveryServer_new 0 12345))\<lparr>us_recv_buffer := store_datagram ''svc'' []\<rparr>)) = [(''here'', 0)]"
  (is "us_sends (userver_handle_receive No_error 3 (?s\<lparr>us_recv_buffer := _\<rparr>)) = _")
proof -
  have "us_sends ?s = []" "us_remote_endpoint ?s = 0"
    by (simp_all add: userver_run_defs)
  then show ?thesis
    using udp_server_answers [of "?s\<lparr>us_recv_buffer := store_datagram ''svc'' []\<rparr>"
        "[example_discoverable, Discoverable_new ''svc'' (\<lambda>_. ''there'')]" 0 12345 3]
    by (simp add: svc_stored) (simp add: example_discoverable_def Discoverable_new_def get_identifier_def get_reply_def)
qed

text \<open>
  One flag stands for several sends: with a reply outstanding, a request handled after the
  cancellation starts another send, and the completion of the first one clears the flag. On one
  thread the stopped callback has run and a send of the server is still outstanding.
\<close>

theorem udp_server_send_after_stop:
  "\<exists>s :: nat UdpDiscoveryServer. reachable userver_init (userver_step True False) s \<and> us_stopped_calls s = [k] \<and>
    us_posted s = [] \<and> us_sends s = [(''here'', 5)]"
proof -
  let ?s = "us_received ''svc'' (snd (userver_stop False k answering_server))"
  let ?c = "userver_run_next (userver_run_next (userver_run_next (userver_run_next ?s)))"
  have "0 < us_receives (snd (userver_stop False k answering_server))"
    using answering_server_state by (simp add: userver_run_defs)
  then have "reachable userver_init (userver_step True False) ?s"
    by (simp only: reachable_us_received reachable_userver_calls answering_server_reachable)
  then have "reachable userver_init (userver_step True False) ?c" by (intro reachable_userver_run_next)
  moreover have "us_stopped_calls ?c = [k] \<and> us_posted ?c = [] \<and> us_sends ?c = [(''here'', 5)]"
    using answering_server_state by (simp add: userver_run_defs svc_stored)
  ultimately show ?thesis by blast
qed

end
