(* ===== verification/Udp_Drain.thy ===== *)
theory Udp_Drain
  imports Draining Udp_Discovery_Client Udp_Discovery_Server
begin

text \<open>
  Stopping a UDP discovery server or client terminates: what may still run after the request is
  bounded by a potential of the state, for the client together with the datagrams that still arrive.
\<close>

section \<open>Server\<close>

inductive userver_internal :: "'ep UdpDiscoveryServer \<Rightarrow> 'ep UdpDiscoveryServer \<Rightarrow> bool" where
  handler: "us_posted s = hs @ h # hs' \<Longrightarrow> userver_internal s (userver_run_handler h (s\<lparr>us_posted := hs @ hs'\<rparr>))"
| received: "us_receives s = Suc n \<Longrightarrow>
    userver_internal s (vpost (US_on_receive No_error (datagram_size d))
      (s\<lparr>us_receives := n, us_recv_buffer := store_datagram d (us_recv_buffer s), us_remote_endpoint := ep,
         us_requests := us_requests s @ [(d, ep)]\<rparr>))"
| receive_failed: "us_receives s = Suc n \<Longrightarrow>
    userver_internal s (vpost (US_on_receive Other_error 0) (s\<lparr>us_receives := n\<rparr>))"
| sent: "us_sends s = rs @ r # rs' \<Longrightarrow> e \<noteq> Operation_aborted \<Longrightarrow>
    userver_internal s (vpost (US_on_send e) (s\<lparr>us_sends := rs @ rs'\<rparr>))"

lemma userver_internal_step: "userver_internal s s' \<Longrightarrow> userver_step False False s s'"
  by (erule userver_internal.cases) (auto intro: userver_step.intros)

fun userver_handler_work :: "userver_handler \<Rightarrow> nat" where
  "userver_handler_work (US_on_receive _ _) = 4"
| "userver_handler_work (US_on_send _) = 2"
| "userver_handler_work _ = 1"

definition userver_work :: "'ep UdpDiscoveryServer \<Rightarrow> nat" where
  "userver_work s = total userver_handler_work (us_posted s) + 5 * us_receives s + 3 * length (us_sends s) + vowed s"

lemma userver_work_frame [simp]:
  "userver_work (vset f s) = userver_work s" "userver_work (vclear f s) = userver_work s"
  "userver_work (s\<lparr>us_replies := rs\<rparr>) = userver_work s" "userver_work (s\<lparr>us_stopped_calls := ks\<rparr>) = userver_work s"
  "userver_work (vpost h s) = userver_work s + userver_handler_work h"
  by (simp_all add: userver_work_def)

lemma userver_work_post_stopped [simp]: "userver_work (userver_post_stopped s) = userver_work s"
  by (cases s rule: vowed_cases) (simp_all add: userver_post_stopped_def userver_work_def)

lemma userver_work_resolve [simp]: "userver_work (userver_resolve_on_stopped s) = userver_work s"
  by (simp add: userver_resolve_on_stopped_def)

lemma userver_work_cancel: "userver_work (userver_cancel s) \<le> userver_work s"
  by (simp add: userver_work_def userver_cancel_def vowed_def)

lemma userver_receive_work:
  assumes "vget UDS_stopping s"
  shows "userver_work (userver_handle_receive e n s) \<le> userver_work s + 3"
proof -
  have "userver_work ((vset UDS_sending_async s)\<lparr>us_sends := us_sends s @ [r], us_replies := qs\<rparr>) = userver_work s + 3"
    for r qs by (simp add: userver_work_def)
  with assms show ?thesis by (simp add: userver_handle_receive_def Let_def)
qed

lemma userver_work_decreases:
  assumes "userver_internal s s'" and "vget UDS_stopping s"
  shows "userver_work s' < userver_work s"
  using assms(1)
proof cases
  case (handler hs h hs')
  let ?d = "s\<lparr>us_posted := hs @ hs'\<rparr>"
  have drop: "userver_work s = userver_work ?d + userver_handler_work h" using handler(2) by (simp add: userver_work_def)
  have "userver_work (userver_run_handler h ?d) < userver_work ?d + userver_handler_work h"
  proof (cases h)
    case US_cancel
    with userver_work_cancel [of ?d] show ?thesis by (simp add: userver_stop_posted_def)
  next
    case (US_on_receive e n)
    with userver_receive_work [of ?d e n] assms(2) show ?thesis by simp
  qed (use assms(2) in \<open>simp_all add: userver_start_posted_def userver_handle_send_def\<close>)
  with drop handler(1) show ?thesis by simp
qed (simp_all add: userver_work_def)

lemma userver_handler_frame:
  "vget UDS_stopping (userver_run_handler h s) = vget UDS_stopping s \<and>
   us_stop_requests (userver_run_handler h s) = us_stop_requests s"
proof -
  have "us_stop_requests (userver_post_stopped s) = us_stop_requests s" for s :: "'a UdpDiscoveryServer"
    by (simp add: userver_post_stopped_def split: option.split)
  then have "us_stop_requests (userver_resolve_on_stopped s) = us_stop_requests s" for s :: "'a UdpDiscoveryServer"
    by (simp add: userver_resolve_on_stopped_def)
  with \<open>us_stop_requests (userver_post_stopped s) = us_stop_requests s\<close> show ?thesis
    by (cases h) (simp_all add: userver_start_posted_def start_receive_def userver_stop_posted_def userver_cancel_def
        userver_handle_receive_def userver_handle_send_def Let_def)
qed

lemma userver_internal_frame:
  "userver_internal s s' \<Longrightarrow> vget UDS_stopping s' = vget UDS_stopping s \<and> us_stop_requests s' = us_stop_requests s"
  by (erule userver_internal.cases) (simp_all add: userver_handler_frame)

lemma userver_internal_enabled:
  assumes "\<not> userver_idle s"
  shows "\<exists>s'. userver_internal s s'"
proof -
  consider h hs where "us_posted s = [] @ h # hs" | n where "us_receives s = Suc n" | r rs where "us_sends s = [] @ r # rs"
    using assms by (auto simp: userver_idle_def neq_Nil_conv gr0_conv_Suc)
  then show ?thesis by cases (blast intro: userver_internal.intros)+
qed

interpretation userver_drain: draining userver_internal "\<lambda>s. userver_inv s \<and> vget UDS_stopping s" us_stop_requests
  "\<lambda>s. length (us_stopped_calls s)" userver_work "\<lambda>s. 0"
proof unfold_locales
  fix s s' :: "'ep UdpDiscoveryServer"
  assume stopping: "userver_inv s \<and> vget UDS_stopping s"
  show "userver_inv s' \<and> vget UDS_stopping s'" if "userver_internal s s'"
    using stopping udp_server.inv_step [OF _ userver_internal_step [OF that]] userver_internal_frame [OF that] by simp
  show "userver_work s' + 0 < userver_work s + 0" if "userver_internal s s'"
    using stopping userver_work_decreases [OF that] by simp
  show "us_stop_requests s' = us_stop_requests s" if "userver_internal s s'" using userver_internal_frame [OF that] by simp
  show "length (us_stopped_calls s) \<le> us_stop_requests s" using stopping udp_server.balance [of s] by simp
  show "\<exists>s'. userver_internal s s'" if "length (us_stopped_calls s) < us_stop_requests s"
    using stopping that udp_server.balance [of s] udp_server.idle_settled [of s] by (intro userver_internal_enabled) auto
qed

text \<open>Property C23. Stopping a UDP server terminates: after the request every run of handlers and completions has at
  most \<open>userver_work\<close> steps, the answer to a request that was received just before included, and while a
  requested callback is missing there is a handler to run or an operation to complete. Earlier resets, if any, were made
  with nothing of the server queued or outstanding.\<close>

theorem udp_server_stop_terminates:
  assumes "reachable userver_init (userver_step False False) s" and "get_flag (uds UDS_stopping) (us_flags s)"
    and "(userver_internal ^^ n) s s'"
  shows "n \<le> userver_work s \<and> length (us_stopped_calls s') \<le> us_stop_requests s \<and>
    (length (us_stopped_calls s') < us_stop_requests s \<longrightarrow> us_posted s' \<noteq> [] \<or> us_receives s' \<noteq> 0 \<or> us_sends s' \<noteq> [])"
proof -
  have stopping: "userver_inv s \<and> vget UDS_stopping s" using assms(1,2) udp_server.reachable_inv by blast
  note run = userver_drain.run_bounded [OF stopping assms(3)]
  then have "\<not> userver_idle s'" if "length (us_stopped_calls s') < us_stop_requests s"
    using that udp_server.balance [of s'] udp_server.idle_settled [of s'] by auto
  then show ?thesis using userver_drain.drains [OF stopping assms(3)] by (auto simp: userver_idle_def)
qed

section \<open>Client\<close>

inductive uclient_internal :: "'ep UdpDiscoveryClient \<Rightarrow> 'ep UdpDiscoveryClient \<Rightarrow> bool" where
  handler: "uc_posted c = hs @ h # hs' \<Longrightarrow> uclient_internal c (uclient_run_handler h (c\<lparr>uc_posted := hs @ hs'\<rparr>))"
| sent: "uc_sends c = Suc n \<Longrightarrow> uclient_internal c (upost (UC_on_send No_error) (c\<lparr>uc_sends := n\<rparr>))"
| send_failed: "uc_sends c = Suc n \<Longrightarrow>
    uclient_internal c (upost (UC_on_send Other_error) (c\<lparr>uc_sends := n, uc_failed := True\<rparr>))"
| received: "uc_receives c = Suc n \<Longrightarrow>
    uclient_internal c (upost (UC_on_response No_error (datagram_size d))
      (c\<lparr>uc_receives := n, uc_recv_buffer := store_datagram d (uc_recv_buffer c), uc_remote_endpoint := Some ep,
         uc_datagrams := uc_datagrams c @ [(d, ep)]\<rparr>))"
| receive_failed: "uc_receives c = Suc n \<Longrightarrow>
    uclient_internal c (upost (UC_on_response Other_error 0) (c\<lparr>uc_receives := n\<rparr>))"
| expired: "uc_waits c = Suc n \<Longrightarrow> uclient_internal c (upost (UC_on_timeout No_error) (c\<lparr>uc_waits := n\<rparr>))"
| wait_failed: "uc_waits c = Suc n \<Longrightarrow>
    uclient_internal c (upost (UC_on_timeout Other_error) (c\<lparr>uc_waits := n, uc_failed := True\<rparr>))"

lemma uclient_internal_step: "uclient_internal c c' \<Longrightarrow> uclient_step False False c c'"
  by (erule uclient_internal.cases) (auto intro: uclient_step.intros)

text \<open>A received datagram makes the client receive again, even when it is stopping: each one
  pays for the handler it starts and the receive that follows.\<close>

fun uclient_handler_work :: "uclient_handler \<Rightarrow> nat" where
  "uclient_handler_work (UC_on_timeout _) = 4"
| "uclient_handler_work (UC_on_send _) = 2"
| "uclient_handler_work (UC_on_response e _) = (if e = No_error then 3 else 1)"
| "uclient_handler_work _ = 1"

definition uclient_work :: "'ep UdpDiscoveryClient \<Rightarrow> nat" where
  "uclient_work c = total uclient_handler_work (uc_posted c) + 5 * uc_waits c + 3 * uc_sends c + 2 * uc_receives c + uowed c"

definition uclient_inputs :: "'ep UdpDiscoveryClient \<Rightarrow> nat" where
  "uclient_inputs c = 2 * length (uc_datagrams c)"

lemma uclient_work_frame [simp]:
  "uclient_work (uset f c) = uclient_work c" "uclient_work (uclear f c) = uclient_work c"
  "uclient_work (c\<lparr>uc_responses := rs\<rparr>) = uclient_work c" "uclient_work (c\<lparr>uc_stopped_calls := ks\<rparr>) = uclient_work c"
  "uclient_work (upost h c) = uclient_work c + uclient_handler_work h"
  "uclient_work (send_discovery_request c) = uclient_work c + 3"
  "uclient_work (uclient_async_receive c) = uclient_work c + 2"
  by (simp_all add: uclient_work_def uclient_async_receive_def)

lemma uclient_work_post_stopped [simp]: "uclient_work (uclient_post_stopped c) = uclient_work c"
  by (cases c rule: uowed_cases) (simp_all add: uclient_post_stopped_def uclient_work_def)

lemma uclient_work_resolve [simp]: "uclient_work (uclient_resolve_on_stopped c) = uclient_work c"
  by (simp add: uclient_resolve_on_stopped_def)

lemma uclient_work_cancel: "uclient_work (uclient_cancel c) \<le> uclient_work c"
  by (simp add: uclient_work_def uclient_cancel_def uowed_def)

lemma uclient_handler_frame:
  "uget UDS_stopping (uclient_run_handler h c) = uget UDS_stopping c"
  "uc_stop_requests (uclient_run_handler h c) = uc_stop_requests c"
  "uc_datagrams (uclient_run_handler h c) = uc_datagrams c"
  by (cases h; simp add: uclient_start_posted_def uclient_stop_posted_def uclient_post_stopped_def uclient_cancel_def
      handle_send_complete_def handle_response_def handle_timeout_def uclient_resolve_on_stopped_def Let_def
      uclient_async_receive_def split: option.split)+

lemma uclient_handler_work_decreases:
  assumes "uget UDS_stopping c" and "uc_posted c = hs @ h # hs'"
  shows "uclient_work (uclient_run_handler h (c\<lparr>uc_posted := hs @ hs'\<rparr>)) < uclient_work c"
proof -
  let ?d = "c\<lparr>uc_posted := hs @ hs'\<rparr>"
  have drop: "uclient_work c = uclient_work ?d + uclient_handler_work h" using assms(2) by (simp add: uclient_work_def)
  have "uclient_work (uclient_run_handler h ?d) < uclient_work ?d + uclient_handler_work h"
  proof (cases h)
    case UC_cancel
    with uclient_work_cancel [of ?d] show ?thesis by (simp add: uclient_stop_posted_def)
  qed (use assms(1) in \<open>simp_all add: uclient_start_posted_def handle_send_complete_def handle_response_def
      handle_timeout_def Let_def\<close>)
  with drop show ?thesis by simp
qed

lemma uclient_work_decreases:
  assumes "uclient_internal c c'" and "uget UDS_stopping c"
  shows "uclient_work c' + uclient_inputs c < uclient_work c + uclient_inputs c'"
  using assms(1)
proof cases
  case (handler hs h hs')
  with uclient_handler_work_decreases [OF assms(2)] show ?thesis by (simp add: uclient_inputs_def uclient_handler_frame)
qed (simp_all add: uclient_work_def uclient_inputs_def)

text \<open>A stopping client: its callback is owed only while something that will resolve it is under way.\<close>

definition uclient_living :: "'ep UdpDiscoveryClient \<Rightarrow> bool" where
  "uclient_living c \<longleftrightarrow> ustarts c = 1 \<or> uget UDS_sending_async c \<or> uget UDS_timer_running c \<or> uget UDS_receiving_async c \<or>
     \<not> uget UDS_running c \<and> jobs (\<lambda>h. h = UC_cancel) (uc_posted c) \<noteq> 0"

definition uclient_stopping :: "'ep UdpDiscoveryClient \<Rightarrow> bool" where
  "uclient_stopping c \<longleftrightarrow> uclient_inv c \<and> uget UDS_stopping c \<and> (uowed c = 0 \<or> uclient_living c)"

lemma uclient_async_receive_flags [simp]: "uc_flags (uclient_async_receive c) = uc_flags c"
  by (simp add: uclient_async_receive_def)

lemma uclient_resolve_living:
  "uget UDS_stopping c \<Longrightarrow> uowed (uclient_resolve_on_stopped c) = 0 \<or> uclient_living (uclient_resolve_on_stopped c)"
  by (auto simp: uclient_resolve_on_stopped_def uclient_living_def)

lemma uclient_handler_living:
  assumes "uget UDS_stopping c" and "uc_posted c = hs @ h # hs'" and "uowed c = 0 \<or> uclient_living c" 
  shows "uowed (uclient_run_handler h (c\<lparr>uc_posted := hs @ hs'\<rparr>)) = 0 \<or>
    uclient_living (uclient_run_handler h (c\<lparr>uc_posted := hs @ hs'\<rparr>))"
proof (cases h)
  case UC_cancel
  have "ustarts (uclient_cancel d) = ustarts d" "uc_flags (uclient_cancel d) = uc_flags d" "uowed (uclient_cancel d) = uowed d"
    for d :: "'a UdpDiscoveryClient" by (simp_all add: uclient_cancel_def ustarts_def)
  with UC_cancel assms show ?thesis by (auto simp: uclient_stop_posted_def uclient_living_def ustarts_def)
next
  case (UC_stopped k)
  with assms show ?thesis by (auto simp: uclient_living_def ustarts_def)
qed (use assms(1) in \<open>simp_all add: uclient_start_posted_def handle_send_complete_def handle_response_def handle_timeout_def
    Let_def uclient_resolve_living\<close>)

lemma uclient_internal_frame:
  "uclient_internal c c' \<Longrightarrow> uget UDS_stopping c' = uget UDS_stopping c \<and> uc_stop_requests c' = uc_stop_requests c"
  by (erule uclient_internal.cases) (simp_all add: uclient_handler_frame)

lemma uclient_internal_stopping:
  assumes "uclient_internal c c'" and "uclient_stopping c"
  shows "uclient_stopping c'"
proof -
  have "uclient_inv c'"
    using udp_client.inv_step [OF _ uclient_internal_step [OF assms(1)]] assms(2) by (simp add: uclient_stopping_def)
  moreover from assms(1) have "uowed c' = 0 \<or> uclient_living c'"
  proof cases
    case (handler hs h hs')
    with uclient_handler_living [of c hs h hs'] assms(2) show ?thesis by (simp add: uclient_stopping_def)
  qed (use assms(2) in \<open>auto simp: uclient_stopping_def uclient_living_def\<close>)
  ultimately show ?thesis using assms(2) uclient_internal_frame [OF assms(1)] by (simp add: uclient_stopping_def)
qed

lemma uclient_internal_enabled:
  assumes "\<not> uclient_idle c"
  shows "\<exists>c'. uclient_internal c c'"
proof -
  consider h hs where "uc_posted c = [] @ h # hs" | n where "uc_receives c = Suc n" | n where "uc_sends c = Suc n"
    | n where "uc_waits c = Suc n"
    using assms by (auto simp: uclient_idle_def neq_Nil_conv gr0_conv_Suc)
  then show ?thesis by cases (blast intro: uclient_internal.intros)+
qed

lemma uclient_stopping_pending:
  assumes "uclient_stopping c" and "length (uc_stopped_calls c) < uc_stop_requests c"
  shows "\<not> uclient_idle c"
proof
  assume idle: "uclient_idle c"
  have inv: "ucore c" "ustop c" using assms(1) by (simp_all add: uclient_stopping_def uclient_inv_def)
  have "uowed c \<noteq> 0" using inv(2) idle assms(2) by (simp add: ustop_def uledger_def uclient_idle_def)
  moreover have "\<not> uclient_living c" using inv(1) idle by (auto simp: ucore_def uclient_idle_def uclient_living_def ustarts_def)
  ultimately show False using assms(1) by (simp add: uclient_stopping_def)
qed

interpretation uclient_drain: draining uclient_internal uclient_stopping uc_stop_requests
  "\<lambda>c. length (uc_stopped_calls c)" uclient_work uclient_inputs
proof unfold_locales
  fix c c' :: "'ep UdpDiscoveryClient"
  assume stopping: "uclient_stopping c"
  then have inv: "uclient_inv c" "uget UDS_stopping c" by (simp_all add: uclient_stopping_def)
  show "uclient_stopping c'" if "uclient_internal c c'" using that stopping by (rule uclient_internal_stopping)
  show "uclient_work c' + uclient_inputs c < uclient_work c + uclient_inputs c'" if "uclient_internal c c'"
    using that inv(2) by (rule uclient_work_decreases)
  show "uc_stop_requests c' = uc_stop_requests c" if "uclient_internal c c'" using uclient_internal_frame [OF that] by simp
  show "length (uc_stopped_calls c) \<le> uc_stop_requests c" using udp_client.balance [OF inv(1)] by simp
  show "\<exists>c'. uclient_internal c c'" if "length (uc_stopped_calls c) < uc_stop_requests c"
    by (rule uclient_internal_enabled [OF uclient_stopping_pending [OF stopping that]])
qed

text \<open>Property C24. Stopping a UDP client that was running undisturbed terminates: what runs after the request is
  bounded by a potential and twice the number of datagrams that still arrive, since each of them makes the client receive
  again; and while a requested callback is missing there is a handler to run or an operation to complete. Earlier
  resets, if any, were made with nothing of the client queued or outstanding.\<close>

theorem udp_client_stop_terminates:
  assumes "reachable uclient_init (uclient_step False False) c" and "get_flag (uds UDS_stopping) (uc_flags c)" and "\<not> uc_failed c"
    and "(uclient_internal ^^ n) c c'"
  shows "n + 2 * length (uc_datagrams c) \<le> uclient_work c + 2 * length (uc_datagrams c') \<and>
    length (uc_stopped_calls c') \<le> uc_stop_requests c \<and>
    (length (uc_stopped_calls c') < uc_stop_requests c \<longrightarrow>
      uc_posted c' \<noteq> [] \<or> uc_receives c' \<noteq> 0 \<or> uc_sends c' \<noteq> 0 \<or> uc_waits c' \<noteq> 0)"
proof -
  have "uclient_inv c" by (rule udp_client.reachable_inv [OF assms(1)])
  moreover from this have "uowed c = 1 \<longrightarrow> uclient_living c"
    using assms(3) by (simp add: uclient_inv_def ustop_def uactive_def uclient_living_def)
  then have "uowed c = 0 \<or> uclient_living c" by (cases c rule: uowed_cases) simp_all
  ultimately have stopping: "uclient_stopping c" using assms(2) by (simp add: uclient_stopping_def)
  note run = uclient_drain.run_bounded [OF stopping assms(4)]
  then have "\<not> uclient_idle c'" if "length (uc_stopped_calls c') < uc_stop_requests c"
    using that by (intro uclient_stopping_pending) simp_all
  then show ?thesis using uclient_drain.drains [OF stopping assms(4)] by (auto simp: uclient_idle_def uclient_inputs_def)
qed

section \<open>Runs\<close>

text \<open>A server that is stopped while it sends a reply, and a client that is stopped while it sends its request.\<close>

definition stopping_userver :: "nat UdpDiscoveryServer" where
  "stopping_userver = snd (userver_stop False 7 answering_server)"

lemma userver_internal_next: "us_posted s \<noteq> [] \<Longrightarrow> userver_internal s (userver_run_next s)"
  using userver_internal.handler [of s "[]"] by (cases "us_posted s") (simp_all add: userver_run_next_def)

lemma stopping_userver_run:
  "(userver_internal ^^ 3) stopping_userver (userver_run_next (userver_run_next (userver_run_next stopping_userver)))"
proof -
  have "us_posted stopping_userver \<noteq> []" "us_posted (userver_run_next stopping_userver) \<noteq> []"
    "us_posted (userver_run_next (userver_run_next stopping_userver)) \<noteq> []"
    using answering_server_state by (simp_all add: stopping_userver_def userver_run_defs)
  from this [THEN userver_internal_next] show ?thesis by (rule relpowp_3)
qed

theorem udp_server_stop_terminates_witness: "3 \<le> userver_work stopping_userver"
proof -
  have "reachable userver_init (userver_step False False) stopping_userver"
    unfolding stopping_userver_def by (intro reachable_userver_calls answering_server_reachable)
  moreover have "vget UDS_stopping stopping_userver"
    using answering_server_state by (simp add: stopping_userver_def userver_run_defs)
  ultimately show ?thesis using udp_server_stop_terminates [OF _ _ stopping_userver_run] by blast
qed

definition stopping_uclient :: "nat UdpDiscoveryClient" where
  "stopping_uclient = snd (uclient_stop False 7 started_uclient)"

lemma uclient_internal_next: "uc_posted c \<noteq> [] \<Longrightarrow> uclient_internal c (uclient_run_next c)"
  using uclient_internal.handler [of c "[]"] by (cases "uc_posted c") (simp_all add: uclient_run_next_def)

lemma stopping_uclient_run:
  "(uclient_internal ^^ 3) stopping_uclient (uclient_run_next (uclient_run_next (uclient_run_next stopping_uclient)))"
proof -
  have "uc_posted stopping_uclient \<noteq> []" "uc_posted (uclient_run_next stopping_uclient) \<noteq> []"
    "uc_posted (uclient_run_next (uclient_run_next stopping_uclient)) \<noteq> []"
    using started_uclient_state by (simp_all add: stopping_uclient_def uclient_run_defs)
  from this [THEN uclient_internal_next] show ?thesis by (rule relpowp_3)
qed

theorem udp_client_stop_terminates_witness:
  "3 + 2 * length (uc_datagrams stopping_uclient) \<le> uclient_work stopping_uclient +
    2 * length (uc_datagrams (uclient_run_next (uclient_run_next (uclient_run_next stopping_uclient))))"
proof -
  have "reachable uclient_init (uclient_step False False) stopping_uclient"
    unfolding stopping_uclient_def by (intro reachable_uclient_calls started_uclient_reachable)
  moreover have "uget UDS_stopping stopping_uclient" "\<not> uc_failed stopping_uclient"
    using started_uclient_state
    by (simp_all add: stopping_uclient_def uclient_run_defs) (simp add: started_uclient_def uclient_run_next_def
      uclient_async_start_def UdpDiscoveryClient_new_def uclient_start_posted_def uclient_async_receive_def
      send_discovery_request_def uset_def upost_def udp_flags.flag_laws)
  ultimately show ?thesis using udp_client_stop_terminates [OF _ _ _ stopping_uclient_run] by blast
qed

end
