(* ===== verification/Stop_Refinement.thy ===== *)
theory Stop_Refinement
  imports Stop_Spec Tcp_Drain Udp_Drain
begin

text \<open>
  The TCP connection, server and client and the UDP discovery client and server implement the stop
  contract of \<^theory_text>\<open>Stop_Spec\<close>. For each: the callbacks that wait, what every operation does to them,
  and the interpretation of the proof rule.
\<close>

section \<open>TCP connection\<close>

fun conn_stop_callback :: "conn_handler \<Rightarrow> nat option" where
  "conn_stop_callback (H_stopped k) = Some k"
| "conn_stop_callback _ = None"

definition conn_waiting :: "Conn \<Rightarrow> nat list" where
  "conn_waiting c = waiting_for (disconnected_callback c) conn_stop_callback (posted c)"

definition conn_stop_state :: "Conn \<Rightarrow> stop_phase \<times> nat list" where
  "conn_stop_state c = (phase_of (get TCS_stop_signaled c) (conn_waiting c), stopped_calls c)"

definition conn_view :: "Conn \<Rightarrow> bool \<times> nat multiset \<times> nat list" where
  "conn_view c = (get TCS_stop_signaled c, mset (conn_waiting c), stopped_calls c)"

lemmas conn_view_defs = conn_view_def conn_waiting_def waiting_simps

lemma conn_view_frame [simp]:
  "conn_view (c\<lparr>reads := r\<rparr>) = conn_view c" "conn_view (c\<lparr>receive_buffer := b\<rparr>) = conn_view c"
  "conn_view (c\<lparr>send_buffer := b\<rparr>) = conn_view c" "conn_view (c\<lparr>wire := w\<rparr>) = conn_view c"
  "conn_view (c\<lparr>queued := w\<rparr>) = conn_view c" "conn_view (c\<lparr>lost_calls := n\<rparr>) = conn_view c"
  "conn_view (c\<lparr>writes := ws\<rparr>) = conn_view c" "conn_view (c\<lparr>write_failed := e\<rparr>) = conn_view c"
  "conn_view (c\<lparr>connection_lost_callback := l\<rparr>) = conn_view c" "conn_view (c\<lparr>data_received_callback := d\<rparr>) = conn_view c"
  "f \<noteq> TCS_stop_signaled \<Longrightarrow> conn_view (set_f f c) = conn_view c"
  "f \<noteq> TCS_stop_signaled \<Longrightarrow> conn_view (clear_f f c) = conn_view c"
  "conn_stop_callback h = None \<Longrightarrow> conn_view (post h c) = conn_view c"
  by (auto simp: conn_view_defs)

lemma conn_view_drop:
  "posted c = hs @ h # hs' \<Longrightarrow> conn_stop_callback h = None \<Longrightarrow> conn_view (c\<lparr>posted := hs @ hs'\<rparr>) = conn_view c"
  by (simp add: conn_view_defs)

lemma conn_view_resolve [simp]: "conn_view (resolve_on_stopped c) = conn_view c"
  by (simp add: resolve_on_stopped_def conn_view_defs split: option.split)

lemma conn_view_async [simp]:
  "conn_view (async_send c) = conn_view c" "conn_view (async_receive c) = conn_view c"
  "conn_view (send_posted c) = conn_view c" "conn_view (on_send e n c) = conn_view c" "conn_view (on_receive e n c) = conn_view c"
  by (simp_all add: async_send_def async_receive_def send_posted_def on_send_def on_receive_def Let_def
      split: prod.split option.split)

lemma conn_view_cancel [simp]:
  "conn_view (socket_cancel c) = conn_view c" "conn_view (cancel_async_operations c) = conn_view c"
proof -
  show cancel: "conn_view (socket_cancel c) = conn_view c"
    by (simp add: socket_cancel_def conn_view_defs case_prod_unfold)
  show "conn_view (cancel_async_operations c) = conn_view c"
    by (simp add: cancel_async_operations_def cancel)
qed

lemma conn_view_handler:
  assumes "posted c = hs @ h # hs'"
  shows "stop_effect False (conn_view c) (conn_view (run_handler h (c\<lparr>posted := hs @ hs'\<rparr>)))"
proof (cases "conn_stop_callback h")
  case None
  then show ?thesis using conn_view_drop [OF assms] by (cases h) (simp_all add: stop_effect.keeps)
next
  case (Some k)
  then have "h = H_stopped k" by (cases h) simp_all
  with assms stop_effect.calls show ?thesis by (simp add: conn_view_defs)
qed

lemma conn_view_stop:
  assumes "flags_inv c"
  shows "stop_effect False (conn_view c) (conn_view (snd (async_stop k c)))"
proof (cases "get TCS_stop_signaled c")
  case False
  then have "disconnected_callback c = None" using assms by (simp add: flags_inv_def owed_def split: if_splits)
  with False stop_effect.registers show ?thesis by (simp add: async_stop_def conn_view_defs)
qed (simp add: async_stop_def stop_effect.keeps)

lemma conn_view_step:
  assumes "conn_step c c'" and "flags_inv c"
  shows "stop_effect False (conn_view c) (conn_view c')"
  using assms(1)
proof cases
  case (blocking_stop is_on_io_thread k)
  with conn_view_stop [OF assms(2)] show ?thesis by (simp add: connection_stop_def stop_effect.keeps)
qed (simp_all add: conn_view_stop [OF assms(2)] conn_view_handler call_queue_send_function_def start_sending_def
    start_receiving_def setter_defs stop_effect.keeps)

interpretation conn_stop: stop_implementation conn_init conn_step conn_inv async_stop "get TCS_stop_signaled" conn_waiting
  stopped_calls False
proof unfold_locales
  show "conn_inv c \<Longrightarrow> conn_step c c' \<Longrightarrow>
      stop_effect False (get TCS_stop_signaled c, mset (conn_waiting c), stopped_calls c)
        (get TCS_stop_signaled c', mset (conn_waiting c'), stopped_calls c')" for c c'
    using conn_view_step [of c c'] by (simp add: conn_inv_def conn_view_def)
  show "fst (async_stop k c) \<Longrightarrow> \<not> get TCS_stop_signaled c \<and> get TCS_stop_signaled (snd (async_stop k c)) \<and>
      (conn_waiting c = [] \<longrightarrow> conn_waiting (snd (async_stop k c)) = [k]) \<and> stopped_calls (snd (async_stop k c)) = stopped_calls c" for k c
    by (auto simp: async_stop_def conn_waiting_def waiting_simps split: if_splits)
qed (auto simp: conn_init_def TcpConnection_new_def conn_waiting_def waiting_simps async_stop_def)

section \<open>TCP server\<close>

fun server_stop_callback :: "server_handler \<Rightarrow> nat option" where
  "server_stop_callback (SH_stopped k) = Some k"
| "server_stop_callback _ = None"

definition server_waiting :: "Server \<Rightarrow> nat list" where
  "server_waiting s = waiting_for (stopped_callback s) server_stop_callback (srv_posted s)"

definition server_stop_state :: "Server \<Rightarrow> stop_phase \<times> nat list" where
  "server_stop_state s = (phase_of (sget TSS_stop_signaled s) (server_waiting s), srv_stopped_calls s)"

definition server_view :: "Server \<Rightarrow> bool \<times> nat multiset \<times> nat list" where
  "server_view s = (sget TSS_stop_signaled s, mset (server_waiting s), srv_stopped_calls s)"

lemmas server_view_defs = server_view_def server_waiting_def waiting_simps

lemma server_view_frame [simp]:
  "server_view (s\<lparr>srv_accepts := n\<rparr>) = server_view s" "server_view (s\<lparr>srv_delivered := ds\<rparr>) = server_view s"
  "server_view (s\<lparr>srv_dropped := n\<rparr>) = server_view s" "server_view (s\<lparr>srv_accept_failed := b\<rparr>) = server_view s"
  "server_view (s\<lparr>connection_callback := b\<rparr>) = server_view s"
  "f \<noteq> TSS_stop_signaled \<Longrightarrow> server_view (sset f s) = server_view s"
  "f \<noteq> TSS_stop_signaled \<Longrightarrow> server_view (sclear f s) = server_view s"
  "server_stop_callback h = None \<Longrightarrow> server_view (spost h s) = server_view s"
  by (auto simp: server_view_defs)

lemma server_view_drop:
  "srv_posted s = hs @ h # hs' \<Longrightarrow> server_stop_callback h = None \<Longrightarrow> server_view (s\<lparr>srv_posted := hs @ hs'\<rparr>) = server_view s"
  by (simp add: server_view_defs)

lemma server_view_resolve [simp]: "server_view (server_resolve_on_stopped s) = server_view s"
  by (simp add: server_resolve_on_stopped_def server_view_defs split: option.split)

lemma server_view_cancel [simp]: "server_view (acceptor_cancel s) = server_view s"
  by (simp add: acceptor_cancel_def server_view_defs)

lemma server_view_async [simp]:
  "server_view (async_accept s) = server_view s" "server_view (stop_posted s) = server_view s"
  "server_view (Tcp_Server.handle_accept e s) = server_view s"
  by (simp_all add: async_accept_def stop_posted_def Tcp_Server.handle_accept_def Let_def)

lemma server_view_handler:
  assumes "srv_posted s = hs @ h # hs'"
  shows "stop_effect False (server_view s) (server_view (server_run_handler h (s\<lparr>srv_posted := hs @ hs'\<rparr>)))"
proof (cases "server_stop_callback h")
  case None
  then show ?thesis using server_view_drop [OF assms] by (cases h) (simp_all add: stop_effect.keeps)
next
  case (Some k)
  then have "h = SH_stopped k" by (cases h) simp_all
  with assms stop_effect.calls show ?thesis by (simp add: server_view_defs)
qed

lemma server_view_stop:
  assumes "server_inv s"
  shows "stop_effect False (server_view s) (server_view (snd (server_async_stop k s)))"
proof (cases "sget TSS_stop_signaled s \<or> \<not> sget TSS_start_signaled s")
  case False
  then have "stopped_callback s = None" using assms by (simp add: server_inv_def server_owed_def split: if_splits)
  with False stop_effect.registers show ?thesis by (simp add: server_async_stop_def server_view_defs)
qed (simp add: server_async_stop_def stop_effect.keeps)

lemma server_view_step:
  assumes "server_step t s s'" and "server_inv s"
  shows "stop_effect False (server_view s) (server_view s')"
  using assms(1)
proof cases
  case (stop io_thread k)
  with server_view_stop [OF assms(2)] show ?thesis by (simp add: server_stop_def stop_effect.keeps)
qed (simp_all add: server_view_handler server_async_start_def set_connection_callback_def stop_effect.keeps)

interpretation server_stop: stop_implementation server_init "server_step False" server_inv server_async_stop
  "sget TSS_stop_signaled" server_waiting srv_stopped_calls False
proof unfold_locales
  show "server_inv s \<Longrightarrow> server_step False s s' \<Longrightarrow>
      stop_effect False (sget TSS_stop_signaled s, mset (server_waiting s), srv_stopped_calls s)
        (sget TSS_stop_signaled s', mset (server_waiting s'), srv_stopped_calls s')" for s s'
    using server_view_step [of False s s'] by (simp add: server_view_def)
  show "fst (server_async_stop k s) \<Longrightarrow> \<not> sget TSS_stop_signaled s \<and> sget TSS_stop_signaled (snd (server_async_stop k s)) \<and>
      (server_waiting s = [] \<longrightarrow> server_waiting (snd (server_async_stop k s)) = [k]) \<and>
      srv_stopped_calls (snd (server_async_stop k s)) = srv_stopped_calls s" for k s
    by (auto simp: server_async_stop_def server_waiting_def waiting_simps split: if_splits)
qed (auto simp: server_init_def TcpServer_new_def server_waiting_def waiting_simps server_async_stop_def)

section \<open>TCP client\<close>

fun client_stop_callback :: "'e client_handler \<Rightarrow> nat option" where
  "client_stop_callback (CH_stopped k) = Some k"
| "client_stop_callback _ = None"

definition client_waiting :: "'e Client \<Rightarrow> nat list" where
  "client_waiting c = waiting_for (on_stopped c) client_stop_callback (cl_posted c)"

definition client_stop_state :: "'e Client \<Rightarrow> stop_phase \<times> nat list" where
  "client_stop_state c = (phase_of (cget CLS_stop_singaled c) (client_waiting c), cl_stopped_calls c)"

definition client_view :: "'e Client \<Rightarrow> bool \<times> nat multiset \<times> nat list" where
  "client_view c = (cget CLS_stop_singaled c, mset (client_waiting c), cl_stopped_calls c)"

lemmas client_view_defs = client_view_def client_waiting_def waiting_simps

lemma client_view_frame [simp]:
  "client_view (c\<lparr>on_connection_complete := j\<rparr>) = client_view c" "client_view (c\<lparr>cl_resolves := rs\<rparr>) = client_view c"
  "client_view (c\<lparr>cl_connects := cs\<rparr>) = client_view c" "client_view (c\<lparr>attempts := n\<rparr>) = client_view c"
  "client_view (c\<lparr>completions := ks\<rparr>) = client_view c"
  "f \<noteq> CLS_stop_singaled \<Longrightarrow> client_view (cset f c) = client_view c"
  "f \<noteq> CLS_stop_singaled \<Longrightarrow> client_view (cclear f c) = client_view c"
  "client_stop_callback h = None \<Longrightarrow> client_view (cpost h c) = client_view c"
  by (auto simp: client_view_defs)

lemma client_view_drop:
  "cl_posted c = hs @ h # hs' \<Longrightarrow> client_stop_callback h = None \<Longrightarrow> client_view (c\<lparr>cl_posted := hs @ hs'\<rparr>) = client_view c"
  by (simp add: client_view_defs)

lemma client_view_resolve [simp]: "client_view (client_resolve_on_stopped c) = client_view c"
  by (simp add: client_resolve_on_stopped_def client_view_defs split: option.split)

lemma client_view_cancel [simp]: "client_view (client_cancel c) = client_view c"
  by (simp add: client_cancel_def client_view_defs)

lemma client_view_completion [simp]: "client_view (post_completion e c) = client_view c"
  by (simp add: post_completion_def split: option.split)

lemma client_view_async [simp]:
  "client_view (client_async_resolve a p c) = client_view c" "client_view (client_stop_posted c) = client_view c"
  "client_view (handle_resolve e es c) = client_view c" "client_view (handle_connect e c) = client_view c"
  "client_view (snd (client_async_connect a p k c)) = client_view c"
  by (simp_all add: client_async_resolve_def client_stop_posted_def handle_resolve_def handle_connect_def
      client_async_connect_def Let_def split: option.split)

lemma client_view_handler:
  assumes "cl_posted c = hs @ h # hs'"
  shows "stop_effect True (client_view c) (client_view (client_run_handler h (c\<lparr>cl_posted := hs @ hs'\<rparr>)))"
proof (cases "client_stop_callback h")
  case None
  then show ?thesis using client_view_drop [OF assms] by (cases h) (simp_all add: stop_effect.keeps)
next
  case (Some k)
  then have "h = CH_stopped k" by (cases h) simp_all
  with assms stop_effect.calls show ?thesis by (simp add: client_view_defs)
qed

lemma client_view_stop:
  assumes "stop_inv c"
  shows "stop_effect True (client_view c) (client_view (snd (client_async_stop k c)))"
proof (cases "cget CLS_stop_singaled c")
  case False
  then have "on_stopped c = None" using assms by (cases c rule: stop_owed_cases) (simp_all add: stop_inv_def)
  with False stop_effect.registers show ?thesis by (simp add: client_async_stop_def client_view_defs)
qed (simp add: client_async_stop_def stop_effect.keeps)

text \<open>\<open>reset\<close> is allowed once every callback has been called, so none waits.\<close>

lemma client_all_called:
  assumes "stop_inv c" and "length (cl_stopped_calls c) = stop_requests c"
  shows "client_waiting c = []"
proof -
  have "on_stopped c = None" "jobs is_client_stopped (cl_posted c) = 0"
    using assms by (cases c rule: stop_owed_cases; simp add: stop_inv_def)+
  moreover have "is_client_stopped h" if "client_stop_callback h \<noteq> None" for h :: "'a client_handler"
    using that by (cases h) simp_all
  ultimately show ?thesis
    using no_waiting [of is_client_stopped "cl_posted c" client_stop_callback] by (simp add: client_waiting_def)
qed

lemma client_view_reset:
  assumes "stop_inv c" and "length (cl_stopped_calls c) = stop_requests c"
  shows "stop_effect True (client_view c) (client_view (client_reset c))"
  using client_all_called [OF assms] stop_effect.resets [of True]
  by (simp add: client_view_def client_waiting_def client_reset_def)

lemma client_view_step:
  assumes "client_step t r c c'" and "stop_inv c"
  shows "stop_effect True (client_view c) (client_view c')"
  using assms(1)
proof cases
  case (stop io_thread k)
  with client_view_stop [OF assms(2)] show ?thesis by (simp add: client_stop_def stop_effect.keeps)
qed (simp_all add: client_view_handler client_view_reset [OF assms(2)] stop_effect.keeps)

interpretation client_stop: stop_implementation client_init "client_step False True" client_inv client_async_stop
  "cget CLS_stop_singaled" client_waiting cl_stopped_calls True
proof unfold_locales
  show "client_inv c \<Longrightarrow> client_step False True c c' \<Longrightarrow>
      stop_effect True (cget CLS_stop_singaled c, mset (client_waiting c), cl_stopped_calls c)
        (cget CLS_stop_singaled c', mset (client_waiting c'), cl_stopped_calls c')" for c c' :: "'a Client"
    using client_view_step [of False True c c'] by (simp add: client_view_def client_inv_def)
  show "fst (client_async_stop k c) \<Longrightarrow> \<not> cget CLS_stop_singaled c \<and> cget CLS_stop_singaled (snd (client_async_stop k c)) \<and>
      (client_waiting c = [] \<longrightarrow> client_waiting (snd (client_async_stop k c)) = [k]) \<and>
      cl_stopped_calls (snd (client_async_stop k c)) = cl_stopped_calls c" for k and c :: "'a Client"
    by (auto simp: client_async_stop_def client_waiting_def waiting_simps split: if_splits)
qed (auto simp: client_init_def TcpClient_new_def client_waiting_def waiting_simps client_async_stop_def)

section \<open>UDP discovery client\<close>

fun uclient_stop_callback :: "uclient_handler \<Rightarrow> nat option" where
  "uclient_stop_callback (UC_stopped k) = Some k"
| "uclient_stop_callback _ = None"

definition uclient_waiting :: "'ep UdpDiscoveryClient \<Rightarrow> nat list" where
  "uclient_waiting c = waiting_for (uc_on_stopped c) uclient_stop_callback (uc_posted c)"

definition uclient_stop_state :: "'ep UdpDiscoveryClient \<Rightarrow> stop_phase \<times> nat list" where
  "uclient_stop_state c = (phase_of (uget UDS_stopping c) (uclient_waiting c), uc_stopped_calls c)"

definition uclient_view :: "'ep UdpDiscoveryClient \<Rightarrow> bool \<times> nat multiset \<times> nat list" where
  "uclient_view c = (uget UDS_stopping c, mset (uclient_waiting c), uc_stopped_calls c)"

lemmas uclient_view_defs = uclient_view_def uclient_waiting_def waiting_simps

lemma uclient_view_frame [simp]:
  "uclient_view (c\<lparr>uc_receives := n\<rparr>) = uclient_view c" "uclient_view (c\<lparr>uc_sends := n\<rparr>) = uclient_view c"
  "uclient_view (c\<lparr>uc_waits := n\<rparr>) = uclient_view c" "uclient_view (c\<lparr>uc_failed := b\<rparr>) = uclient_view c"
  "uclient_view (c\<lparr>uc_requests_sent := rs\<rparr>) = uclient_view c" "uclient_view (c\<lparr>uc_datagrams := ds\<rparr>) = uclient_view c"
  "uclient_view (c\<lparr>uc_responses := qs\<rparr>) = uclient_view c" "uclient_view (c\<lparr>uc_recv_buffer := b'\<rparr>) = uclient_view c"
  "uclient_view (c\<lparr>uc_remote_endpoint := ep\<rparr>) = uclient_view c"
  "f \<noteq> UDS_stopping \<Longrightarrow> uclient_view (uset f c) = uclient_view c"
  "f \<noteq> UDS_stopping \<Longrightarrow> uclient_view (uclear f c) = uclient_view c"
  "uclient_stop_callback h = None \<Longrightarrow> uclient_view (upost h c) = uclient_view c"
  by (auto simp: uclient_view_defs)

lemma uclient_view_drop:
  "uc_posted c = hs @ h # hs' \<Longrightarrow> uclient_stop_callback h = None \<Longrightarrow> uclient_view (c\<lparr>uc_posted := hs @ hs'\<rparr>) = uclient_view c"
  by (simp add: uclient_view_defs)

lemma uclient_view_post_stopped [simp]: "uclient_view (uclient_post_stopped c) = uclient_view c"
  by (simp add: uclient_post_stopped_def uclient_view_defs split: option.split)

lemma uclient_view_resolve [simp]: "uclient_view (uclient_resolve_on_stopped c) = uclient_view c"
  by (simp add: uclient_resolve_on_stopped_def)

lemma uclient_view_cancel [simp]: "uclient_view (uclient_cancel c) = uclient_view c"
  by (simp add: uclient_cancel_def uclient_view_defs)

lemma uclient_view_operation [simp]:
  "uclient_view (uclient_async_receive c) = uclient_view c" "uclient_view (send_discovery_request c) = uclient_view c"
  by (simp_all add: uclient_async_receive_def send_discovery_request_def)

lemma uclient_view_async [simp]:
  "uclient_view (uclient_start_posted c) = uclient_view c" "uclient_view (uclient_stop_posted c) = uclient_view c"
  "uclient_view (handle_send_complete e c) = uclient_view c" "uclient_view (handle_response e n c) = uclient_view c"
  "uclient_view (handle_timeout e c) = uclient_view c" "uclient_view (snd (uclient_async_start c)) = uclient_view c"
  by (simp_all add: uclient_start_posted_def uclient_stop_posted_def handle_send_complete_def handle_response_def
      handle_timeout_def uclient_async_start_def Let_def)

lemma uclient_view_handler:
  assumes "uc_posted c = hs @ h # hs'"
  shows "stop_effect True (uclient_view c) (uclient_view (uclient_run_handler h (c\<lparr>uc_posted := hs @ hs'\<rparr>)))"
proof (cases "uclient_stop_callback h")
  case None
  then show ?thesis using uclient_view_drop [OF assms] by (cases h) (simp_all add: stop_effect.keeps)
next
  case (Some k)
  then have "h = UC_stopped k" by (cases h) simp_all
  with assms stop_effect.calls show ?thesis by (simp add: uclient_view_defs)
qed

lemma uclient_view_stop:
  assumes "uledger c"
  shows "stop_effect True (uclient_view c) (uclient_view (snd (uclient_async_stop k c)))"
proof (cases "uget UDS_stopping c")
  case False
  then have "uc_on_stopped c = None" using assms by (cases c rule: uowed_cases) (simp_all add: uledger_def)
  with False stop_effect.registers show ?thesis by (simp add: uclient_async_stop_def uclient_view_defs)
qed (simp add: uclient_async_stop_def stop_effect.keeps)

lemma uclient_all_called:
  assumes "uledger c" and "length (uc_stopped_calls c) = uc_stop_requests c"
  shows "uclient_waiting c = []"
proof -
  have "uc_on_stopped c = None" "jobs is_ustopped (uc_posted c) = 0"
    using assms by (cases c rule: uowed_cases; simp add: uledger_def)+
  moreover have "is_ustopped h" if "uclient_stop_callback h \<noteq> None" for h using that by (cases h) simp_all
  ultimately show ?thesis
    using no_waiting [of is_ustopped "uc_posted c" uclient_stop_callback] by (simp add: uclient_waiting_def)
qed

lemma uclient_view_reset:
  assumes "uledger c" and "length (uc_stopped_calls c) = uc_stop_requests c"
  shows "stop_effect True (uclient_view c) (uclient_view (uclient_reset c))"
  using uclient_all_called [OF assms] stop_effect.resets [of True]
  by (simp add: uclient_view_def uclient_waiting_def uclient_reset_def)

lemma uclient_view_step:
  assumes "uclient_step t e c c'" and "uledger c"
  shows "stop_effect True (uclient_view c) (uclient_view c')"
  using assms(1)
proof cases
  case (stop io_thread k)
  with uclient_view_stop [OF assms(2)] show ?thesis by (simp add: uclient_stop_def stop_effect.keeps)
qed (simp_all add: uclient_view_handler uclient_view_reset [OF assms(2)] stop_effect.keeps)

interpretation uclient_stop: stop_implementation uclient_init "uclient_step False True" uledger uclient_async_stop
  "uget UDS_stopping" uclient_waiting uc_stopped_calls True
proof unfold_locales
  show "uledger c" if "uclient_init c" for c :: "'a UdpDiscoveryClient"
    using uclient_init_inv [OF that] by (simp add: ustop_def)
  show "uledger c \<Longrightarrow> uclient_step False True c c' \<Longrightarrow> uledger c'" for c c' :: "'a UdpDiscoveryClient"
    by (rule uclient_step_ledger)
  show "uledger c \<Longrightarrow> uclient_step False True c c' \<Longrightarrow>
      stop_effect True (uget UDS_stopping c, mset (uclient_waiting c), uc_stopped_calls c)
        (uget UDS_stopping c', mset (uclient_waiting c'), uc_stopped_calls c')" for c c' :: "'a UdpDiscoveryClient"
    using uclient_view_step [of False True c c'] by (simp add: uclient_view_def)
  show "fst (uclient_async_stop k c) \<Longrightarrow> \<not> uget UDS_stopping c \<and> uget UDS_stopping (snd (uclient_async_stop k c)) \<and>
      (uclient_waiting c = [] \<longrightarrow> uclient_waiting (snd (uclient_async_stop k c)) = [k]) \<and>
      uc_stopped_calls (snd (uclient_async_stop k c)) = uc_stopped_calls c" for k and c :: "'a UdpDiscoveryClient"
    by (auto simp: uclient_async_stop_def uclient_waiting_def waiting_simps split: if_splits)
qed (auto simp: uclient_init_def UdpDiscoveryClient_new_def uclient_waiting_def waiting_simps uclient_async_stop_def)

section \<open>UDP discovery server\<close>

fun userver_stop_callback :: "userver_handler \<Rightarrow> nat option" where
  "userver_stop_callback (US_stopped k) = Some k"
| "userver_stop_callback _ = None"

definition userver_waiting :: "'ep UdpDiscoveryServer \<Rightarrow> nat list" where
  "userver_waiting s = waiting_for (us_on_stopped s) userver_stop_callback (us_posted s)"

definition userver_stop_state :: "'ep UdpDiscoveryServer \<Rightarrow> stop_phase \<times> nat list" where
  "userver_stop_state s = (phase_of (vget UDS_stopping s) (userver_waiting s), us_stopped_calls s)"

definition userver_view :: "'ep UdpDiscoveryServer \<Rightarrow> bool \<times> nat multiset \<times> nat list" where
  "userver_view s = (vget UDS_stopping s, mset (userver_waiting s), us_stopped_calls s)"

lemmas userver_view_defs = userver_view_def userver_waiting_def waiting_simps

lemma userver_view_frame [simp]:
  "userver_view (s\<lparr>us_receives := n\<rparr>) = userver_view s" "userver_view (s\<lparr>us_sends := rs\<rparr>) = userver_view s"
  "userver_view (s\<lparr>us_requests := qs\<rparr>) = userver_view s" "userver_view (s\<lparr>us_replies := qs\<rparr>) = userver_view s"
  "userver_view (s\<lparr>us_recv_buffer := b'\<rparr>) = userver_view s" "userver_view (s\<lparr>us_remote_endpoint := ep\<rparr>) = userver_view s"
  "userver_view (s\<lparr>us_discoverables := ds\<rparr>) = userver_view s"
  "f \<noteq> UDS_stopping \<Longrightarrow> userver_view (vset f s) = userver_view s"
  "f \<noteq> UDS_stopping \<Longrightarrow> userver_view (vclear f s) = userver_view s"
  "userver_stop_callback h = None \<Longrightarrow> userver_view (vpost h s) = userver_view s"
  by (auto simp: userver_view_defs)

lemma userver_view_drop:
  "us_posted s = hs @ h # hs' \<Longrightarrow> userver_stop_callback h = None \<Longrightarrow> userver_view (s\<lparr>us_posted := hs @ hs'\<rparr>) = userver_view s"
  by (simp add: userver_view_defs)

lemma userver_view_post_stopped [simp]: "userver_view (userver_post_stopped s) = userver_view s"
  by (simp add: userver_post_stopped_def userver_view_defs split: option.split)

lemma userver_view_resolve [simp]: "userver_view (userver_resolve_on_stopped s) = userver_view s"
  by (simp add: userver_resolve_on_stopped_def)

lemma userver_view_cancel [simp]: "userver_view (userver_cancel s) = userver_view s"
  by (simp add: userver_cancel_def userver_view_defs)

lemma userver_view_async [simp]:
  "userver_view (userver_start_posted s) = userver_view s" "userver_view (userver_stop_posted s) = userver_view s"
  "userver_view (userver_handle_receive e n s) = userver_view s" "userver_view (userver_handle_send e s) = userver_view s"
  "userver_view (add_discoverable d s) = userver_view s" "userver_view (snd (userver_async_start s)) = userver_view s"
  by (simp_all add: userver_start_posted_def start_receive_def userver_stop_posted_def userver_handle_receive_def
      userver_handle_send_def add_discoverable_def userver_async_start_def Let_def split: option.split)

lemma userver_view_handler:
  assumes "us_posted s = hs @ h # hs'"
  shows "stop_effect True (userver_view s) (userver_view (userver_run_handler h (s\<lparr>us_posted := hs @ hs'\<rparr>)))"
proof (cases "userver_stop_callback h")
  case None
  then show ?thesis using userver_view_drop [OF assms] by (cases h) (simp_all add: stop_effect.keeps)
next
  case (Some k)
  then have "h = US_stopped k" by (cases h) simp_all
  with assms stop_effect.calls show ?thesis by (simp add: userver_view_defs)
qed

lemma userver_view_stop:
  assumes "vledger s"
  shows "stop_effect True (userver_view s) (userver_view (snd (userver_async_stop k s)))"
proof (cases "vget UDS_stopping s")
  case False
  then have "us_on_stopped s = None" using assms by (cases s rule: vowed_cases) (simp_all add: vledger_def)
  with False stop_effect.registers show ?thesis by (simp add: userver_async_stop_def userver_view_defs)
qed (simp add: userver_async_stop_def stop_effect.keeps)

lemma userver_all_called:
  assumes "vledger s" and "length (us_stopped_calls s) = us_stop_requests s"
  shows "userver_waiting s = []"
proof -
  have "us_on_stopped s = None" "jobs is_vstopped (us_posted s) = 0"
    using assms by (cases s rule: vowed_cases; simp add: vledger_def)+
  moreover have "is_vstopped h" if "userver_stop_callback h \<noteq> None" for h using that by (cases h) simp_all
  ultimately show ?thesis
    using no_waiting [of is_vstopped "us_posted s" userver_stop_callback] by (simp add: userver_waiting_def)
qed

lemma userver_view_reset:
  assumes "vledger s" and "length (us_stopped_calls s) = us_stop_requests s"
  shows "stop_effect True (userver_view s) (userver_view (userver_reset s))"
  using userver_all_called [OF assms] stop_effect.resets [of True]
  by (simp add: userver_view_def userver_waiting_def userver_reset_def)

lemma userver_view_step:
  assumes "userver_step t e s s'" and "vledger s"
  shows "stop_effect True (userver_view s) (userver_view s')"
  using assms(1)
proof cases
  case (stop io_thread k)
  with userver_view_stop [OF assms(2)] show ?thesis by (simp add: userver_stop_def stop_effect.keeps)
qed (simp_all add: userver_view_handler userver_view_reset [OF assms(2)] stop_effect.keeps)

interpretation userver_stop: stop_implementation userver_init "userver_step False True" vledger userver_async_stop
  "vget UDS_stopping" userver_waiting us_stopped_calls True
proof unfold_locales
  show "vledger s" if "userver_init s" for s :: "'a UdpDiscoveryServer"
    using that by (auto simp: userver_init_def UdpDiscoveryServer_new_def vledger_def vowed_def)
  show "vledger s \<Longrightarrow> userver_step False True s s' \<Longrightarrow> vledger s'" for s s' :: "'a UdpDiscoveryServer"
    by (rule userver_step_ledger)
  show "vledger s \<Longrightarrow> userver_step False True s s' \<Longrightarrow>
      stop_effect True (vget UDS_stopping s, mset (userver_waiting s), us_stopped_calls s)
        (vget UDS_stopping s', mset (userver_waiting s'), us_stopped_calls s')" for s s' :: "'a UdpDiscoveryServer"
    using userver_view_step [of False True s s'] by (simp add: userver_view_def)
  show "fst (userver_async_stop k s) \<Longrightarrow> \<not> vget UDS_stopping s \<and> vget UDS_stopping (snd (userver_async_stop k s)) \<and>
      (userver_waiting s = [] \<longrightarrow> userver_waiting (snd (userver_async_stop k s)) = [k]) \<and>
      us_stopped_calls (snd (userver_async_stop k s)) = us_stopped_calls s" for k and s :: "'a UdpDiscoveryServer"
    by (auto simp: userver_async_stop_def userver_waiting_def waiting_simps split: if_splits)
qed (auto simp: userver_init_def UdpDiscoveryServer_new_def userver_waiting_def waiting_simps userver_async_stop_def)

section \<open>Property\<close>

lemmas stop_states = conn_stop_state_def [abs_def] server_stop_state_def [abs_def] client_stop_state_def [abs_def]
  uclient_stop_state_def [abs_def] userver_stop_state_def [abs_def]

text \<open>Property C4. The five asynchronous components implement the stop contract under every interleaving:
  \<open>async_stop\<close> returns true only in a running component and then registers exactly the callback it was
  given, and otherwise changes nothing; the only call of a stopped callback that can follow is one
  call of that callback; and a component leaves the stopped phase only by \<open>reset\<close>, which the
  connection and the TCP server do not have. The discovery components are taken with a user who
  resets them as soon as every accepted stop has had its callback.\<close>

theorem stop_contract_refined:
  "refines_stop conn_init conn_step async_stop conn_stop_state False \<and>
   refines_stop server_init (server_step False) server_async_stop server_stop_state False \<and>
   refines_stop client_init (client_step False True) client_async_stop client_stop_state True \<and>
   refines_stop uclient_init (uclient_step False True) uclient_async_stop uclient_stop_state True \<and>
   refines_stop userver_init (userver_step False True) userver_async_stop userver_stop_state True"
  unfolding stop_states
  using conn_stop.refines server_stop.refines client_stop.refines uclient_stop.refines userver_stop.refines by blast

end
