(* ===== verification/Logging.thy ===== *)
theory Logging
  imports Prelude "HOL-Library.Sublist"
begin

text \<open>
  \<open>eestv/logging/eestv_logging.hpp\<close> and \<open>eestv_logging.cpp\<close>: the level filter, the line that the
  logging macros write, and the \<open>constexpr\<close> helpers on C strings.
\<close>

section \<open>Levels\<close>

datatype LogLevel = LL_Error | LL_Warning | LL_Info | LL_Debug | LL_Trace

fun level_int :: "LogLevel \<Rightarrow> int" where
  "level_int LL_Error = 0"
| "level_int LL_Warning = 1"
| "level_int LL_Info = 2"
| "level_int LL_Debug = 3"
| "level_int LL_Trace = 4"

text \<open>The levels are ordered by the values they are cast to.\<close>

instantiation LogLevel :: linorder
begin

definition less_eq_LogLevel :: "LogLevel \<Rightarrow> LogLevel \<Rightarrow> bool" where
  "less_eq_LogLevel a b \<longleftrightarrow> level_int a \<le> level_int b"

definition less_LogLevel :: "LogLevel \<Rightarrow> LogLevel \<Rightarrow> bool" where
  "less_LogLevel a b \<longleftrightarrow> level_int a < level_int b"

instance
proof
  show "a \<le> b \<Longrightarrow> b \<le> a \<Longrightarrow> a = b" for a b :: LogLevel
    by (cases a; cases b) (simp_all add: less_eq_LogLevel_def)
qed (auto simp: less_eq_LogLevel_def less_LogLevel_def)

end

definition initial_log_level :: LogLevel where
  "initial_log_level = LL_Info"

definition should_log :: "LogLevel \<Rightarrow> LogLevel \<Rightarrow> bool" where
  "should_log current_log_level level \<longleftrightarrow> level_int level \<le> level_int current_log_level"

fun get_log_level_name :: "LogLevel \<Rightarrow> string" where
  "get_log_level_name LL_Error = ''ERROR''"
| "get_log_level_name LL_Warning = ''WARNING''"
| "get_log_level_name LL_Info = ''INFO''"
| "get_log_level_name LL_Debug = ''DEBUG''"
| "get_log_level_name LL_Trace = ''TRACE''"

section \<open>C strings\<close>

text \<open>
  A C string is its characters before the terminating zero, and a pointer into it an offset;
  reading at the end gives the zero. The characters themselves are not zero.
\<close>

abbreviation NUL :: char where
  "NUL \<equiv> CHR 0x00"

definition c_char :: "string \<Rightarrow> nat \<Rightarrow> char" where
  "c_char s i = (if i < length s then s ! i else NUL)"

definition c_string :: "string \<Rightarrow> bool" where
  "c_string s \<longleftrightarrow> NUL \<notin> set s"

definition is_path_separator :: "char \<Rightarrow> bool" where
  "is_path_separator c \<longleftrightarrow> c = CHR ''/'' \<or> c = CHR 0x5C"

function find_last_separator :: "string \<Rightarrow> nat \<Rightarrow> nat option \<Rightarrow> nat" where
  "find_last_separator s str last_found =
     (if c_char s str = NUL
      then (case last_found of Some p \<Rightarrow> p | None \<Rightarrow> str)
      else find_last_separator s (str + 1) (if is_path_separator (c_char s str) then Some str else last_found))"
  by pat_completeness auto

termination
  by (relation "measure (\<lambda>(s, str, _). length s - str)") (auto simp: c_char_def split: if_splits)

declare find_last_separator.simps [simp del]

definition get_filename :: "string \<Rightarrow> nat" where
  "get_filename path =
     (let last_sep = find_last_separator path 0 None
      in if is_path_separator (c_char path last_sep) then last_sep + 1 else 0)"

text \<open>The loop of \<open>get_relative_path\<close>: the result is the pair of pointers it ends with, or
  \<^const>\<open>None\<close> at the first difference.\<close>

function match_loop :: "string \<Rightarrow> string \<Rightarrow> nat \<Rightarrow> nat \<Rightarrow> (nat \<times> nat) option" where
  "match_loop file_path source_dir file src =
     (if c_char source_dir src \<noteq> NUL \<and> c_char file_path file \<noteq> NUL
      then
        (if c_char source_dir src \<noteq> c_char file_path file then None
         else match_loop file_path source_dir (file + 1) (src + 1))
      else Some (file, src))"
  by pat_completeness auto

termination
  by (relation "measure (\<lambda>(_, source_dir, _, src). length source_dir - src)") (auto simp: c_char_def split: if_splits)

declare match_loop.simps [simp del]

definition get_relative_path :: "string \<Rightarrow> string \<Rightarrow> nat" where
  "get_relative_path file_path source_dir =
     (case match_loop file_path source_dir 0 0 of
        None \<Rightarrow> 0
      | Some (file, src) \<Rightarrow> if c_char source_dir src = NUL then file else 0)"

section \<open>Log lines\<close>

text \<open>\<open>std::left << std::setw(n)\<close>.\<close>

definition setw_left :: "nat \<Rightarrow> string \<Rightarrow> string" where
  "setw_left n s = s @ replicate (n - length s) (CHR '' '')"

text \<open>A use of \<open>EESTV_LOG_...\<close>: \<open>__FILE__\<close>, \<open>__LINE__\<close>, \<open>__func__\<close> and the message.\<close>

record log_site =
  log_file :: string
  log_line_number :: nat
  log_func :: string
  log_message :: string

definition log_line :: "string \<Rightarrow> LogLevel \<Rightarrow> log_site \<Rightarrow> string" where
  "log_line source_dir level m =
     (let relative_path = drop (get_relative_path (log_file m) source_dir) (log_file m);
          location = relative_path @ '':'' @ to_string_nat (log_line_number m)
      in setw_left 7 (get_log_level_name level) @ '' '' @ setw_left 55 location @ '' ''
           @ setw_left 40 (log_func m) @ '' '' @ log_message m @ [CHR 0x0A])"

text \<open>The macros work on the global level and the lines written to \<open>std::cout\<close>.\<close>

definition EESTV_SET_LOG_LEVEL :: "LogLevel \<Rightarrow> LogLevel \<times> string list \<Rightarrow> LogLevel \<times> string list" where
  "EESTV_SET_LOG_LEVEL level = (\<lambda>(current_log_level, out). (level, out))"

definition EESTV_LOG_ERROR :: "string \<Rightarrow> log_site \<Rightarrow> LogLevel \<times> string list \<Rightarrow> LogLevel \<times> string list" where
  "EESTV_LOG_ERROR source_dir m = (\<lambda>(current_log_level, out).
     if should_log current_log_level LL_Error
     then (current_log_level, out @ [log_line source_dir LL_Error m]) else (current_log_level, out))"

definition EESTV_LOG_WARNING :: "string \<Rightarrow> log_site \<Rightarrow> LogLevel \<times> string list \<Rightarrow> LogLevel \<times> string list" where
  "EESTV_LOG_WARNING source_dir m = (\<lambda>(current_log_level, out).
     if should_log current_log_level LL_Warning
     then (current_log_level, out @ [log_line source_dir LL_Warning m]) else (current_log_level, out))"

definition EESTV_LOG_INFO :: "string \<Rightarrow> log_site \<Rightarrow> LogLevel \<times> string list \<Rightarrow> LogLevel \<times> string list" where
  "EESTV_LOG_INFO source_dir m = (\<lambda>(current_log_level, out).
     if should_log current_log_level LL_Info
     then (current_log_level, out @ [log_line source_dir LL_Info m]) else (current_log_level, out))"

definition EESTV_LOG_DEBUG :: "string \<Rightarrow> log_site \<Rightarrow> LogLevel \<times> string list \<Rightarrow> LogLevel \<times> string list" where
  "EESTV_LOG_DEBUG source_dir m = (\<lambda>(current_log_level, out).
     if should_log current_log_level LL_Debug
     then (current_log_level, out @ [log_line source_dir LL_Debug m]) else (current_log_level, out))"

definition EESTV_LOG_TRACE :: "string \<Rightarrow> log_site \<Rightarrow> LogLevel \<times> string list \<Rightarrow> LogLevel \<times> string list" where
  "EESTV_LOG_TRACE source_dir m = (\<lambda>(current_log_level, out).
     if should_log current_log_level LL_Trace
     then (current_log_level, out @ [log_line source_dir LL_Trace m]) else (current_log_level, out))"

text \<open>What a program does with the log.\<close>

datatype log_action = Set_level LogLevel | Log LogLevel log_site

fun log_step :: "string \<Rightarrow> log_action \<Rightarrow> LogLevel \<times> string list \<Rightarrow> LogLevel \<times> string list" where
  "log_step source_dir (Set_level level) = EESTV_SET_LOG_LEVEL level"
| "log_step source_dir (Log LL_Error m) = EESTV_LOG_ERROR source_dir m"
| "log_step source_dir (Log LL_Warning m) = EESTV_LOG_WARNING source_dir m"
| "log_step source_dir (Log LL_Info m) = EESTV_LOG_INFO source_dir m"
| "log_step source_dir (Log LL_Debug m) = EESTV_LOG_DEBUG source_dir m"
| "log_step source_dir (Log LL_Trace m) = EESTV_LOG_TRACE source_dir m"

lemma log_step_eq:
  "log_step d (Set_level k) (l, out) = (k, out)"
  "log_step d (Log k m) (l, out) = (l, if should_log l k then out @ [log_line d k m] else out)"
  by (cases k; simp add: EESTV_SET_LOG_LEVEL_def EESTV_LOG_ERROR_def EESTV_LOG_WARNING_def EESTV_LOG_INFO_def
      EESTV_LOG_DEBUG_def EESTV_LOG_TRACE_def)+

declare log_step.simps [simp del] log_step_eq [simp]

definition log_run :: "string \<Rightarrow> LogLevel \<Rightarrow> log_action list \<Rightarrow> LogLevel \<times> string list" where
  "log_run source_dir level acts = fold (log_step source_dir) acts (level, [])"

section \<open>The path helpers\<close>

lemma c_char_NUL: "c_string s \<Longrightarrow> c_char s i = NUL \<longleftrightarrow> length s \<le> i"
  by (auto simp: c_char_def c_string_def) (metis nth_mem)

text \<open>The part of a path behind its last separator.\<close>

definition file_part :: "string \<Rightarrow> string" where
  "file_part path = rev (takeWhile (\<lambda>c. \<not> is_path_separator c) (rev path))"

lemma file_part_no_separator: "\<forall>c \<in> set s. \<not> is_path_separator c \<Longrightarrow> file_part s = s"
  by (simp add: file_part_def takeWhile_eq_all_conv [THEN iffD2])

lemma file_part_separator:
  "is_path_separator c \<Longrightarrow> \<forall>x \<in> set s. \<not> is_path_separator x \<Longrightarrow> file_part (r @ c # s) = s"
  using takeWhile_append_stop [of "\<lambda>c. \<not> is_path_separator c" "rev s" "c # rev r"]
  by (simp add: file_part_def list_all_iff)

text \<open>What the accumulator of \<^const>\<open>find_last_separator\<close> says about the part already seen.\<close>

definition last_sep_ok :: "string \<Rightarrow> nat \<Rightarrow> nat option \<Rightarrow> bool" where
  "last_sep_ok s k last_found \<longleftrightarrow>
     (case last_found of
        None \<Rightarrow> \<forall>j < k. \<not> is_path_separator (s ! j)
      | Some p \<Rightarrow> p < k \<and> is_path_separator (s ! p) \<and> (\<forall>j. p < j \<and> j < k \<longrightarrow> \<not> is_path_separator (s ! j)))"

lemma last_sep_ok_Suc:
  "last_sep_ok s k l \<Longrightarrow> last_sep_ok s (Suc k) (if is_path_separator (s ! k) then Some k else l)"
  by (auto simp: last_sep_ok_def less_Suc_eq split: option.splits)

lemma find_last_separator_ok:
  assumes "c_string s" and "k \<le> length s" and "last_sep_ok s k l"
  shows "\<exists>l'. last_sep_ok s (length s) l' \<and>
    find_last_separator s k l = (case l' of Some p \<Rightarrow> p | None \<Rightarrow> length s)"
  using assms(2,3)
proof (induction "length s - k" arbitrary: k l)
  case 0
  then have "c_char s k = NUL" "k = length s" by (simp_all add: c_char_def)
  with 0 show ?case by (intro exI [of _ l]) (simp add: find_last_separator.simps [of s "length s" l])
next
  case (Suc d)
  then have k: "k < length s" by simp
  then have "c_char s k \<noteq> NUL" "c_char s k = s ! k" using c_char_NUL [OF assms(1), of k] by (auto simp: c_char_def)
  then have "find_last_separator s k l = find_last_separator s (Suc k) (if is_path_separator (s ! k) then Some k else l)"
    by (simp add: find_last_separator.simps [of s k l])
  with Suc.hyps(1) [of "Suc k" "if is_path_separator (s ! k) then Some k else l"] Suc.hyps(2) Suc.prems k last_sep_ok_Suc
  show ?case by simp
qed

lemma match_loop_eq:
  assumes "c_string f" and "c_string d"
  shows "match_loop f d i j =
    (let x = drop i f; y = drop j d
     in if prefix y x then Some (i + length y, j + length y)
        else if strict_prefix x y then Some (i + length x, j + length x) else None)"
proof (induction "length d - j" arbitrary: i j)
  case 0
  then have "c_char d j = NUL" "drop j d = []" by (simp_all add: c_char_def)
  then show ?case by (simp add: match_loop.simps [of f d i j])
next
  case (Suc n)
  then have j: "j < length d" by simp
  then have d: "c_char d j = d ! j" "c_char d j \<noteq> NUL" "drop j d = d ! j # drop (Suc j) d"
    using c_char_NUL [OF assms(2), of j] by (auto simp: c_char_def Cons_nth_drop_Suc)
  show ?case
  proof (cases "i < length f")
    case True
    then have f: "c_char f i = f ! i" "c_char f i \<noteq> NUL" "drop i f = f ! i # drop (Suc i) f"
      using c_char_NUL [OF assms(1), of i] by (auto simp: c_char_def Cons_nth_drop_Suc)
    show ?thesis
    proof (cases "d ! j = f ! i")
      case True
      have "match_loop f d i j = match_loop f d (Suc i) (Suc j)"
        using d f True by (simp add: match_loop.simps [of f d i j])
      also have "\<dots> = (let x = drop (Suc i) f; y = drop (Suc j) d
         in if prefix y x then Some (Suc i + length y, Suc j + length y)
            else if strict_prefix x y then Some (Suc i + length x, Suc j + length x) else None)"
        by (rule Suc.hyps(1)) (use Suc.hyps(2) in simp)
      finally show ?thesis using d(3) f(3) True by (simp add: Let_def)
    next
      case False
      then show ?thesis using d f by (simp add: match_loop.simps [of f d i j] Let_def)
    qed
  next
    case False
    then have "c_char f i = NUL" "drop i f = []" by (simp_all add: c_char_def)
    then show ?thesis using d by (simp add: match_loop.simps [of f d i j])
  qed
qed

section \<open>Properties\<close>

text \<open>The path helpers are the list functions they stand for: \<open>get_filename\<close> points at
  what follows the last slash or backslash, \<open>get_relative_path\<close> drops the source directory when
  the path starts with it and leaves every other path alone; both pointers stay in the string.\<close>

theorem path_helpers:
  assumes "c_string path" and "c_string source_dir"
  shows "drop (get_filename path) path = file_part path \<and> get_filename path \<le> length path \<and>
    get_relative_path path source_dir = (if prefix source_dir path then length source_dir else 0) \<and>
    get_relative_path path source_dir \<le> length path"
proof -
  have "last_sep_ok path 0 None" by (simp add: last_sep_ok_def)
  then obtain l where l: "last_sep_ok path (length path) l"
    "find_last_separator path 0 None = (case l of Some p \<Rightarrow> p | None \<Rightarrow> length path)"
    using find_last_separator_ok [OF assms(1), of 0 None] by auto
  have "drop (get_filename path) path = file_part path \<and> get_filename path \<le> length path"
  proof (cases l)
    case None
    with l(1) have "\<forall>c \<in> set path. \<not> is_path_separator c" by (auto simp: last_sep_ok_def in_set_conv_nth)
    moreover have "\<not> is_path_separator NUL" by (simp add: is_path_separator_def)
    ultimately show ?thesis using l(2) None by (simp add: get_filename_def c_char_def file_part_no_separator)
  next
    case (Some p)
    with l(1) have p: "p < length path" "is_path_separator (path ! p)" by (simp_all add: last_sep_ok_def)
    have "\<forall>x \<in> set (drop (Suc p) path). \<not> is_path_separator x"
      using l(1) Some by (auto simp: last_sep_ok_def in_set_conv_nth)
    then have "file_part (take p path @ path ! p # drop (Suc p) path) = drop (Suc p) path"
      by (rule file_part_separator [OF p(2)])
    with p have "file_part path = drop (Suc p) path" by (simp add: id_take_nth_drop [symmetric])
    with p l(2) Some show ?thesis by (simp add: get_filename_def c_char_def)
  qed
  moreover have "get_relative_path path source_dir = (if prefix source_dir path then length source_dir else 0)"
  proof -
    have "c_char source_dir (length path) \<noteq> NUL" if "strict_prefix path source_dir"
      using that c_char_NUL [OF assms(2)] prefix_length_less by fastforce
    then show ?thesis
      using match_loop_eq [OF assms, of 0 0] by (auto simp: get_relative_path_def Let_def c_char_def)
  qed
  moreover have "(if prefix source_dir path then length source_dir else 0) \<le> length path"
    by (simp add: prefix_length_le)
  ultimately show ?thesis by simp
qed

lemma log_out: "snd (fold (log_step d) acts (l, out)) = out @ snd (fold (log_step d) acts (l, []))"
proof (induction acts arbitrary: l out)
  case (Cons a acts)
  show ?case
  proof (cases a)
    case (Log k m)
    with Cons [of l "out @ [log_line d k m]"] Cons [of l "[log_line d k m]"] Cons [of l out] show ?thesis by simp
  next
    case (Set_level k)
    with Cons [of k out] show ?thesis by simp
  qed
qed simp

text \<open>A more verbose level only adds lines: what a program logs at a level is a
  subsequence of what it logs at any higher level, and exactly the messages up to the level are
  written, in order, when the program does not change it.\<close>

theorem log_filter:
  assumes "l \<le> l'" and "\<forall>a \<in> set acts. \<exists>k m. a = Log k m"
  shows "subseq (snd (log_run d l acts)) (snd (log_run d l' acts)) \<and>
    snd (log_run d l acts) = concat (map (\<lambda>a. case a of Log k m \<Rightarrow> (if k \<le> l then [log_line d k m] else []) | _ \<Rightarrow> []) acts)"
proof -
  let ?lines = "\<lambda>l a. case a of Log k m \<Rightarrow> (if k \<le> l then [log_line d k m] else []) | _ \<Rightarrow> []"
  have run: "snd (log_run d k as) = concat (map (?lines k) as)" if "\<forall>a \<in> set as. \<exists>k m. a = Log k m" for k as
    using that
  proof (induction as)
    case (Cons a as)
    then obtain j m where "a = Log j m" by auto
    with Cons show ?case
      using log_out [of d as k "[log_line d j m]"] by (simp add: log_run_def should_log_def less_eq_LogLevel_def)
  qed (simp add: log_run_def)
  have "subseq (?lines l a) (?lines l' a)" for a
    using assms(1) by (cases a) auto
  then have "subseq (concat (map (?lines l) as)) (concat (map (?lines l') as))" for as
    by (induction as) (auto intro: list_emb_append_mono)
  with run assms(2) show ?thesis by simp
qed

section \<open>Instances\<close>

theorem path_helpers_witness:
  "drop (get_filename ''/src/a.cpp'') ''/src/a.cpp'' = ''a.cpp'' \<and> get_relative_path ''/src/a.cpp'' ''/src/'' = 5"
proof -
  have "file_part ''/src/a.cpp'' = ''a.cpp''"
    using file_part_separator [of "CHR ''/''" "''a.cpp''" "''/src''"] by (simp add: is_path_separator_def)
  then show ?thesis
    using path_helpers [of "''/src/a.cpp''" "''/src/''"] by (simp add: c_string_def)
qed

theorem log_filter_witness:
  "subseq (snd (log_run '''' LL_Info [Log LL_Debug \<lparr>log_file = ''f'', log_line_number = 1, log_func = ''g'', log_message = ''m''\<rparr>]))
    (snd (log_run '''' LL_Trace [Log LL_Debug \<lparr>log_file = ''f'', log_line_number = 1, log_func = ''g'', log_message = ''m''\<rparr>]))"
  by (rule log_filter [THEN conjunct1]) (simp_all add: less_eq_LogLevel_def)

end
