(* ===== verification/Command_Line.thy ===== *)
theory Command_Line
  imports Logging
begin

text \<open>
  \<open>eestv/data_bridge/config.hpp\<close> and \<open>command_param_parser.cpp\<close>: the configuration of the bridge
  and how it is read from the command line. \<open>boost::program_options\<close> is a parameter: the function
  that parses the arguments and runs \<open>notify\<close>, and gives either the message of a \<open>po::error\<close> or the
  variables, a map from the long option names to the texts of their values.
\<close>

section \<open>Configuration\<close>

datatype EndpointMode = EM_endpoint | EM_bridge

record Config =
  endpoint_mode :: EndpointMode
  discovery_target :: string
  config_log_level :: LogLevel

section \<open>The verbosity flag\<close>

text \<open>The inner loop counts the letters behind the dash; the outer one stops at the first argument
  that consists of nothing else. The count is cast to a 32-bit \<open>int\<close>.\<close>

fun v_count_loop :: "string \<Rightarrow> nat" where
  "v_count_loop (c # cs) = (if c = CHR ''v'' then Suc (v_count_loop cs) else 0)"
| "v_count_loop [] = 0"

fun verbosity_loop :: "string list \<Rightarrow> int" where
  "verbosity_loop [] = 0"
| "verbosity_loop (argument # rest) =
     (if length argument \<ge> 2 \<and> argument ! 0 = CHR ''-'' \<and> argument ! 1 = CHR ''v''
      then
        (let v_count = v_count_loop (drop 1 argument)
         in if v_count = length argument - 1 then signed_take_bit 31 (int v_count) else verbosity_loop rest)
      else verbosity_loop rest)"

definition verbosity_of :: "string list \<Rightarrow> int" where
  "verbosity_of arguments = verbosity_loop (drop 1 arguments)"

definition level_of_verbosity :: "int \<Rightarrow> LogLevel" where
  "level_of_verbosity verbosity =
     (if verbosity = 0 then LL_Info else if verbosity = 1 then LL_Debug else LL_Trace)"

section \<open>parse_command_line\<close>

text \<open>The function returns, ends the process after printing the help, or leaves by an exception:
  a \<open>po::error\<close>, or \<open>bad_any_cast\<close> from reading a value that is not there.\<close>

datatype command_line_result = Returned Config | Exited int | Thrown string | Bad_any_cast

definition parse_command_line ::
  "(string list \<Rightarrow> string + (string \<Rightarrow> string option)) \<Rightarrow> string list \<Rightarrow> command_line_result" where
  "parse_command_line program_options argv =
     (let verbosity = verbosity_of argv
      in case program_options argv of
           Inl message \<Rightarrow> Thrown message
         | Inr variables \<Rightarrow>
             if variables ''help'' \<noteq> None then Exited 0
             else
               (let is_endpoint = variables ''endpoint'' \<noteq> None;
                    is_bridge = variables ''bridge'' \<noteq> None
                in if is_endpoint = is_bridge
                   then Thrown ''Exactly one of --endpoint/--bridge must be specified.''
                   else case variables ''discovery'' of
                          None \<Rightarrow> Bad_any_cast
                        | Some discovery \<Rightarrow>
                            Returned \<lparr>endpoint_mode = (if is_endpoint then EM_endpoint else EM_bridge),
                              discovery_target = discovery,
                              config_log_level = level_of_verbosity verbosity\<rparr>))"

section \<open>Properties\<close>

lemma v_count_loop_eq: "v_count_loop s = length (takeWhile (\<lambda>c. c = CHR ''v'') s)"
  by (induction s) simp_all

definition is_verbosity_flag :: "string \<Rightarrow> bool" where
  "is_verbosity_flag s \<longleftrightarrow> s = CHR ''-'' # replicate (length s - 1) (CHR ''v'') \<and> length s \<ge> 2"

lemma all_v: "length (takeWhile (\<lambda>c. c = CHR ''v'') s) = length s \<longleftrightarrow> s = replicate (length s) (CHR ''v'')"
  by (induction s) auto

lemma verbosity_flag_test:
  "is_verbosity_flag s \<longleftrightarrow> length s \<ge> 2 \<and> s ! 0 = CHR ''-'' \<and> s ! 1 = CHR ''v'' \<and> v_count_loop (drop 1 s) = length s - 1"
proof (cases s)
  case (Cons c cs)
  show ?thesis
  proof (cases cs)
    case (Cons d ds)
    with \<open>s = c # cs\<close> show ?thesis
      by (auto simp: is_verbosity_flag_def v_count_loop_eq all_v)
  qed (simp add: \<open>s = c # cs\<close> is_verbosity_flag_def)
qed (simp add: is_verbosity_flag_def)

lemma verbosity_loop_find:
  assumes "\<forall>a \<in> set as. length a \<le> 2147483648"
  shows "verbosity_loop as = (case find is_verbosity_flag as of None \<Rightarrow> 0 | Some a \<Rightarrow> int (length a) - 1)"
  using assms
proof (induction as)
  case (Cons a as)
  have "signed_take_bit 31 (int (length a - 1)) = int (length a) - 1" if "is_verbosity_flag a"
  proof -
    have "2 \<le> length a" using that by (simp add: is_verbosity_flag_def)
    moreover have "length a \<le> 2147483648" using Cons.prems by simp
    ultimately show ?thesis by (simp add: signed_take_bit_int_eq_self)
  qed
  with Cons verbosity_flag_test [of a] show ?case by (auto simp: Let_def)
qed simp

text \<open>Property C37. What \<open>parse_command_line\<close> returns: when \<open>program_options\<close> honours the required
  option, the result is never a failed cast; a returned configuration has exactly one of the two
  roles and the given target, and its log level is that of the first argument of the form \<open>-v...v\<close>:
  Info without one, Debug for one \<open>v\<close>, Trace for more. The help text, too, is reached only with a
  discovery identifier.\<close>

theorem parse_command_line_result:
  assumes "\<forall>vs. program_options argv = Inr vs \<longrightarrow> vs ''discovery'' \<noteq> None"
    and "\<forall>a \<in> set argv. length a \<le> 2147483648"
  shows "case parse_command_line program_options argv of
      Returned c \<Rightarrow> \<exists>vs. program_options argv = Inr vs \<and> vs ''help'' = None \<and> vs ''discovery'' = Some (discovery_target c) \<and>
        (vs ''endpoint'' \<noteq> None) \<noteq> (vs ''bridge'' \<noteq> None) \<and> (endpoint_mode c = EM_endpoint \<longleftrightarrow> vs ''endpoint'' \<noteq> None) \<and>
        config_log_level c = (case find is_verbosity_flag (drop 1 argv) of
          None \<Rightarrow> LL_Info | Some a \<Rightarrow> if length a = 2 then LL_Debug else LL_Trace)
    | Exited n \<Rightarrow> n = 0 \<and> (\<exists>vs. program_options argv = Inr vs \<and> vs ''help'' \<noteq> None \<and> vs ''discovery'' \<noteq> None)
    | Thrown m \<Rightarrow> (\<forall>vs. program_options argv = Inr vs \<longrightarrow> (vs ''endpoint'' \<noteq> None) = (vs ''bridge'' \<noteq> None))
    | Bad_any_cast \<Rightarrow> False"
proof -
  have level: "level_of_verbosity (verbosity_of argv) = (case find is_verbosity_flag (drop 1 argv) of
      None \<Rightarrow> LL_Info | Some a \<Rightarrow> if length a = 2 then LL_Debug else LL_Trace)"
  proof -
    have "\<forall>a \<in> set (drop 1 argv). length a \<le> 2147483648" using assms(2) by (meson in_set_dropD)
    then have "verbosity_of argv = (case find is_verbosity_flag (drop 1 argv) of None \<Rightarrow> 0 | Some a \<Rightarrow> int (length a) - 1)"
      unfolding verbosity_of_def by (rule verbosity_loop_find)
    moreover have "2 \<le> length a" if "find is_verbosity_flag (drop 1 argv) = Some a" for a
      using that by (auto simp: find_Some_iff is_verbosity_flag_def)
    ultimately show ?thesis by (auto simp: level_of_verbosity_def split: option.split)
  qed
  show ?thesis
  proof (cases "program_options argv")
    case (Inl m)
    then show ?thesis by (simp add: parse_command_line_def)
  next
    case (Inr vs)
    with assms(1) obtain d where "vs ''discovery'' = Some d" by auto
    with Inr level show ?thesis by (auto simp: parse_command_line_def Let_def)
  qed
qed

section \<open>Instances\<close>

definition example_options :: "string list \<Rightarrow> string + (string \<Rightarrow> string option)" where
  "example_options argv = Inr [''bridge'' \<mapsto> '''', ''discovery'' \<mapsto> ''svc'']"

theorem parse_command_line_result_witness:
  "parse_command_line example_options [''bridge'', ''-b'', ''-vv'', ''-d'', ''svc''] =
    Returned \<lparr>endpoint_mode = EM_bridge, discovery_target = ''svc'', config_log_level = LL_Trace\<rparr>"
proof -
  let ?argv = "[''bridge'', ''-b'', ''-vv'', ''-d'', ''svc'']"
  have flags: "\<not> is_verbosity_flag ''-b''" "is_verbosity_flag ''-vv''"
    by (simp_all add: is_verbosity_flag_def)
  obtain c where c: "parse_command_line example_options ?argv = Returned c"
    by (simp add: parse_command_line_def example_options_def)
  have "discovery_target c = ''svc''" "endpoint_mode c = EM_bridge" "config_log_level c = LL_Trace"
    using parse_command_line_result [of example_options ?argv] flags
    by (auto simp: c example_options_def intro: EndpointMode.exhaust [of "endpoint_mode c"])
  with c show ?thesis by simp
qed

end
