(* ===== verification/Bridge.thy ===== *)
theory Bridge
  imports Command_Line Tcp_Server Tcp_Client Udp_Discovery_Client Udp_Discovery_Server
begin

text \<open>
  \<open>eestv/data_bridge/bridge.hpp\<close>, \<open>bridge.cpp\<close> and \<open>eestv/net/network_utils.cpp\<close>: the component that
  puts the others together. A peer is discovered by the UDP discovery client, connected to by a
  TCP client of its own, and accepted by the TCP server.
\<close>

section \<open>The local address\<close>

text \<open>The three socket calls are the operating system's: each gives a value, sets the error code
  or throws.\<close>

datatype 'a os_result = Os_value 'a | Os_error | Os_exception

fun get_local_address_for_remote ::
  "('ep \<Rightarrow> unit os_result) \<Rightarrow> ('ep \<Rightarrow> unit os_result) \<Rightarrow> ('ep \<Rightarrow> string os_result) \<Rightarrow> 'ep \<Rightarrow> string option" where
  "get_local_address_for_remote socket_open socket_connect local_endpoint remote_endpoint =
     (case socket_open remote_endpoint of
        Os_value _ \<Rightarrow>
          (case socket_connect remote_endpoint of
             Os_value _ \<Rightarrow>
               (case local_endpoint remote_endpoint of
                  Os_value local_address \<Rightarrow> Some local_address
                | Os_error \<Rightarrow> None
                | Os_exception \<Rightarrow> None)
           | Os_error \<Rightarrow> None
           | Os_exception \<Rightarrow> None)
      | Os_error \<Rightarrow> None
      | Os_exception \<Rightarrow> None)"

section \<open>State\<close>

text \<open>\<open>'ep\<close> is the type of UDP endpoints, \<open>'e\<close> that of the TCP endpoints a name resolves to. The
  counters are \<open>std::size_t\<close>. \<open>tcp_server_port\<close> is the port the system gave to the acceptor.\<close>

record ('ep, 'e) Bridge =
  config :: Config
  default_port :: int
  tcp_server :: "Server option"
  tcp_server_port :: u16
  discovery_client :: "'ep UdpDiscoveryClient"
  discovery_server :: "'ep UdpDiscoveryServer"
  connecting_clients :: "string \<Rightarrow> 'e Client option"
  pending_outgoing_connections :: "string \<Rightarrow> Conn option"
  pending_incoming_connections :: "string \<Rightarrow> Conn option"
  discovery_count :: u64
  discovered_count :: u64

definition default_buffer_size :: nat where
  "default_buffer_size = 4096"

definition set_up_tcp_server :: "('ep, 'e) Bridge \<Rightarrow> ('ep, 'e) Bridge" where
  "set_up_tcp_server b =
     b\<lparr>tcp_server := Some (snd (server_async_start
         (set_connection_callback True (TcpServer_new default_buffer_size default_buffer_size))))\<rparr>"

text \<open>\<open>reply\<close> stands for the lambda around \<open>on_disvovered\<close>, \<open>no_endpoint\<close> for the endpoint that
  \<open>boost::asio\<close> constructs by default. The lambda counts its calls and reads the clock, so it is no
  function of the endpoint alone: here \<open>reply\<close> is arbitrary, and the count is the step
  \<open>discovered\<close>, which may come at any time. What the lambda returns is \<open>on_disvovered\<close> itself.\<close>

definition set_up_discovery :: "'ep \<Rightarrow> ('ep \<Rightarrow> string) \<Rightarrow> ('ep, 'e) Bridge \<Rightarrow> ('ep, 'e) Bridge" where
  "set_up_discovery no_endpoint reply b =
     (let target = discovery_target (config b);
          b = b\<lparr>discovery_client := snd (uclient_async_start (UdpDiscoveryClient_new target (default_port b) True))\<rparr>
      in b\<lparr>discovery_server := snd (userver_async_start
             (add_discoverable (Discoverable_new target reply) (UdpDiscoveryServer_new no_endpoint (default_port b))))\<rparr>)"

definition Bridge_new :: "'ep \<Rightarrow> ('ep \<Rightarrow> string) \<Rightarrow> u16 \<Rightarrow> Config \<Rightarrow> int \<Rightarrow> ('ep, 'e) Bridge" where
  "Bridge_new no_endpoint reply tcp_port cfg port_number =
     set_up_discovery no_endpoint reply (set_up_tcp_server
       \<lparr>config = cfg, default_port = port_number, tcp_server = None, tcp_server_port = tcp_port,
        discovery_client = UdpDiscoveryClient_new '''' port_number False,
        discovery_server = UdpDiscoveryServer_new no_endpoint port_number,
        connecting_clients = Map.empty, pending_outgoing_connections = Map.empty,
        pending_incoming_connections = Map.empty, discovery_count = 0, discovered_count = 0\<rparr>)"

section \<open>Member functions\<close>

text \<open>\<open>now\<close> is the system clock, \<open>local_address\<close> the result of \<^const>\<open>get_local_address_for_remote\<close>.\<close>

definition on_disvovered :: "int \<Rightarrow> ('ep \<Rightarrow> string option) \<Rightarrow> 'ep \<Rightarrow> ('ep, 'e) Bridge \<Rightarrow> string \<times> ('ep, 'e) Bridge" where
  "on_disvovered now local_address remote_endpoint b =
     (let b = b\<lparr>discovered_count := discovered_count b + 1\<rparr>;
          tcp_port = (if tcp_server b \<noteq> None then tcp_server_port b else 0);
          response = (case local_address remote_endpoint of
                        Some address \<Rightarrow> construct now (discovery_target (config b)) address tcp_port
                      | None \<Rightarrow> '''')
      in (response, b))"

text \<open>The callback given to \<open>async_connect\<close>; the two kinds of failure are not distinguished.\<close>

definition peer_connected :: "string \<Rightarrow> error_code \<Rightarrow> ('ep, 'e) Bridge \<Rightarrow> ('ep, 'e) Bridge" where
  "peer_connected key error b =
     (if error = No_error
      then b\<lparr>pending_outgoing_connections :=
               (pending_outgoing_connections b)(key \<mapsto> TcpConnection_new 4096 4096 False None)\<rparr>
      else b)"

definition on_peer_discovered :: "'addr DiscoveryInfo \<Rightarrow> ('ep, 'e) Bridge \<Rightarrow> bool \<times> ('ep, 'e) Bridge" where
  "on_peer_discovered discovery_info b =
     (let b = b\<lparr>discovery_count := discovery_count b + 1\<rparr>;
          key = to_string_nat (unat (timestamp_ms discovery_info))
      in if pending_outgoing_connections b key \<noteq> None \<or> connecting_clients b key \<noteq> None
         then (True, b)
         else
           (let (started, client) = client_async_connect (ip_address discovery_info) (uint (port discovery_info)) 0 TcpClient_new
            in if started
               then (True, b\<lparr>connecting_clients := (connecting_clients b)(key \<mapsto> client)\<rparr>)
               else (True, b)))"

definition on_discovery_response ::
  "(string \<Rightarrow> 'addr option) \<Rightarrow> string \<Rightarrow> ('ep, 'e) Bridge \<Rightarrow> bool \<times> ('ep, 'e) Bridge" where
  "on_discovery_response make_address response b =
     (case parse make_address response of
        Some discovery_info \<Rightarrow>
          if service_name discovery_info = discovery_target (config b)
          then (True, snd (on_peer_discovered discovery_info b))
          else (False, b)
      | None \<Rightarrow> (False, b))"

text \<open>\<open>key\<close> is the text of the remote endpoint of the connection.\<close>

definition on_accept :: "string \<Rightarrow> Conn \<Rightarrow> ('ep, 'e) Bridge \<Rightarrow> ('ep, 'e) Bridge" where
  "on_accept key connection b =
     b\<lparr>pending_incoming_connections := (pending_incoming_connections b)(key \<mapsto> connection)\<rparr>"

section \<open>Steps\<close>

text \<open>What a step of a component hands to the bridge: the new responses, the new connections with
  the texts of their endpoints, and the completion of a connection attempt.\<close>

definition deliver_responses ::
  "(string \<Rightarrow> 'addr option) \<Rightarrow> (string \<times> 'ep option) list \<Rightarrow> ('ep, 'e) Bridge \<Rightarrow> ('ep, 'e) Bridge" where
  "deliver_responses make_address rs b = fold (\<lambda>(r, _) b. snd (on_discovery_response make_address r b)) rs b"

definition deliver_connections :: "(string \<times> Conn) list \<Rightarrow> ('ep, 'e) Bridge \<Rightarrow> ('ep, 'e) Bridge" where
  "deliver_connections cs b = fold (\<lambda>(key, c). on_accept key c) cs b"

definition deliver_completions :: "string \<Rightarrow> (nat \<times> error_code) list \<Rightarrow> ('ep, 'e) Bridge \<Rightarrow> ('ep, 'e) Bridge" where
  "deliver_completions key es b = fold (\<lambda>(_, e). peer_connected key e) es b"

text \<open>
  The components run under the bridge: it stops none of them before its destruction, restarts none,
  and calls its TCP clients only once, so the steps of a component are those that are not a user's
  call. The server's call of the reply lambda is the step \<open>discovered\<close>; in the state of the server
  a discoverable has its replies as a function.
\<close>

inductive bridge_step :: "(string \<Rightarrow> 'addr option) \<Rightarrow> ('ep, 'e) Bridge \<Rightarrow> ('ep, 'e) Bridge \<Rightarrow> bool" for make_address where
  discovered: "bridge_step make_address b (snd (on_disvovered now local_address remote_endpoint b))"
| discovery: "uclient_step False False (discovery_client b) c \<Longrightarrow>
    uget UDS_running c = uget UDS_running (discovery_client b) \<Longrightarrow>
    uget UDS_stopping c = uget UDS_stopping (discovery_client b) \<Longrightarrow>
    bridge_step make_address b
      (deliver_responses make_address (drop (length (uc_responses (discovery_client b))) (uc_responses c)) (b\<lparr>discovery_client := c\<rparr>))"
| listening: "userver_step False False (discovery_server b) s \<Longrightarrow>
    vget UDS_running s = vget UDS_running (discovery_server b) \<Longrightarrow>
    vget UDS_stopping s = vget UDS_stopping (discovery_server b) \<Longrightarrow>
    us_discoverables s = us_discoverables (discovery_server b) \<Longrightarrow>
    bridge_step make_address b (b\<lparr>discovery_server := s\<rparr>)"
| accept: "tcp_server b = Some s \<Longrightarrow> server_step False s s' \<Longrightarrow>
    sget TSS_stop_signaled s' = sget TSS_stop_signaled s \<Longrightarrow> connection_callback s' = connection_callback s \<Longrightarrow>
    bridge_step make_address b
      (deliver_connections (zip keys (drop (length (srv_delivered s)) (srv_delivered s'))) (b\<lparr>tcp_server := Some s'\<rparr>))"
| client: "connecting_clients b key = Some c \<Longrightarrow> client_step False False c c' \<Longrightarrow>
    attempts c' = attempts c \<Longrightarrow> cget CLS_stop_singaled c' = cget CLS_stop_singaled c \<Longrightarrow>
    bridge_step make_address b
      (deliver_completions key (drop (length (completions c)) (completions c'))
        (b\<lparr>connecting_clients := (connecting_clients b)(key \<mapsto> c')\<rparr>))"

definition bridge_init :: "('ep, 'e) Bridge \<Rightarrow> bool" where
  "bridge_init b \<longleftrightarrow> (\<exists>ep reply p cfg n. b = Bridge_new ep reply p cfg n)"

section \<open>The pieces of a step\<close>

lemma handler_completions:
  "\<exists>es. completions (client_run_handler h c) = completions c @ es"
proof (cases h)
  case (CH_on_connect e)
  then show ?thesis
    by (cases "cget CLS_stop_singaled c"; cases "on_connection_complete c")
      (simp_all add: handle_connect_def Let_def)
qed (simp_all add: client_async_resolve_def client_stop_posted_def client_cancel_def handle_resolve_def Let_def)

lemma completions_grow:
  assumes "client_step t r c c'"
  shows "\<exists>es. completions c' = completions c @ es"
  using assms
proof cases
  case (handler hs h hs')
  with handler_completions [of h "c\<lparr>cl_posted := hs @ hs'\<rparr>"] show ?thesis by simp
qed (simp_all add: client_async_connect_def client_stop_def client_async_stop_def client_reset_def)

lemma deliver_completions_frame [simp]:
  "connecting_clients (deliver_completions key es b) = connecting_clients b"
  "pending_incoming_connections (deliver_completions key es b) = pending_incoming_connections b"
  "tcp_server (deliver_completions key es b) = tcp_server b"
  "discovery_client (deliver_completions key es b) = discovery_client b"
  "discovery_server (deliver_completions key es b) = discovery_server b"
  unfolding deliver_completions_def
  by (induction es arbitrary: b) (auto simp: peer_connected_def)

lemma deliver_completions_outgoing:
  "pending_outgoing_connections (deliver_completions key es b) =
    (if \<exists>k. (k, No_error) \<in> set es
     then (pending_outgoing_connections b)(key \<mapsto> TcpConnection_new 4096 4096 False None)
     else pending_outgoing_connections b)"
  unfolding deliver_completions_def
  by (induction es arbitrary: b) (auto simp: peer_connected_def)

lemma deliver_connections_frame [simp]:
  "connecting_clients (deliver_connections cs b) = connecting_clients b"
  "pending_outgoing_connections (deliver_connections cs b) = pending_outgoing_connections b"
  "tcp_server (deliver_connections cs b) = tcp_server b"
  "discovery_client (deliver_connections cs b) = discovery_client b"
  "discovery_server (deliver_connections cs b) = discovery_server b"
  unfolding deliver_connections_def by (induction cs arbitrary: b) (auto simp: on_accept_def)

lemma deliver_connections_incoming:
  "pending_incoming_connections (deliver_connections cs b) key = Some c \<Longrightarrow>
    pending_incoming_connections b key = Some c \<or> c \<in> snd ` set cs"
proof (induction cs arbitrary: b)
  case (Cons x cs)
  obtain k d where "x = (k, d)" by (cases x)
  with Cons.prems Cons.IH [of "on_accept k d b"] show ?case
    by (auto simp: deliver_connections_def on_accept_def split: if_splits)
qed (simp add: deliver_connections_def)

section \<open>The invariant\<close>

definition client_ok :: "'e Client \<Rightarrow> bool" where
  "client_ok c \<longleftrightarrow> reachable client_init (client_step False False) c \<and> attempts c = 1"

definition succeeded :: "'e Client \<Rightarrow> bool" where
  "succeeded c \<longleftrightarrow> (\<exists>k. (k, No_error) \<in> set (completions c))"

text \<open>Every key has one client that was asked once, and an outgoing connection exactly when that
  client has succeeded; all connections are those of the connection theory, and the servers and
  the discovery client are in states their theories describe.\<close>

definition bridge_inv :: "('ep, 'e) Bridge \<Rightarrow> bool" where
  "bridge_inv b \<longleftrightarrow>
     (\<forall>key c. connecting_clients b key = Some c \<longrightarrow> client_ok c) \<and>
     (\<forall>key. pending_outgoing_connections b key \<noteq> None \<longleftrightarrow> (\<exists>c. connecting_clients b key = Some c \<and> succeeded c)) \<and>
     (\<forall>key c. pending_outgoing_connections b key = Some c \<longrightarrow> reachable conn_init conn_step c) \<and>
     (\<forall>key c. pending_incoming_connections b key = Some c \<longrightarrow> reachable conn_init conn_step c) \<and>
     (\<exists>s. tcp_server b = Some s \<and> reachable server_init (server_step False) s) \<and>
     reachable uclient_init (uclient_step False False) (discovery_client b) \<and>
     reachable userver_init (userver_step False False) (discovery_server b)"

lemma new_client_ok: "client_ok (snd (client_async_connect host p k TcpClient_new))"
proof -
  have "reachable client_init (client_step False False) (snd (client_async_connect host p k TcpClient_new))"
    by (intro reachable_client_calls reachable_client_new)
  then show ?thesis by (simp add: client_ok_def client_async_connect_def TcpClient_new_def)
qed

lemma new_client_started:
  "fst (client_async_connect host p k TcpClient_new)"
  "cl_posted (snd (client_async_connect host p k TcpClient_new)) = [CH_resolve host p]"
  "\<not> succeeded (snd (client_async_connect host p k TcpClient_new))"
  by (simp_all add: client_async_connect_def TcpClient_new_def cpost_def succeeded_def)

lemma on_peer_discovered_eq:
  "snd (on_peer_discovered info b) =
    (let key = to_string_nat (unat (timestamp_ms info))
     in if pending_outgoing_connections b key \<noteq> None \<or> connecting_clients b key \<noteq> None
        then b\<lparr>discovery_count := discovery_count b + 1\<rparr>
        else b\<lparr>discovery_count := discovery_count b + 1, connecting_clients := (connecting_clients b)(key \<mapsto>
               snd (client_async_connect (ip_address info) (uint (port info)) 0 TcpClient_new))\<rparr>)"
  by (simp add: on_peer_discovered_def client_async_connect_def TcpClient_new_def Let_def)

lemma on_peer_discovered_inv: "bridge_inv b \<Longrightarrow> bridge_inv (snd (on_peer_discovered info b))"
  by (auto simp: on_peer_discovered_eq Let_def bridge_inv_def new_client_ok new_client_started(3) split: if_splits)

lemma on_discovery_response_inv: "bridge_inv b \<Longrightarrow> bridge_inv (snd (on_discovery_response make_address r b))"
  by (simp add: on_discovery_response_def on_peer_discovered_inv split: option.split)

lemma deliver_responses_inv: "bridge_inv b \<Longrightarrow> bridge_inv (deliver_responses make_address rs b)"
  unfolding deliver_responses_def by (induction rs arbitrary: b) (auto simp: on_discovery_response_inv)

lemma connection_4096: "reachable conn_init conn_step (TcpConnection_new 4096 4096 False None)"
  by (rule reachable.start) (rule new_conn_init)

lemma bridge_accept_inv:
  assumes "bridge_inv b" and "tcp_server b = Some s" and "server_step False s s'"
  shows "bridge_inv (deliver_connections (zip keys (drop n (srv_delivered s'))) (b\<lparr>tcp_server := Some s'\<rparr>))"
proof -
  have "reachable server_init (server_step False) s'"
    using assms by (auto simp: bridge_inv_def intro: reachable.more)
  moreover from this have "\<forall>c \<in> set (srv_delivered s'). reachable conn_init conn_step c"
    using server_deliveries.reachable_inv by (auto intro: reachable.start)
  then have "\<forall>c \<in> snd ` set (zip keys (drop n (srv_delivered s'))). reachable conn_init conn_step c"
    by (metis imageE in_set_dropD prod.collapse set_zip_rightD)
  ultimately show ?thesis
    using assms(1) by (auto simp: bridge_inv_def dest: deliver_connections_incoming)
qed

lemma bridge_client_inv:
  assumes "bridge_inv b" and "connecting_clients b key = Some c" and "client_step False False c c'"
    and "attempts c' = attempts c"
  shows "bridge_inv (deliver_completions key (drop (length (completions c)) (completions c'))
    (b\<lparr>connecting_clients := (connecting_clients b)(key \<mapsto> c')\<rparr>))"
proof -
  obtain es where es: "completions c' = completions c @ es" using completions_grow [OF assms(3)] by auto
  have ok: "client_ok c'" using assms by (auto simp: bridge_inv_def client_ok_def intro: reachable.more)
  have grow: "succeeded c' \<longleftrightarrow> succeeded c \<or> (\<exists>k. (k, No_error) \<in> set es)" using es by (auto simp: succeeded_def)
  have inv: "pending_outgoing_connections b k \<noteq> None \<longleftrightarrow> (\<exists>c. connecting_clients b k = Some c \<and> succeeded c)" for k
    using assms(1) by (simp add: bridge_inv_def)
  show ?thesis
    unfolding bridge_inv_def
  proof (intro conjI)
    show "\<forall>k. pending_outgoing_connections (deliver_completions key (drop (length (completions c)) (completions c'))
        (b\<lparr>connecting_clients := (connecting_clients b)(key \<mapsto> c')\<rparr>)) k \<noteq> None \<longleftrightarrow>
      (\<exists>d. connecting_clients (deliver_completions key (drop (length (completions c)) (completions c'))
        (b\<lparr>connecting_clients := (connecting_clients b)(key \<mapsto> c')\<rparr>)) k = Some d \<and> succeeded d)"
      using inv inv [of key] grow assms(2) es by (simp add: deliver_completions_outgoing)
  qed (use assms(1) ok connection_4096 in \<open>auto simp: bridge_inv_def deliver_completions_outgoing split: if_splits\<close>)
qed

lemma bridge_step_inv:
  assumes "bridge_step make_address b b'" and "bridge_inv b"
  shows "bridge_inv b'"
  using assms(1)
proof cases
  case discovered
  with assms(2) show ?thesis by (simp add: on_disvovered_def Let_def bridge_inv_def)
next
  case (discovery c)
  have "bridge_inv (b\<lparr>discovery_client := c\<rparr>)"
    using assms(2) discovery(2) by (auto simp: bridge_inv_def intro: reachable.more)
  with discovery show ?thesis by (simp add: deliver_responses_inv)
next
  case (listening s)
  with assms(2) show ?thesis by (auto simp: bridge_inv_def intro: reachable.more)
next
  case (accept s s' keys)
  with bridge_accept_inv [OF assms(2)] show ?thesis by simp
next
  case (client key c c')
  with bridge_client_inv [OF assms(2)] show ?thesis by simp
qed

lemma bridge_init_inv:
  assumes "bridge_init b"
  shows "bridge_inv b"
proof -
  have "reachable server_init (server_step False)
      (snd (server_async_start (set_connection_callback True (TcpServer_new default_buffer_size default_buffer_size))))"
    by (rule reachable_server_calls, rule reachable.more [OF reachable_server_new server_step.callback])
  moreover have "reachable uclient_init (uclient_step False False) (snd (uclient_async_start (UdpDiscoveryClient_new name n True)))"
    for name n by (rule reachable_uclient_calls, rule reachable_uclient_new)
  moreover have "reachable userver_init (userver_step False False)
      (snd (userver_async_start (add_discoverable d (UdpDiscoveryServer_new ep n))))" for d ep n
    by (rule reachable_userver_calls, rule reachable.more [OF reachable_userver_new userver_step.add])
  ultimately show ?thesis using assms
    by (auto simp: bridge_init_def Bridge_new_def set_up_discovery_def set_up_tcp_server_def Let_def bridge_inv_def)
qed

interpretation bridge: invariant_system bridge_init "bridge_step make_address" bridge_inv for make_address
  by unfold_locales (auto intro: bridge_init_inv bridge_step_inv)

lemma client_ok_inv:
  assumes "client_ok c"
  shows "client_inv c"
proof -
  from assms have "reachable client_init (client_step False False) c" by (simp add: client_ok_def)
  then show ?thesis by induction (auto intro: client_init_inv client_step_inv)
qed

lemma client_ok_single:
  assumes "client_ok c"
  shows "attempts c = 1 \<and> length (completions c) \<le> 1 \<and> length (cl_resolves c) + length (cl_connects c) \<le> 1"
    and "succeeded c \<longleftrightarrow> (\<exists>k. completions c = [(k, No_error)])"
proof -
  have "length (completions c) \<le> attempts c" "phase_inv c"
    using client_ok_inv [OF assms] by (simp_all add: client_inv_def completion_inv_cases)
  with assms show one: "attempts c = 1 \<and> length (completions c) \<le> 1 \<and> length (cl_resolves c) + length (cl_connects c) \<le> 1"
    by (cases "cget CLS_resolving c"; cases "cget CLS_connecting c") (simp_all add: client_ok_def phase_inv_def)
  show "succeeded c \<longleftrightarrow> (\<exists>k. completions c = [(k, No_error)])"
    using one by (cases "completions c") (auto simp: succeeded_def)
qed

lemma key_inj:
  assumes "0 \<le> m" and "m < 2 ^ 63" and "0 \<le> n" and "n < 2 ^ 63"
    and "to_string_nat (unat (of_int m :: u64)) = to_string_nat (unat (of_int n :: u64))"
  shows "m = n"
proof -
  have "uint (of_int m :: u64) = uint (of_int n :: u64)"
    using assms(5) by (simp add: word_unat_eq_iff [symmetric])
  moreover have "uint (of_int k :: u64) = k" if "0 \<le> k" "k < 2 ^ 63" for k
    using that by (simp add: uint_word_of_int_eq take_bit_int_eq_self)
  ultimately show ?thesis using assms(1-4) by metis
qed

text \<open>One reply given at \<open>now\<close>, read by a bridge, and taken when the bridge does not know its key.\<close>

lemma reply_read:
  assumes "discovery_target (config a) = name" and "discovery_target (config b) = name"
    and "name \<noteq> []" and "CHR '':'' \<notin> set name" and "ip \<noteq> []" and "CHR '':'' \<notin> set ip"
    and "make_address ip = Some addr" and "local_address ep = Some ip" and "0 \<le> now" and "now < 2 ^ 63"
    and "tcp_server a \<noteq> None"
  shows "on_discovery_response make_address (fst (on_disvovered now local_address ep a)) b =
    (True, snd (on_peer_discovered \<lparr>service_name = name, ip_address = ip, port = tcp_server_port a,
       endpoint = (addr, tcp_server_port a), timestamp_ms = of_int (now div 1000000)\<rparr> b))"
proof -
  have "fst (on_disvovered now local_address ep a) = construct now name ip (tcp_server_port a)"
    using assms(1,8,11) by (simp add: on_disvovered_def Let_def)
  with assms(2) show ?thesis
    using parse_construct [of name ip make_address addr now "tcp_server_port a"] assms(3-7,9,10)
    by (simp add: on_discovery_response_def)
qed

lemma reply_taken:
  assumes "discovery_target (config a) = name" and "discovery_target (config b) = name"
    and "name \<noteq> []" and "CHR '':'' \<notin> set name" and "ip \<noteq> []" and "CHR '':'' \<notin> set ip"
    and "make_address ip = Some addr" and "local_address ep = Some ip" and "0 \<le> now" and "now < 2 ^ 63"
    and "tcp_server a \<noteq> None" and "key = to_string_nat (unat (of_int (now div 1000000) :: u64))"
    and "pending_outgoing_connections b key = None" and "connecting_clients b key = None"
  shows "on_discovery_response make_address (fst (on_disvovered now local_address ep a)) b =
    (True, b\<lparr>discovery_count := discovery_count b + 1, connecting_clients := (connecting_clients b)(key \<mapsto>
      snd (client_async_connect ip (uint (tcp_server_port a)) 0 TcpClient_new))\<rparr>)"
  using reply_read [where make_address = make_address and local_address = local_address, OF assms(1-11)] assms(12-14)
  by (simp add: on_peer_discovered_eq Let_def)

section \<open>Properties\<close>

text \<open>Property C12. The connections of the bridge, over every interleaving of its components: each
  key has at most one TCP client, asked to connect exactly once, with at most one operation
  outstanding and its callback called at most once; an outgoing connection is there exactly when
  that callback has reported success; and every pending connection and the server are in states
  to which their own theorems apply.\<close>

theorem bridge_connections:
  assumes "reachable bridge_init (bridge_step make_address) b"
  shows "(\<forall>key c. connecting_clients b key = Some c \<longrightarrow>
      attempts c = 1 \<and> length (completions c) \<le> 1 \<and> length (cl_resolves c) + length (cl_connects c) \<le> 1) \<and>
    (\<forall>key. pending_outgoing_connections b key \<noteq> None \<longleftrightarrow>
      (\<exists>c k. connecting_clients b key = Some c \<and> completions c = [(k, No_error)])) \<and>
    (\<forall>key c. pending_outgoing_connections b key = Some c \<or> pending_incoming_connections b key = Some c \<longrightarrow>
      reachable conn_init conn_step c) \<and>
    (\<exists>s. tcp_server b = Some s \<and> reachable server_init (server_step False) s)"
proof -
  have inv: "bridge_inv b" by (rule bridge.reachable_inv [OF assms])
  have one: "attempts c = 1 \<and> length (completions c) \<le> 1 \<and> length (cl_resolves c) + length (cl_connects c) \<le> 1"
    and success: "succeeded c \<longleftrightarrow> (\<exists>k. completions c = [(k, No_error)])"
    if "connecting_clients b key = Some c" for key c
  proof -
    have "client_ok c" using inv that by (auto simp: bridge_inv_def)
    from client_ok_single [OF this]
    show "attempts c = 1 \<and> length (completions c) \<le> 1 \<and> length (cl_resolves c) + length (cl_connects c) \<le> 1"
      and "succeeded c \<longleftrightarrow> (\<exists>k. completions c = [(k, No_error)])" .
  qed
  have "pending_outgoing_connections b key \<noteq> None \<longleftrightarrow> (\<exists>c. connecting_clients b key = Some c \<and> succeeded c)" for key
    using inv by (simp add: bridge_inv_def)
  then have "pending_outgoing_connections b key \<noteq> None \<longleftrightarrow>
      (\<exists>c k. connecting_clients b key = Some c \<and> completions c = [(k, No_error)])" for key
    using success by blast
  moreover have "reachable conn_init conn_step c"
    if "pending_outgoing_connections b key = Some c \<or> pending_incoming_connections b key = Some c" for key c
    using inv that by (auto simp: bridge_inv_def)
  moreover have "\<exists>s. tcp_server b = Some s \<and> reachable server_init (server_step False) s"
    using inv by (simp add: bridge_inv_def)
  ultimately show ?thesis using one by blast
qed

text \<open>What a discovery response does: one that does not parse, or names another
  service, is refused and leaves the bridge as it was; one whose timestamp is known is only
  counted; any other starts one attempt to connect to the address and port it names and touches no
  other key.\<close>

theorem bridge_response:
  "on_discovery_response make_address r b =
    (case parse make_address r of
       None \<Rightarrow> (False, b)
     | Some info \<Rightarrow>
         if service_name info \<noteq> discovery_target (config b) then (False, b)
         else (True, let key = to_string_nat (unat (timestamp_ms info))
           in if pending_outgoing_connections b key \<noteq> None \<or> connecting_clients b key \<noteq> None
              then b\<lparr>discovery_count := discovery_count b + 1\<rparr>
              else b\<lparr>discovery_count := discovery_count b + 1, connecting_clients := (connecting_clients b)(key \<mapsto>
                snd (client_async_connect (ip_address info) (uint (port info)) 0 TcpClient_new))\<rparr>))"
  by (simp add: on_discovery_response_def on_peer_discovered_eq split: option.split)

text \<open>Property C11. Discovery leads to a connection: the reply one bridge gives to a request, received
  by a bridge with the same target that has not seen its timestamp, is accepted there and makes it
  resolve the address of the first bridge and connect to its TCP server's port. It holds for
  targets and addresses without a colon and clocks after the epoch.\<close>

theorem bridge_handshake:
  assumes "discovery_target (config a) = name" and "discovery_target (config b) = name"
    and "name \<noteq> []" and "CHR '':'' \<notin> set name" and "ip \<noteq> []" and "CHR '':'' \<notin> set ip"
    and "make_address ip = Some addr" and "0 \<le> now" and "now < 2 ^ 63" and "tcp_server a \<noteq> None"
    and "socket_open ep = Os_value ()" and "socket_connect ep = Os_value ()" and "local_endpoint ep = Os_value ip"
    and "reply = fst (on_disvovered now (get_local_address_for_remote socket_open socket_connect local_endpoint) ep a)"
    and "key = to_string_nat (unat (of_int (now div 1000000) :: u64))"
    and "pending_outgoing_connections b key = None" and "connecting_clients b key = None"
  shows "\<exists>c. fst (on_discovery_response make_address reply b) \<and>
    connecting_clients (snd (on_discovery_response make_address reply b)) = (connecting_clients b)(key \<mapsto> c) \<and>
    cl_posted c = [CH_resolve ip (uint (tcp_server_port a))] \<and> client_ok c"
proof -
  have "get_local_address_for_remote socket_open socket_connect local_endpoint ep = Some ip"
    using assms(11-13) by simp
  from reply_taken [where a = a and b = b and name = name and ip = ip and make_address = make_address and addr = addr
      and ep = ep and now = now and key = key
      and local_address = "get_local_address_for_remote socket_open socket_connect local_endpoint", OF assms(1-7) this assms(8-10) assms(15-17)] assms(14)
  show ?thesis
    by (intro exI [of _ "snd (client_async_connect ip (uint (tcp_server_port a)) 0 TcpClient_new)"])
      (simp add: new_client_started(2) new_client_ok)
qed

text \<open>The key is the time of the reply, not the peer: two replies of one bridge, given
  at times in different milliseconds, make the other bridge start two connections to the same
  address and port.\<close>

theorem bridge_same_peer_twice:
  assumes "discovery_target (config a) = name" and "discovery_target (config b) = name"
    and "name \<noteq> []" and "CHR '':'' \<notin> set name" and "ip \<noteq> []" and "CHR '':'' \<notin> set ip"
    and "make_address ip = Some addr" and "local_address ep = Some ip" and "tcp_server a \<noteq> None"
    and "0 \<le> t1" and "t1 div 1000000 < t2 div 1000000" and "t2 < 2 ^ 63"
    and "pending_outgoing_connections b = Map.empty" and "connecting_clients b = Map.empty"
    and "b' = snd (on_discovery_response make_address (fst (on_disvovered t1 local_address ep a)) b)"
    and "b'' = snd (on_discovery_response make_address (fst (on_disvovered t2 local_address ep a)) b')"
  shows "\<exists>k1 k2 c1 c2. k1 \<noteq> k2 \<and> connecting_clients b'' = [k1 \<mapsto> c1, k2 \<mapsto> c2] \<and>
    cl_posted c1 = [CH_resolve ip (uint (tcp_server_port a))] \<and> cl_posted c2 = [CH_resolve ip (uint (tcp_server_port a))]"
proof -
  let ?key = "\<lambda>t. to_string_nat (unat (of_int (t div 1000000) :: u64))"
  let ?c = "snd (client_async_connect ip (uint (tcp_server_port a)) 0 TcpClient_new)"
  have t: "t1 < 2 ^ 63" "0 \<le> t2" "t1 div 1000000 < 2 ^ 63" "t2 div 1000000 < 2 ^ 63" "0 \<le> t1 div 1000000"
    using assms(10-12) by auto
  have keys: "?key t1 \<noteq> ?key t2" using key_inj [of "t1 div 1000000" "t2 div 1000000"] t assms(11) by auto
  have b': "b' = b\<lparr>discovery_count := discovery_count b + 1, connecting_clients := [?key t1 \<mapsto> ?c]\<rparr>"
    using reply_taken [OF assms(1,2,3,4,5,6) _ _ assms(10) t(1) assms(9) refl, of make_address addr local_address ep] assms(7,8,13-15)
    by simp
  have target: "discovery_target (config b') = name" using b' assms(2) by simp
  have "connecting_clients b'' = [?key t1 \<mapsto> ?c, ?key t2 \<mapsto> ?c]"
    using reply_taken [OF assms(1) target assms(3,4,5,6) _ _ t(2) assms(12,9) refl, of make_address addr local_address ep]
      assms(7,8,13,16) b' keys by simp
  with keys new_client_started(2) show ?thesis by blast
qed

text \<open>Property C38. The key of a connection is the time of the reply and not the peer: when a second bridge, at whatever address, replies within the same
  millisecond as a first one, its reply is taken as handled and no connection to it is attempted.\<close>

theorem bridge_peer_missed:
  assumes "discovery_target (config a1) = name" and "discovery_target (config a2) = name" and "discovery_target (config b) = name"
    and "name \<noteq> []" and "CHR '':'' \<notin> set name" and "ip1 \<noteq> []" and "CHR '':'' \<notin> set ip1" and "ip2 \<noteq> []" and "CHR '':'' \<notin> set ip2"
    and "make_address ip1 = Some addr1" and "make_address ip2 = Some addr2" and "local1 ep = Some ip1" and "local2 ep = Some ip2"
    and "tcp_server a1 \<noteq> None" and "tcp_server a2 \<noteq> None"
    and "0 \<le> t1" and "t1 < 2 ^ 63" and "0 \<le> t2" and "t2 < 2 ^ 63" and "t1 div 1000000 = t2 div 1000000"
    and "pending_outgoing_connections b = Map.empty" and "connecting_clients b = Map.empty"
    and "b' = snd (on_discovery_response make_address (fst (on_disvovered t1 local1 ep a1)) b)"
  shows "\<exists>key c. connecting_clients b' = [key \<mapsto> c] \<and> cl_posted c = [CH_resolve ip1 (uint (tcp_server_port a1))] \<and>
    on_discovery_response make_address (fst (on_disvovered t2 local2 ep a2)) b' =
      (True, b'\<lparr>discovery_count := discovery_count b' + 1\<rparr>)"
proof -
  let ?key = "to_string_nat (unat (of_int (t1 div 1000000) :: u64))"
  let ?c = "snd (client_async_connect ip1 (uint (tcp_server_port a1)) 0 TcpClient_new)"
  have b': "b' = b\<lparr>discovery_count := discovery_count b + 1, connecting_clients := [?key \<mapsto> ?c]\<rparr>"
    using reply_taken [OF assms(1,3,4,5,6,7) _ _ assms(16,17,14) refl, of make_address addr1 local1 ep] assms(10,12,21-23)
    by simp
  then have target: "discovery_target (config b') = name" using assms(3) by simp
  have "on_discovery_response make_address (fst (on_disvovered t2 local2 ep a2)) b' =
      (True, b'\<lparr>discovery_count := discovery_count b' + 1\<rparr>)"
    using reply_read [where make_address = make_address and local_address = local2,
        OF assms(2) target assms(4,5,8,9,11,13,18,19,15)] assms(20)
    by (simp add: on_peer_discovered_eq b')
  with b' new_client_started(2) show ?thesis by (intro exI [of _ ?key] exI [of _ ?c]) simp
qed

section \<open>Instances\<close>

definition example_config :: Config where
  "example_config = \<lparr>endpoint_mode = EM_bridge, discovery_target = ''svc'', config_log_level = LL_Info\<rparr>"

definition example_bridge :: "(nat, nat) Bridge" where
  "example_bridge = Bridge_new 0 (\<lambda>_. '''') 54321 example_config 12345"

definition os_address :: "nat \<Rightarrow> string option" where
  "os_address = get_local_address_for_remote (\<lambda>_. Os_value ()) (\<lambda>_. Os_value ()) (\<lambda>_. Os_value ''10.0.0.1'')"

lemma example_bridge_state:
  "discovery_target (config example_bridge) = ''svc''" "pending_outgoing_connections example_bridge = Map.empty"
  "connecting_clients example_bridge = Map.empty" "tcp_server_port example_bridge = 54321" "tcp_server example_bridge \<noteq> None"
  by (simp_all add: example_bridge_def Bridge_new_def set_up_discovery_def set_up_tcp_server_def Let_def example_config_def)

lemma example_bridge_reachable: "reachable bridge_init (bridge_step make_address) example_bridge"
  unfolding example_bridge_def by (rule reachable.start) (unfold bridge_init_def, blast)

theorem bridge_connections_witness: "\<exists>s. tcp_server example_bridge = Some s \<and> reachable server_init (server_step False) s"
  using bridge_connections [OF example_bridge_reachable [of accept_all]] by blast

theorem bridge_handshake_witness:
  "\<exists>c key. fst (on_discovery_response accept_all (fst (on_disvovered 1700000000000000000 os_address 5 example_bridge)) example_bridge) \<and>
    cl_posted c = [CH_resolve ''10.0.0.1'' (uint (54321 :: u16))] \<and> attempts c = (1 :: nat) \<and>
    connecting_clients (snd (on_discovery_response accept_all (fst (on_disvovered 1700000000000000000 os_address 5 example_bridge))
      example_bridge)) = [key \<mapsto> c]"
proof -
  obtain key where key_def: "key = to_string_nat (unat (of_int (1700000000000000000 div 1000000) :: u64))" by blast
  have "\<exists>c. fst (on_discovery_response accept_all (fst (on_disvovered 1700000000000000000 os_address 5 example_bridge)) example_bridge) \<and>
    connecting_clients (snd (on_discovery_response accept_all (fst (on_disvovered 1700000000000000000 os_address 5 example_bridge))
      example_bridge)) = (connecting_clients example_bridge)(key \<mapsto> c) \<and>
    cl_posted c = [CH_resolve ''10.0.0.1'' (uint (tcp_server_port example_bridge))] \<and> client_ok c"
    by (rule bridge_handshake [where name = "''svc''" and addr = "''10.0.0.1''", OF _ _ _ _ _ _ _ _ _ _ _ _ _ _ key_def])
      (simp_all add: example_bridge_state os_address_def accept_all_def)
  then show ?thesis unfolding example_bridge_state client_ok_def by blast
qed

theorem bridge_same_peer_twice_witness:
  "\<exists>b' b'' k1 k2 c1 c2.
    b' = snd (on_discovery_response accept_all (fst (on_disvovered 1000000 os_address 5 example_bridge)) example_bridge) \<and>
    b'' = snd (on_discovery_response accept_all (fst (on_disvovered 2000000 os_address 5 example_bridge)) b') \<and>
    k1 \<noteq> k2 \<and> connecting_clients b'' = [k1 \<mapsto> c1, k2 \<mapsto> c2]"
proof -
  let ?b' = "snd (on_discovery_response accept_all (fst (on_disvovered 1000000 os_address 5 example_bridge)) example_bridge)"
  let ?b'' = "snd (on_discovery_response accept_all (fst (on_disvovered 2000000 os_address 5 example_bridge)) ?b')"
  have "\<exists>k1 k2 c1 c2. k1 \<noteq> k2 \<and> connecting_clients ?b'' = [k1 \<mapsto> c1, k2 \<mapsto> c2] \<and>
      cl_posted c1 = [CH_resolve ''10.0.0.1'' (uint (tcp_server_port example_bridge))] \<and>
      cl_posted c2 = [CH_resolve ''10.0.0.1'' (uint (tcp_server_port example_bridge))]"
    by (rule bridge_same_peer_twice [OF _ _ _ _ _ _ _ _ _ _ _ _ _ _ refl refl, where name = "''svc''" and addr = "''10.0.0.1''"])
      (simp_all add: example_bridge_state os_address_def accept_all_def)
  then show ?thesis by blast
qed

definition second_bridge :: "(nat, nat) Bridge" where
  "second_bridge = Bridge_new 0 (\<lambda>_. '''') 54322 example_config 12345"

theorem bridge_peer_missed_witness:
  "\<exists>b'. b' = snd (on_discovery_response accept_all (fst (on_disvovered 1000000 os_address 5 example_bridge)) example_bridge) \<and>
    on_discovery_response accept_all (fst (on_disvovered 1999999 (\<lambda>_. Some ''10.0.0.2'') 5 second_bridge)) b' =
      (True, b'\<lparr>discovery_count := discovery_count b' + 1\<rparr>)"
proof -
  have second: "discovery_target (config second_bridge) = ''svc''" "tcp_server second_bridge \<noteq> None"
    by (simp_all add: second_bridge_def Bridge_new_def set_up_discovery_def set_up_tcp_server_def Let_def example_config_def)
  let ?b' = "snd (on_discovery_response accept_all (fst (on_disvovered 1000000 os_address 5 example_bridge)) example_bridge)"
  have "\<exists>key c. connecting_clients ?b' = [key \<mapsto> c] \<and>
      cl_posted c = [CH_resolve ''10.0.0.1'' (uint (tcp_server_port example_bridge))] \<and>
      on_discovery_response accept_all (fst (on_disvovered 1999999 (\<lambda>_. Some ''10.0.0.2'') 5 second_bridge)) ?b' =
        (True, ?b'\<lparr>discovery_count := discovery_count ?b' + 1\<rparr>)"
    by (rule bridge_peer_missed [where name = "''svc''" and ?ip1.0 = "''10.0.0.1''" and ?ip2.0 = "''10.0.0.2''" and b = example_bridge,
          OF _ _ _ _ _ _ _ _ _ _ _ _ _ _ _ _ _ _ _ _ _ _ refl])
      (simp_all add: example_bridge_state second os_address_def accept_all_def)
  then show ?thesis by blast
qed

end
