(* ===== verification/Bridge_Stop.thy ===== *)
theory Bridge_Stop
  imports Bridge
begin

text \<open>
  The destructor of \<open>eestv/data_bridge/bridge.cpp\<close>: it stops the discovery client, the discovery
  server, the TCP server and the connecting clients one after the other, and every one of these
  calls waits for a callback of the component while the \<open>io_context\<close> goes on. The contract of
  \<open>stop\<close> is the locale \<open>stoppable\<close>, which the four kinds of component interpret.
\<close>

section \<open>The destructor\<close>

text \<open>
  Where the destructor is: in the call of \<open>stop\<close> of a component, with the result of its
  \<open>async_stop\<close>, which says whether it waits. In the loop over the clients the lists are the keys
  visited before and those to come.
\<close>

datatype destructor_stage =
  Not_destroyed
| In_discovery_client bool
| In_discovery_server bool
| In_tcp_server bool
| In_client bool "string list" string "string list"
| Destroyed "string list"

text \<open>The next client of the loop.\<close>

fun stop_next_client ::
  "bool \<Rightarrow> string list \<Rightarrow> string list \<Rightarrow> ('ep, 'e) Bridge \<Rightarrow> destructor_stage \<times> ('ep, 'e) Bridge" where
  "stop_next_client is_on_io_thread visited [] b = (Destroyed visited, b)"
| "stop_next_client is_on_io_thread visited (key # keys) b =
     (case connecting_clients b key of
        Some c \<Rightarrow>
          (let (waits, c) = client_stop is_on_io_thread 0 c
           in (In_client waits visited key keys, b\<lparr>connecting_clients := (connecting_clients b)(key \<mapsto> c)\<rparr>))
      | None \<Rightarrow> stop_next_client is_on_io_thread visited keys b)"

text \<open>
  What the body of the destructor does next (the destructors of the members, such as \<open>~TcpConnection\<close>
  of the pending connections, which stop and wait in their turn, run after it). A \<open>stop\<close> that waits returns once the callback given to it has been
  called; \<open>keys\<close> is the order in which the loop visits the map.
\<close>

fun run_destructor ::
  "bool \<Rightarrow> string list \<Rightarrow> destructor_stage \<Rightarrow> ('ep, 'e) Bridge \<Rightarrow> destructor_stage \<times> ('ep, 'e) Bridge" where
  "run_destructor is_on_io_thread keys Not_destroyed b =
     (let (waits, c) = uclient_stop is_on_io_thread 0 (discovery_client b)
      in (In_discovery_client waits, b\<lparr>discovery_client := c\<rparr>))"
| "run_destructor is_on_io_thread keys (In_discovery_client waits) b =
     (if waits \<and> uc_stopped_calls (discovery_client b) = [] then (In_discovery_client waits, b)
      else
        (let (waits, s) = userver_stop is_on_io_thread 0 (discovery_server b)
         in (In_discovery_server waits, b\<lparr>discovery_server := s\<rparr>)))"
| "run_destructor is_on_io_thread keys (In_discovery_server waits) b =
     (if waits \<and> us_stopped_calls (discovery_server b) = [] then (In_discovery_server waits, b)
      else
        (case tcp_server b of
           Some s \<Rightarrow>
             (let (waits, s) = server_stop is_on_io_thread 0 s
              in (In_tcp_server waits, b\<lparr>tcp_server := Some s\<rparr>))
         | None \<Rightarrow> (In_tcp_server False, b)))"
| "run_destructor is_on_io_thread keys (In_tcp_server waits) b =
     (if waits \<and> (\<forall>s. tcp_server b = Some s \<longrightarrow> srv_stopped_calls s = []) then (In_tcp_server waits, b)
      else stop_next_client is_on_io_thread [] keys b)"
| "run_destructor is_on_io_thread keys (In_client waits visited key later) b =
     (if waits \<and> (\<forall>c. connecting_clients b key = Some c \<longrightarrow> cl_stopped_calls c = []) then (In_client waits visited key later, b)
      else stop_next_client is_on_io_thread (visited @ [key]) later b)"
| "run_destructor is_on_io_thread keys (Destroyed visited) b = (Destroyed visited, b)"

text \<open>The destructor runs on a thread of its own, the components on those of the \<open>io_context\<close>.\<close>

inductive destroy_step ::
  "(string \<Rightarrow> 'addr option) \<Rightarrow> destructor_stage \<times> ('ep, 'e) Bridge \<Rightarrow> destructor_stage \<times> ('ep, 'e) Bridge \<Rightarrow> bool"
  for make_address where
  component: "bridge_step make_address b b' \<Longrightarrow> (\<forall>visited. stage \<noteq> Destroyed visited) \<Longrightarrow>
    destroy_step make_address (stage, b) (stage, b')"
| destructor: "distinct keys \<Longrightarrow> set keys = dom (connecting_clients b) \<Longrightarrow>
    destroy_step make_address (stage, b) (run_destructor False keys stage b)"

definition destroy_init :: "destructor_stage \<times> ('ep, 'e) Bridge \<Rightarrow> bool" where
  "destroy_init d \<longleftrightarrow> fst d = Not_destroyed \<and> bridge_init (snd d)"

section \<open>The components can be stopped\<close>

text \<open>The steps of a component under the bridge, as in \<^const>\<open>bridge_step\<close>.\<close>

definition run_discovery_client :: "'ep UdpDiscoveryClient \<Rightarrow> 'ep UdpDiscoveryClient \<Rightarrow> bool" where
  "run_discovery_client c c' \<longleftrightarrow> uclient_step False False c c' \<and>
     uget UDS_running c' = uget UDS_running c \<and> uget UDS_stopping c' = uget UDS_stopping c"

definition discovery_client_ok :: "'ep UdpDiscoveryClient \<Rightarrow> bool" where
  "discovery_client_ok c \<longleftrightarrow> reachable uclient_init (uclient_step False False) c \<and>
     uc_stop_requests c = of_bool (uget UDS_stopping c)"

lemma uclient_handler_calls:
  "uc_stop_requests (uclient_run_handler h c) = uc_stop_requests c \<and>
   length (uc_stopped_calls c) \<le> length (uc_stopped_calls (uclient_run_handler h c))"
  by (cases h) (auto simp: uclient_start_posted_def uclient_stop_posted_def handle_send_complete_def handle_response_def
      handle_timeout_def Let_def send_discovery_request_def uclient_async_receive_def uclient_resolve_on_stopped_def
      uclient_post_stopped_def uclient_cancel_def split: option.split)

lemma uclient_step_calls:
  assumes "uclient_step t e c c'"
  shows "length (uc_stopped_calls c) \<le> length (uc_stopped_calls c')"
    and "uc_stop_requests c' = uc_stop_requests c \<or> uget UDS_stopping c' \<noteq> uget UDS_stopping c"
proof -
  have "length (uc_stopped_calls c) \<le> length (uc_stopped_calls c') \<and>
    (uc_stop_requests c' = uc_stop_requests c \<or> uget UDS_stopping c' \<noteq> uget UDS_stopping c)"
    using assms
  proof cases
    case (handler hs h hs')
    then show ?thesis using uclient_handler_calls [of h "c\<lparr>uc_posted := hs @ hs'\<rparr>"] by simp
  qed (auto simp: uclient_async_start_def uclient_stop_def uclient_async_stop_def uclient_reset_def udp_flags.flag_laws)
  then show "length (uc_stopped_calls c) \<le> length (uc_stopped_calls c')"
    and "uc_stop_requests c' = uc_stop_requests c \<or> uget UDS_stopping c' \<noteq> uget UDS_stopping c" by simp_all
qed

interpretation bridge_client: stoppable discovery_client_ok run_discovery_client "uclient_stop False k"
  "uget UDS_stopping" uc_stopped_calls uclient_settled for k
proof unfold_locales
  fix c c' :: "'ep UdpDiscoveryClient"
  show "length (uc_stopped_calls c) \<le> of_bool (uget UDS_stopping c)" if "discovery_client_ok c"
    using that udp_client.called_at_most_requests [of c] by (simp add: discovery_client_ok_def)
  show "uc_stopped_calls c \<noteq> []" if "discovery_client_ok c" "uget UDS_stopping c" "uclient_settled c"
    using that udp_client.idle_called [of c] by (auto simp: discovery_client_ok_def)
  show "discovery_client_ok c'" if "discovery_client_ok c" "run_discovery_client c c'"
    using that uclient_step_calls(2) [of False False c c'] by (auto simp: discovery_client_ok_def run_discovery_client_def intro: reachable.more)
  show "discovery_client_ok (snd (uclient_stop False k c))" if "discovery_client_ok c"
  proof -
    have "reachable uclient_init (uclient_step False False) (snd (uclient_stop False k c))"
      using that by (intro reachable_uclient_calls) (simp add: discovery_client_ok_def)
    with that show ?thesis by (simp add: discovery_client_ok_def) (simp add: uclient_stop_def uclient_async_stop_def)
  qed
qed (auto simp: run_discovery_client_def uclient_stop_def uclient_async_stop_def intro: uclient_step_calls)

definition run_discovery_server :: "'ep UdpDiscoveryServer \<Rightarrow> 'ep UdpDiscoveryServer \<Rightarrow> bool" where
  "run_discovery_server s s' \<longleftrightarrow> userver_step False False s s' \<and>
     vget UDS_running s' = vget UDS_running s \<and> vget UDS_stopping s' = vget UDS_stopping s"

definition discovery_server_ok :: "'ep UdpDiscoveryServer \<Rightarrow> bool" where
  "discovery_server_ok s \<longleftrightarrow> reachable userver_init (userver_step False False) s \<and>
     us_stop_requests s = of_bool (vget UDS_stopping s)"

lemma userver_handler_calls:
  "us_stop_requests (userver_run_handler h s) = us_stop_requests s \<and>
   length (us_stopped_calls s) \<le> length (us_stopped_calls (userver_run_handler h s))"
  by (cases h) (auto simp: userver_start_posted_def userver_stop_posted_def userver_handle_receive_def userver_handle_send_def
      Let_def start_receive_def userver_resolve_on_stopped_def userver_post_stopped_def userver_cancel_def split: option.split)

lemma userver_step_calls:
  assumes "userver_step t e s s'"
  shows "length (us_stopped_calls s) \<le> length (us_stopped_calls s')"
    and "us_stop_requests s' = us_stop_requests s \<or> vget UDS_stopping s' \<noteq> vget UDS_stopping s"
proof -
  have "length (us_stopped_calls s) \<le> length (us_stopped_calls s') \<and>
    (us_stop_requests s' = us_stop_requests s \<or> vget UDS_stopping s' \<noteq> vget UDS_stopping s)"
    using assms
  proof cases
    case (handler hs h hs')
    then show ?thesis using userver_handler_calls [of h "s\<lparr>us_posted := hs @ hs'\<rparr>"] by simp
  qed (auto simp: userver_async_start_def userver_stop_def userver_async_stop_def userver_reset_def add_discoverable_def
      udp_flags.flag_laws split: option.split)
  then show "length (us_stopped_calls s) \<le> length (us_stopped_calls s')"
    and "us_stop_requests s' = us_stop_requests s \<or> vget UDS_stopping s' \<noteq> vget UDS_stopping s" by simp_all
qed

interpretation bridge_server: stoppable discovery_server_ok run_discovery_server "userver_stop False k"
  "vget UDS_stopping" us_stopped_calls userver_idle for k
proof unfold_locales
  fix s s' :: "'ep UdpDiscoveryServer"
  show "length (us_stopped_calls s) \<le> of_bool (vget UDS_stopping s)" if "discovery_server_ok s"
    using that udp_server.called_at_most_requests [of s] by (simp add: discovery_server_ok_def)
  show "us_stopped_calls s \<noteq> []" if "discovery_server_ok s" "vget UDS_stopping s" "userver_idle s"
    using that udp_server.idle_called [of s] by (auto simp: discovery_server_ok_def)
  show "discovery_server_ok s'" if "discovery_server_ok s" "run_discovery_server s s'"
    using that userver_step_calls(2) [of False False s s'] by (auto simp: discovery_server_ok_def run_discovery_server_def intro: reachable.more)
  show "discovery_server_ok (snd (userver_stop False k s))" if "discovery_server_ok s"
  proof -
    have "reachable userver_init (userver_step False False) (snd (userver_stop False k s))"
      using that by (intro reachable_userver_calls) (simp add: discovery_server_ok_def)
    with that show ?thesis by (simp add: discovery_server_ok_def) (simp add: userver_stop_def userver_async_stop_def)
  qed
qed (auto simp: run_discovery_server_def userver_stop_def userver_async_stop_def intro: userver_step_calls)

definition run_tcp_server :: "Server \<Rightarrow> Server \<Rightarrow> bool" where
  "run_tcp_server s s' \<longleftrightarrow> server_step False s s' \<and> sget TSS_stop_signaled s' = sget TSS_stop_signaled s"

definition tcp_server_ok :: "Server \<Rightarrow> bool" where
  "tcp_server_ok s \<longleftrightarrow> reachable server_init (server_step False) s \<and> sget TSS_start_signaled s"

lemma server_step_calls:
  assumes "server_step t s s'"
  shows "length (srv_stopped_calls s) \<le> length (srv_stopped_calls s')"
    and "sget TSS_start_signaled s \<Longrightarrow> sget TSS_start_signaled s'"
proof -
  have run: "length (srv_stopped_calls s) \<le> length (srv_stopped_calls (server_run_handler h s)) \<and>
      (sget TSS_start_signaled (server_run_handler h s) \<longleftrightarrow> sget TSS_start_signaled s)" for h s
    by (cases h) (auto simp: async_accept_def handle_accept_def stop_posted_def acceptor_cancel_def server_resolve_on_stopped_def
        Let_def split: option.split)
  have "length (srv_stopped_calls s) \<le> length (srv_stopped_calls s') \<and>
    (sget TSS_start_signaled s \<longrightarrow> sget TSS_start_signaled s')"
    using assms
  proof cases
    case (handler hs h hs')
    then show ?thesis using run [of "s\<lparr>srv_posted := hs @ hs'\<rparr>" h] by simp
  qed (auto simp: server_async_start_def server_stop_def server_async_stop_def set_connection_callback_def)
  then show "length (srv_stopped_calls s) \<le> length (srv_stopped_calls s')"
    and "sget TSS_start_signaled s \<Longrightarrow> sget TSS_start_signaled s'" by simp_all
qed

interpretation bridge_tcp_server: stoppable tcp_server_ok run_tcp_server "server_stop False k"
  "sget TSS_stop_signaled" srv_stopped_calls server_idle for k
proof unfold_locales
  fix s s' :: Server
  show "length (srv_stopped_calls s) \<le> of_bool (sget TSS_stop_signaled s)" if "tcp_server_ok s"
    using that server.called_at_most_requests [of s] by (simp add: tcp_server_ok_def split: if_splits)
  show "srv_stopped_calls s \<noteq> []" if "tcp_server_ok s" "sget TSS_stop_signaled s" "server_idle s"
    using that server.idle_called [of s] by (auto simp: tcp_server_ok_def)
  show "tcp_server_ok s'" if "tcp_server_ok s" "run_tcp_server s s'"
    using that server_step_calls(2) [of False s s'] by (auto simp: tcp_server_ok_def run_tcp_server_def intro: reachable.more)
  show "tcp_server_ok (snd (server_stop False k s))" if "tcp_server_ok s"
  proof -
    have "reachable server_init (server_step False) (snd (server_stop False k s))"
      using that by (intro reachable_server_calls) (simp add: tcp_server_ok_def)
    with that show ?thesis by (simp add: tcp_server_ok_def) (simp add: server_stop_def server_async_stop_def)
  qed
qed (auto simp: run_tcp_server_def tcp_server_ok_def server_stop_def server_async_stop_def intro: server_step_calls)

definition run_tcp_client :: "'e Client \<Rightarrow> 'e Client \<Rightarrow> bool" where
  "run_tcp_client c c' \<longleftrightarrow> client_step False False c c' \<and> cget CLS_stop_singaled c' = cget CLS_stop_singaled c"

definition tcp_client_ok :: "'e Client \<Rightarrow> bool" where
  "tcp_client_ok c \<longleftrightarrow> reachable client_init (client_step False False) c \<and> stop_requests c = of_bool (cget CLS_stop_singaled c)"

lemma client_step_calls:
  assumes "client_step t False c c'"
  shows "length (cl_stopped_calls c) \<le> length (cl_stopped_calls c')"
    and "stop_requests c' = stop_requests c \<or> cget CLS_stop_singaled c' \<noteq> cget CLS_stop_singaled c"
proof -
  have run: "stop_requests (client_run_handler h c) = stop_requests c \<and>
      length (cl_stopped_calls c) \<le> length (cl_stopped_calls (client_run_handler h c))" for h and c :: "'a Client"
    by (cases h) (auto simp: client_async_resolve_def client_stop_posted_def client_cancel_def handle_resolve_def handle_connect_def
        post_completion_def client_resolve_on_stopped_def Let_def split: option.split)
  have "length (cl_stopped_calls c) \<le> length (cl_stopped_calls c') \<and>
    (stop_requests c' = stop_requests c \<or> cget CLS_stop_singaled c' \<noteq> cget CLS_stop_singaled c)"
    using assms
  proof cases
    case (handler hs h hs')
    then show ?thesis using run [of h "c\<lparr>cl_posted := hs @ hs'\<rparr>"] by simp
  qed (auto simp: client_async_connect_def client_stop_def client_async_stop_def)
  then show "length (cl_stopped_calls c) \<le> length (cl_stopped_calls c')"
    and "stop_requests c' = stop_requests c \<or> cget CLS_stop_singaled c' \<noteq> cget CLS_stop_singaled c" by simp_all
qed

lemma tcp_client_ok_inv: "tcp_client_ok c \<Longrightarrow> client_inv c"
  unfolding tcp_client_ok_def
  by (elim conjE, erule reachable.induct) (auto intro: client_init_inv client_step_inv)

interpretation bridge_tcp_client: stoppable tcp_client_ok run_tcp_client "client_stop False k"
  "cget CLS_stop_singaled" cl_stopped_calls client_idle for k
proof unfold_locales
  fix c c' :: "'e Client"
  show "length (cl_stopped_calls c) \<le> of_bool (cget CLS_stop_singaled c)" if "tcp_client_ok c"
    using that client.balance [OF tcp_client_ok_inv [OF that]] by (simp add: tcp_client_ok_def)
  show "cl_stopped_calls c \<noteq> []" if "tcp_client_ok c" "cget CLS_stop_singaled c" "client_idle c"
    using that client.balance [OF tcp_client_ok_inv [OF that(1)]] client.idle_settled [OF tcp_client_ok_inv [OF that(1)] that(3)]
    by (auto simp: tcp_client_ok_def)
  show "tcp_client_ok c'" if "tcp_client_ok c" "run_tcp_client c c'"
    using that client_step_calls(2) [of False c c'] by (auto simp: tcp_client_ok_def run_tcp_client_def intro: reachable.more)
  show "tcp_client_ok (snd (client_stop False k c))" if "tcp_client_ok c"
  proof -
    have "reachable client_init (client_step False False) (snd (client_stop False k c))"
      using that by (intro reachable_client_calls) (simp add: tcp_client_ok_def)
    with that show ?thesis by (simp add: tcp_client_ok_def) (simp add: client_stop_def client_async_stop_def)
  qed
qed (auto simp: run_tcp_client_def client_stop_def client_async_stop_def intro: client_step_calls)

section \<open>The bridge under its destructor\<close>

definition bridge_ok :: "('ep, 'e) Bridge \<Rightarrow> bool" where
  "bridge_ok b \<longleftrightarrow> discovery_client_ok (discovery_client b) \<and> discovery_server_ok (discovery_server b) \<and>
     (\<exists>s. tcp_server b = Some s \<and> tcp_server_ok s) \<and> (\<forall>key c. connecting_clients b key = Some c \<longrightarrow> tcp_client_ok c)"

definition unstopped_client :: "('ep, 'e) Bridge \<Rightarrow> string \<Rightarrow> bool" where
  "unstopped_client b key \<longleftrightarrow> (\<exists>c. connecting_clients b key = Some c \<and> \<not> cget CLS_stop_singaled c)"

definition stopping_client :: "('ep, 'e) Bridge \<Rightarrow> string \<Rightarrow> bool" where
  "stopping_client b key \<longleftrightarrow> (\<exists>c. connecting_clients b key = Some c \<and> cget CLS_stop_singaled c)"

definition finished_client :: "('ep, 'e) Bridge \<Rightarrow> string \<Rightarrow> bool" where
  "finished_client b key \<longleftrightarrow> (\<exists>c. connecting_clients b key = Some c \<and> bridge_tcp_client.finished c)"

lemmas client_stages = unstopped_client_def stopping_client_def finished_client_def

text \<open>A step of the bridge runs its components and adds clients that nobody has stopped.\<close>

definition runs_to :: "('ep, 'e) Bridge \<Rightarrow> ('ep, 'e) Bridge \<Rightarrow> bool" where
  "runs_to b b' \<longleftrightarrow>
     (discovery_client b' = discovery_client b \<or> run_discovery_client (discovery_client b) (discovery_client b')) \<and>
     (discovery_server b' = discovery_server b \<or> run_discovery_server (discovery_server b) (discovery_server b')) \<and>
     (tcp_server b' = tcp_server b \<or>
       (\<exists>s s'. tcp_server b = Some s \<and> tcp_server b' = Some s' \<and> run_tcp_server s s')) \<and>
     (\<forall>key c. connecting_clients b key = Some c \<longrightarrow>
       (\<exists>c'. connecting_clients b' key = Some c' \<and> (c' = c \<or> run_tcp_client c c'))) \<and>
     (\<forall>key c. connecting_clients b key = None \<longrightarrow> connecting_clients b' key = Some c \<longrightarrow>
       tcp_client_ok c \<and> \<not> cget CLS_stop_singaled c)"

lemma new_client_unstopped:
  "tcp_client_ok (snd (client_async_connect host p k TcpClient_new)) \<and>
   \<not> cget CLS_stop_singaled (snd (client_async_connect host p k TcpClient_new))"
proof -
  have "reachable client_init (client_step False False) (snd (client_async_connect host p k TcpClient_new))"
    by (intro reachable_client_calls reachable_client_new)
  then show ?thesis
    by (simp add: tcp_client_ok_def) (simp add: client_async_connect_def TcpClient_new_def)
qed

lemma deliver_responses_frame [simp]:
  "discovery_client (deliver_responses make_address rs b) = discovery_client b"
  "discovery_server (deliver_responses make_address rs b) = discovery_server b"
  "tcp_server (deliver_responses make_address rs b) = tcp_server b"
  unfolding deliver_responses_def
  by (induction rs arbitrary: b)
    (auto simp: on_discovery_response_def on_peer_discovered_eq Let_def split: option.split)

lemma on_discovery_response_clients:
  "connecting_clients b key = Some c \<Longrightarrow> connecting_clients (snd (on_discovery_response make_address r b)) key = Some c"
  "connecting_clients b key = None \<Longrightarrow> connecting_clients (snd (on_discovery_response make_address r b)) key = Some c \<Longrightarrow>
    tcp_client_ok c \<and> \<not> cget CLS_stop_singaled c"
  by (auto simp: on_discovery_response_def on_peer_discovered_eq Let_def new_client_unstopped split: option.splits if_splits)

lemma deliver_responses_simps:
  "deliver_responses make_address [] b = b"
  "deliver_responses make_address (r # rs) b = deliver_responses make_address rs (snd (on_discovery_response make_address (fst r) b))"
  by (simp_all add: deliver_responses_def split_def)

lemma deliver_responses_keep:
  "connecting_clients b key = Some c \<Longrightarrow> connecting_clients (deliver_responses make_address rs b) key = Some c"
  by (induction rs arbitrary: b) (simp_all add: deliver_responses_simps on_discovery_response_clients(1))

lemma deliver_responses_new:
  assumes "connecting_clients b key = None" and "connecting_clients (deliver_responses make_address rs b) key = Some c"
  shows "tcp_client_ok c \<and> \<not> cget CLS_stop_singaled c"
  using assms
proof (induction rs arbitrary: b)
  case (Cons r rs)
  let ?b = "snd (on_discovery_response make_address (fst r) b)"
  have rest: "connecting_clients (deliver_responses make_address rs ?b) key = Some c"
    using Cons.prems(2) by (simp add: deliver_responses_simps)
  show ?case
  proof (cases "connecting_clients ?b key")
    case None
    then show ?thesis using rest by (rule Cons.IH)
  next
    case (Some d)
    with rest have "d = c" by (simp add: deliver_responses_keep)
    with Some Cons.prems(1) show ?thesis using on_discovery_response_clients(2) by blast
  qed
qed (simp add: deliver_responses_simps)

lemma bridge_step_runs:
  assumes "bridge_step make_address b b'"
  shows "runs_to b b'"
  using assms
proof cases
  case discovered
  then show ?thesis by (simp add: runs_to_def on_disvovered_def Let_def)
next
  case (discovery c)
  then have "connecting_clients b' key = Some d" if "connecting_clients b key = Some d" for key d
    using that by (simp add: deliver_responses_keep)
  moreover from discovery have "tcp_client_ok d \<and> \<not> cget CLS_stop_singaled d"
    if "connecting_clients b key = None" "connecting_clients b' key = Some d" for key d
    using that deliver_responses_new [of "b\<lparr>discovery_client := c\<rparr>"] by simp
  ultimately show ?thesis
    using discovery by (simp add: runs_to_def run_discovery_client_def)
next
  case (listening s)
  then show ?thesis by (simp add: runs_to_def run_discovery_server_def)
next
  case (accept s s' keys)
  then show ?thesis by (auto simp: runs_to_def run_tcp_server_def)
next
  case (client key c c')
  then show ?thesis by (auto simp: runs_to_def run_tcp_client_def)
qed

section \<open>The invariant of the destructor\<close>

definition tcp_unstopped :: "('ep, 'e) Bridge \<Rightarrow> bool" where
  "tcp_unstopped b \<longleftrightarrow> (\<exists>s. tcp_server b = Some s \<and> \<not> sget TSS_stop_signaled s)"

definition tcp_stopping :: "('ep, 'e) Bridge \<Rightarrow> bool" where
  "tcp_stopping b \<longleftrightarrow> (\<exists>s. tcp_server b = Some s \<and> sget TSS_stop_signaled s)"

definition tcp_finished :: "('ep, 'e) Bridge \<Rightarrow> bool" where
  "tcp_finished b \<longleftrightarrow> (\<exists>s. tcp_server b = Some s \<and> bridge_tcp_server.finished s)"

definition clients_unstopped :: "('ep, 'e) Bridge \<Rightarrow> bool" where
  "clients_unstopped b \<longleftrightarrow> (\<forall>key c. connecting_clients b key = Some c \<longrightarrow> \<not> cget CLS_stop_singaled c)"

lemmas tcp_stages = tcp_unstopped_def tcp_stopping_def tcp_finished_def

lemma runs_ok: "bridge_ok b \<Longrightarrow> runs_to b b' \<Longrightarrow> bridge_ok b'"
proof -
  assume ok: "bridge_ok b" and runs: "runs_to b b'"
  have "tcp_client_ok c'" if "connecting_clients b' key = Some c'" for key c'
  proof (cases "connecting_clients b key")
    case None
    with that runs show ?thesis by (simp add: runs_to_def)
  next
    case (Some c)
    with that runs have "c' = c \<or> run_tcp_client c c'" by (fastforce simp: runs_to_def)
    with Some ok show ?thesis using bridge_tcp_client.ok_run [of c c'] by (auto simp: bridge_ok_def)
  qed
  moreover have "discovery_client_ok (discovery_client b')" "discovery_server_ok (discovery_server b')"
    using ok runs bridge_client.ok_run [of "discovery_client b" "discovery_client b'"]
      bridge_server.ok_run [of "discovery_server b" "discovery_server b'"] by (auto simp: bridge_ok_def runs_to_def)
  moreover from ok obtain s where "tcp_server b = Some s" "tcp_server_ok s" by (auto simp: bridge_ok_def)
  with runs bridge_tcp_server.ok_run [of s] have "\<exists>s'. tcp_server b' = Some s' \<and> tcp_server_ok s'"
    by (auto simp: runs_to_def)
  ultimately show ?thesis by (simp add: bridge_ok_def)
qed

lemma runs_discovery:
  assumes "runs_to b b'"
  shows "uget UDS_stopping (discovery_client b') = uget UDS_stopping (discovery_client b)"
    and "vget UDS_stopping (discovery_server b') = vget UDS_stopping (discovery_server b)"
    and "bridge_client.finished (discovery_client b) \<Longrightarrow> bridge_client.finished (discovery_client b')"
    and "bridge_server.finished (discovery_server b) \<Longrightarrow> bridge_server.finished (discovery_server b')"
  using assms bridge_client.run_requested [of "discovery_client b" "discovery_client b'"]
    bridge_server.run_requested [of "discovery_server b" "discovery_server b'"]
    bridge_client.finished_run [of "discovery_client b" "discovery_client b'"]
    bridge_server.finished_run [of "discovery_server b" "discovery_server b'"]
  by (auto simp: runs_to_def)

lemma runs_tcp:
  assumes "runs_to b b'"
  shows "tcp_unstopped b \<Longrightarrow> tcp_unstopped b'" "tcp_stopping b \<Longrightarrow> tcp_stopping b'" "tcp_finished b \<Longrightarrow> tcp_finished b'"
proof -
  have "tcp_server b' = tcp_server b \<or> (\<exists>s s'. tcp_server b = Some s \<and> tcp_server b' = Some s' \<and> run_tcp_server s s')"
    using assms by (simp add: runs_to_def)
  then show "tcp_unstopped b \<Longrightarrow> tcp_unstopped b'" "tcp_stopping b \<Longrightarrow> tcp_stopping b'" "tcp_finished b \<Longrightarrow> tcp_finished b'"
    using bridge_tcp_server.run_requested bridge_tcp_server.finished_run by (auto simp: tcp_stages)
qed

lemma runs_client:
  assumes "runs_to b b'"
  shows "unstopped_client b key \<Longrightarrow> unstopped_client b' key" "stopping_client b key \<Longrightarrow> stopping_client b' key"
    and "finished_client b key \<Longrightarrow> finished_client b' key"
proof -
  have "\<exists>c'. connecting_clients b' key = Some c' \<and> (c' = c \<or> run_tcp_client c c')" if "connecting_clients b key = Some c" for c
    using assms that by (simp add: runs_to_def)
  then show "unstopped_client b key \<Longrightarrow> unstopped_client b' key" "stopping_client b key \<Longrightarrow> stopping_client b' key"
      "finished_client b key \<Longrightarrow> finished_client b' key"
    using bridge_tcp_client.run_requested bridge_tcp_client.finished_run unfolding client_stages by metis+
qed

lemma runs_clients_unstopped:
  assumes "runs_to b b'" and "clients_unstopped b"
  shows "clients_unstopped b'"
  unfolding clients_unstopped_def
proof (intro allI impI)
  fix key c' assume new: "connecting_clients b' key = Some c'"
  show "\<not> cget CLS_stop_singaled c'"
  proof (cases "connecting_clients b key")
    case None
    with new assms(1) show ?thesis by (simp add: runs_to_def)
  next
    case (Some c)
    with assms(2) have "unstopped_client b key" by (simp add: clients_unstopped_def unstopped_client_def)
    with new show ?thesis using runs_client(1) [OF assms(1)] by (fastforce simp: unstopped_client_def)
  qed
qed

fun destructor_at :: "destructor_stage \<Rightarrow> ('ep, 'e) Bridge \<Rightarrow> bool" where
  "destructor_at Not_destroyed b \<longleftrightarrow> \<not> uget UDS_stopping (discovery_client b) \<and>
     \<not> vget UDS_stopping (discovery_server b) \<and> tcp_unstopped b \<and> clients_unstopped b"
| "destructor_at (In_discovery_client waits) b \<longleftrightarrow> waits \<and> uget UDS_stopping (discovery_client b) \<and>
     \<not> vget UDS_stopping (discovery_server b) \<and> tcp_unstopped b \<and> clients_unstopped b"
| "destructor_at (In_discovery_server waits) b \<longleftrightarrow> waits \<and> bridge_client.finished (discovery_client b) \<and>
     vget UDS_stopping (discovery_server b) \<and> tcp_unstopped b \<and> clients_unstopped b"
| "destructor_at (In_tcp_server waits) b \<longleftrightarrow> waits \<and> bridge_client.finished (discovery_client b) \<and>
     bridge_server.finished (discovery_server b) \<and> tcp_stopping b \<and> clients_unstopped b"
| "destructor_at (In_client waits visited key later) b \<longleftrightarrow> waits \<and> bridge_client.finished (discovery_client b) \<and>
     bridge_server.finished (discovery_server b) \<and> tcp_finished b \<and> distinct (visited @ key # later) \<and>
     (\<forall>k \<in> set visited. finished_client b k) \<and> stopping_client b key \<and> (\<forall>k \<in> set later. unstopped_client b k)"
| "destructor_at (Destroyed visited) b \<longleftrightarrow> bridge_client.finished (discovery_client b) \<and>
     bridge_server.finished (discovery_server b) \<and> tcp_finished b \<and> (\<forall>k \<in> set visited. finished_client b k)"

definition destroy_inv :: "destructor_stage \<times> ('ep, 'e) Bridge \<Rightarrow> bool" where
  "destroy_inv d \<longleftrightarrow> bridge_ok (snd d) \<and> destructor_at (fst d) (snd d)"

lemma runs_destructor_at: "runs_to b b' \<Longrightarrow> destructor_at stage b \<Longrightarrow> destructor_at stage b'"
  by (cases stage) (simp_all add: runs_discovery runs_tcp runs_client runs_clients_unstopped)

lemma update_client:
  assumes "bridge_ok b" and "connecting_clients b key = Some c" and "\<not> cget CLS_stop_singaled c"
    and "b' = b\<lparr>connecting_clients := (connecting_clients b)(key \<mapsto> snd (client_stop False k c))\<rparr>"
  shows "fst (client_stop False k c)" "bridge_ok b'" "stopping_client b' key"
    "k' \<noteq> key \<Longrightarrow> finished_client b' k' = finished_client b k'"
    "k' \<noteq> key \<Longrightarrow> unstopped_client b' k' = unstopped_client b k'"
proof -
  have "tcp_client_ok c" using assms(1,2) by (simp add: bridge_ok_def)
  then have "fst (client_stop False k c) \<and> cget CLS_stop_singaled (snd (client_stop False k c))"
    using assms(3) by (rule bridge_tcp_client.stop_accepted)
  moreover from \<open>tcp_client_ok c\<close> have "tcp_client_ok (snd (client_stop False k c))" by (rule bridge_tcp_client.ok_stop)
  ultimately show "fst (client_stop False k c)" "bridge_ok b'" "stopping_client b' key"
    "k' \<noteq> key \<Longrightarrow> finished_client b' k' = finished_client b k'"
    "k' \<noteq> key \<Longrightarrow> unstopped_client b' k' = unstopped_client b k'"
    using assms by (auto simp: bridge_ok_def client_stages)
qed

lemma stop_next_client_inv:
  assumes "bridge_ok b" and "bridge_client.finished (discovery_client b)" and "bridge_server.finished (discovery_server b)"
    and "tcp_finished b" and "distinct (visited @ keys)"
    and "\<forall>k \<in> set visited. finished_client b k" and "\<forall>k \<in> set keys. unstopped_client b k"
  shows "destroy_inv (stop_next_client False visited keys b)"
proof (cases keys)
  case (Cons key later)
  with assms(7) obtain c where c: "connecting_clients b key = Some c" "\<not> cget CLS_stop_singaled c"
    by (auto simp: unstopped_client_def)
  let ?b = "b\<lparr>connecting_clients := (connecting_clients b)(key \<mapsto> snd (client_stop False 0 c))\<rparr>"
  note update = update_client [OF assms(1) c refl, where k = 0]
  have "k \<noteq> key" if "k \<in> set visited \<or> k \<in> set later" for k using that assms(5) Cons by auto
  then have "\<forall>k \<in> set visited. finished_client ?b k" "\<forall>k \<in> set later. unstopped_client ?b k"
    using assms(6,7) Cons update(4,5) by simp_all
  moreover have "tcp_finished ?b" using assms(4) by (simp add: tcp_finished_def)
  moreover have "distinct (visited @ key # later)" using assms(5) Cons by simp
  ultimately show ?thesis
    using update(1-3) assms(2,3) by (simp add: Cons c(1) destroy_inv_def split_def)
qed (use assms in \<open>simp add: destroy_inv_def\<close>)

lemma run_destructor_inv:
  assumes inv: "destroy_inv (stage, b)" and keys: "distinct keys" "set keys = dom (connecting_clients b)"
  shows "destroy_inv (run_destructor False keys stage b)"
proof (cases stage)
  case Not_destroyed
  with inv have "discovery_client_ok (discovery_client b)" "\<not> uget UDS_stopping (discovery_client b)"
    by (simp_all add: destroy_inv_def bridge_ok_def)
  from bridge_client.stop_accepted [OF this] bridge_client.ok_stop [OF this(1)] inv Not_destroyed show ?thesis
    by (auto simp: destroy_inv_def bridge_ok_def tcp_stages clients_unstopped_def split_def)
next
  case (In_discovery_client waits)
  with inv have ok: "discovery_client_ok (discovery_client b)" "discovery_server_ok (discovery_server b)"
      "\<not> vget UDS_stopping (discovery_server b)" by (simp_all add: destroy_inv_def bridge_ok_def)
  from bridge_server.stop_accepted [OF ok(2,3)] bridge_server.ok_stop [OF ok(2)] bridge_client.called_finished [OF ok(1)]
    inv In_discovery_client show ?thesis
    by (auto simp: destroy_inv_def bridge_ok_def tcp_stages clients_unstopped_def split_def)
next
  case (In_discovery_server waits)
  with inv obtain s where ok: "tcp_server b = Some s" "tcp_server_ok s" "\<not> sget TSS_stop_signaled s"
      "discovery_server_ok (discovery_server b)" by (auto simp: destroy_inv_def bridge_ok_def tcp_unstopped_def)
  from bridge_tcp_server.stop_accepted [OF ok(2,3)] bridge_tcp_server.ok_stop [OF ok(2)] bridge_server.called_finished [OF ok(4)]
    inv In_discovery_server ok(1) show ?thesis
    by (auto simp: destroy_inv_def bridge_ok_def tcp_stages clients_unstopped_def split_def)
next
  case (In_tcp_server waits)
  with inv obtain s where s: "tcp_server b = Some s" "tcp_server_ok s" by (auto simp: destroy_inv_def bridge_ok_def)
  show ?thesis
  proof (cases "srv_stopped_calls s = []")
    case False
    with s have "tcp_finished b" using bridge_tcp_server.called_finished by (auto simp: tcp_finished_def)
    moreover have "\<forall>k \<in> set keys. unstopped_client b k"
      using inv In_tcp_server keys(2) by (auto simp: destroy_inv_def clients_unstopped_def unstopped_client_def)
    ultimately have "destroy_inv (stop_next_client False [] keys b)"
      using inv In_tcp_server keys(1) by (intro stop_next_client_inv) (simp_all add: destroy_inv_def)
    with False s(1) In_tcp_server show ?thesis by simp
  qed (use inv In_tcp_server s in \<open>auto simp: destroy_inv_def\<close>)
next
  case (In_client waits visited key later)
  with inv obtain c where c: "connecting_clients b key = Some c" "tcp_client_ok c"
    by (auto simp: destroy_inv_def bridge_ok_def stopping_client_def)
  show ?thesis
  proof (cases "cl_stopped_calls c = []")
    case False
    with c have "finished_client b key" using bridge_tcp_client.called_finished by (auto simp: finished_client_def)
    with inv In_client have "destroy_inv (stop_next_client False (visited @ [key]) later b)"
      by (intro stop_next_client_inv) (auto simp: destroy_inv_def)
    with False c(1) In_client show ?thesis by simp
  qed (use inv In_client c in \<open>auto simp: destroy_inv_def\<close>)
qed (use inv in simp)

lemma destroy_step_inv:
  assumes "destroy_inv d" and "destroy_step make_address d d'"
  shows "destroy_inv d'"
  using assms(2)
proof cases
  case (component b b' stage)
  with assms(1) bridge_step_runs [of make_address b b'] show ?thesis
    by (auto simp: destroy_inv_def runs_ok runs_destructor_at)
next
  case (destructor keys b stage)
  with assms(1) show ?thesis by (simp only: run_destructor_inv)
qed

lemma destroy_init_inv:
  assumes "destroy_init d"
  shows "destroy_inv d"
proof -
  let ?server = "snd (server_async_start (set_connection_callback True (TcpServer_new default_buffer_size default_buffer_size)))"
  have "reachable server_init (server_step False) ?server"
    by (rule reachable_server_calls, rule reachable.more [OF reachable_server_new server_step.callback])
  then have "tcp_server_ok ?server"
    by (simp add: tcp_server_ok_def) (simp add: server_async_start_def set_connection_callback_def TcpServer_new_def)
  moreover have "\<not> sget TSS_stop_signaled ?server"
    by (simp add: server_async_start_def set_connection_callback_def TcpServer_new_def)
  moreover have "discovery_client_ok (snd (uclient_async_start (UdpDiscoveryClient_new name n True)))" for name n
  proof -
    have "reachable uclient_init (uclient_step False False) (snd (uclient_async_start (UdpDiscoveryClient_new name n True)))"
      by (rule reachable_uclient_calls, rule reachable_uclient_new)
    then show ?thesis
      by (simp add: discovery_client_ok_def) (simp add: uclient_async_start_def UdpDiscoveryClient_new_def)
  qed
  moreover have "discovery_server_ok (snd (userver_async_start (add_discoverable d (UdpDiscoveryServer_new ep n))))" for d ep n
  proof -
    have "reachable userver_init (userver_step False False) (snd (userver_async_start (add_discoverable d (UdpDiscoveryServer_new ep n))))"
      by (intro reachable_userver_calls reachable_userver_new)
    then show ?thesis
      by (simp add: discovery_server_ok_def) (simp add: userver_async_start_def add_discoverable_def UdpDiscoveryServer_new_def)
  qed
  ultimately show ?thesis using assms
    by (auto simp: destroy_init_def bridge_init_def Bridge_new_def set_up_discovery_def set_up_tcp_server_def Let_def
        destroy_inv_def bridge_ok_def tcp_unstopped_def clients_unstopped_def uclient_async_start_def userver_async_start_def
        UdpDiscoveryClient_new_def UdpDiscoveryServer_new_def add_discoverable_def)
qed

interpretation destructor: invariant_system destroy_init "destroy_step make_address" destroy_inv for make_address
  by unfold_locales (auto intro: destroy_init_inv destroy_step_inv)

section \<open>Properties\<close>

fun stage_number :: "destructor_stage \<Rightarrow> nat" where
  "stage_number Not_destroyed = 0"
| "stage_number (In_discovery_client _) = 1"
| "stage_number (In_discovery_server _) = 2"
| "stage_number (In_tcp_server _) = 3"
| "stage_number (In_client _ _ _ _) = 4"
| "stage_number (Destroyed _) = 5"

fun visited_clients :: "destructor_stage \<Rightarrow> string list" where
  "visited_clients (In_client _ visited _ _) = visited"
| "visited_clients (Destroyed visited) = visited"
| "visited_clients _ = []"

text \<open>Nothing of the component the destructor waits for is queued or outstanding, and where its
  theory asks for it none of its operations has failed.\<close>

fun awaited_drained :: "destructor_stage \<Rightarrow> ('ep, 'e) Bridge \<Rightarrow> bool" where
  "awaited_drained Not_destroyed b \<longleftrightarrow> True"
| "awaited_drained (In_discovery_client _) b \<longleftrightarrow> uclient_settled (discovery_client b)"
| "awaited_drained (In_discovery_server _) b \<longleftrightarrow> userver_idle (discovery_server b)"
| "awaited_drained (In_tcp_server _) b \<longleftrightarrow> (\<exists>s. tcp_server b = Some s \<and> server_idle s)"
| "awaited_drained (In_client _ _ key _) b \<longleftrightarrow> (\<exists>c. connecting_clients b key = Some c \<and> client_idle c)"
| "awaited_drained (Destroyed _) b \<longleftrightarrow> False"

lemma stop_next_client_stage:
  "fst (stop_next_client t visited keys b) = Destroyed visited \<or>
   (\<exists>waits key later. fst (stop_next_client t visited keys b) = In_client waits visited key later)"
  by (induction t visited keys b rule: stop_next_client.induct) (auto simp: split_def Let_def split: option.split)

lemma destructor_progress:
  assumes "destroy_inv (stage, b)" and "awaited_drained stage b"
  shows "fst (run_destructor t keys stage b) \<noteq> stage"
proof (cases stage)
  case (In_discovery_client waits)
  with assms have "uc_stopped_calls (discovery_client b) \<noteq> []"
    using bridge_client.drained_called [of "discovery_client b"] by (simp add: destroy_inv_def bridge_ok_def)
  with In_discovery_client show ?thesis by (simp add: split_def Let_def)
next
  case (In_discovery_server waits)
  with assms have "us_stopped_calls (discovery_server b) \<noteq> []"
    using bridge_server.drained_called [of "discovery_server b"] by (simp add: destroy_inv_def bridge_ok_def)
  with In_discovery_server show ?thesis by (simp add: split_def Let_def split: option.split)
next
  case (In_tcp_server waits)
  with assms obtain s where "tcp_server b = Some s" "srv_stopped_calls s \<noteq> []"
    by (auto dest!: bridge_tcp_server.drained_called simp: destroy_inv_def bridge_ok_def tcp_stopping_def)
  with In_tcp_server stop_next_client_stage [of t "[]" keys b] show ?thesis by auto
next
  case (In_client waits visited key later)
  with assms obtain c where "connecting_clients b key = Some c" "tcp_client_ok c" "cget CLS_stop_singaled c" "client_idle c"
    by (auto simp: destroy_inv_def bridge_ok_def stopping_client_def)
  moreover from this(2-4) have "cl_stopped_calls c \<noteq> []" by (rule bridge_tcp_client.drained_called)
  ultimately show ?thesis using In_client stop_next_client_stage [of t "visited @ [key]" later b] by auto
qed (use assms in \<open>auto simp: split_def Let_def\<close>)

text \<open>Property C14. The destructor of the bridge on a thread outside the \<open>io_context\<close>, over every
  interleaving with the components: it goes on to the next component only when the stopped callback
  of the one before has been called, once, and so for each connecting client it has visited; and it
  does not wait for a component that has drained (the discovery client without a failed send or
  wait, the TCP server without a failed accept). This is the body of \<open>~Bridge\<close>; the destructors of
  the members, which run after it, are not part of it.\<close>

theorem bridge_destructor:
  assumes "reachable destroy_init (destroy_step make_address) (stage, b)"
  shows "(1 < stage_number stage \<longrightarrow> length (uc_stopped_calls (discovery_client b)) = 1) \<and>
    (2 < stage_number stage \<longrightarrow> length (us_stopped_calls (discovery_server b)) = 1) \<and>
    (3 < stage_number stage \<longrightarrow> (\<exists>s. tcp_server b = Some s \<and> length (srv_stopped_calls s) = 1)) \<and>
    (\<forall>key \<in> set (visited_clients stage). \<exists>c. connecting_clients b key = Some c \<and> length (cl_stopped_calls c) = 1) \<and>
    (awaited_drained stage b \<longrightarrow> fst (run_destructor False keys stage b) \<noteq> stage)"
proof -
  have inv: "destroy_inv (stage, b)" by (rule destructor.reachable_inv [OF assms])
  then have "destructor_at stage b" by (simp add: destroy_inv_def)
  then have "(1 < stage_number stage \<longrightarrow> bridge_client.finished (discovery_client b)) \<and>
      (2 < stage_number stage \<longrightarrow> bridge_server.finished (discovery_server b)) \<and>
      (3 < stage_number stage \<longrightarrow> tcp_finished b) \<and> (\<forall>key \<in> set (visited_clients stage). finished_client b key)"
    by (cases stage) simp_all
  then show ?thesis
    using destructor_progress [OF inv]
    by (auto simp: bridge_client.finished_def bridge_server.finished_def tcp_finished_def bridge_tcp_server.finished_def
        finished_client_def bridge_tcp_client.finished_def)
qed

lemma destructor_hangs:
  assumes "destroy_step make_address (In_discovery_client True, b) d" and "uhanging [] (discovery_client b)"
  shows "\<exists>b'. d = (In_discovery_client True, b') \<and> uhanging [] (discovery_client b')"
  using assms(1)
proof cases
  case (component b')
  then have "discovery_client b' = discovery_client b \<or> run_discovery_client (discovery_client b) (discovery_client b')"
    using bridge_step_runs by (auto simp: runs_to_def)
  with assms(2) uhanging_step component show ?thesis by (auto simp: run_discovery_client_def)
next
  case (destructor keys)
  moreover have "uc_stopped_calls (discovery_client b) = []" using assms(2) by (simp add: uhanging_def)
  ultimately show ?thesis using assms(2) by simp
qed

text \<open>Property C39. The destructor of a bridge whose discovery client has come to rest (an empty
  datagram or a receive error has ended the receiving and a failed send the requests, which nothing
  starts again) never returns: whatever happens, it stays in the first of its calls of \<open>stop\<close>.\<close>

theorem bridge_destructor_hangs:
  assumes "reachable destroy_init (destroy_step make_address) (Not_destroyed, b)"
    and "get_flag (uds UDS_running) (uc_flags (discovery_client b))"
    and "uc_posted (discovery_client b) = [] \<and> uc_receives (discovery_client b) = 0 \<and> uc_sends (discovery_client b) = 0 \<and>
      uc_waits (discovery_client b) = 0"
    and "reachable (\<lambda>d. d = run_destructor False keys Not_destroyed b) (destroy_step make_address) (stage, b')"
  shows "stage = In_discovery_client True"
proof -
  have "destroy_inv (Not_destroyed, b)" by (rule destructor.reachable_inv [OF assms(1)])
  then have unstopped: "\<not> uget UDS_stopping (discovery_client b)" and ok: "discovery_client_ok (discovery_client b)"
    by (simp_all add: destroy_inv_def bridge_ok_def)
  have "uc_stopped_calls (discovery_client b) = []" using ok unstopped by (rule bridge_client.not_called)
  with unstopped assms(2,3) ok have start: "fst (uclient_stop False 0 (discovery_client b))"
      "uhanging [] (snd (uclient_stop False 0 (discovery_client b)))"
    by (auto simp: uclient_stop_def uclient_async_stop_def uhanging_def)
  from assms(4) have "\<exists>b''. (stage, b') = (In_discovery_client True, b'') \<and> uhanging [] (discovery_client b'')"
  proof induction
    case (start d)
    then show ?case using \<open>fst _\<close> \<open>uhanging _ _\<close> by (auto simp: split_def)
  next
    case (more d d')
    then show ?case using destructor_hangs by metis
  qed
  then show ?thesis by simp
qed

section \<open>Instances\<close>

lemma destroy_client_step:
  assumes "reachable destroy_init (destroy_step make_address) (stage, b)" and "stage_number stage < 5"
    and "uclient_step False False (discovery_client b) c" and "uc_responses c = uc_responses (discovery_client b)"
    and "uget UDS_running c = uget UDS_running (discovery_client b)" "uget UDS_stopping c = uget UDS_stopping (discovery_client b)"
  shows "reachable destroy_init (destroy_step make_address) (stage, b\<lparr>discovery_client := c\<rparr>)"
proof -
  have "bridge_step make_address b (b\<lparr>discovery_client := c\<rparr>)"
    using bridge_step.discovery [OF assms(3,5,6), of make_address] assms(4) by (simp add: deliver_responses_simps)
  moreover have "\<forall>visited. stage \<noteq> Destroyed visited" using assms(2) by auto
  ultimately have "destroy_step make_address (stage, b) (stage, b\<lparr>discovery_client := c\<rparr>)" by (rule destroy_step.component)
  with assms(1) show ?thesis by (rule reachable.more)
qed

lemma uclient_run_step: "uc_posted c = h # hs \<Longrightarrow> uclient_step t e c (uclient_run_next c)"
  using uclient_step.handler [of c "[]" h hs t e] by (simp add: uclient_run_next_def)

lemma example_bridge_destroyable:
  "reachable destroy_init (destroy_step make_address) (Not_destroyed, example_bridge)"
proof -
  have "bridge_init example_bridge" unfolding bridge_init_def example_bridge_def by blast
  then show ?thesis by (intro reachable.start) (simp add: destroy_init_def)
qed

lemma example_bridge_client:
  "discovery_client example_bridge = snd (uclient_async_start (UdpDiscoveryClient_new ''svc'' 12345 True))"
  by (simp add: example_bridge_def Bridge_new_def set_up_discovery_def set_up_tcp_server_def Let_def example_config_def)

text \<open>A bridge whose discovery client has received an empty datagram and could not send.\<close>

definition bridge_with :: "nat UdpDiscoveryClient \<Rightarrow> (nat, nat) Bridge" where
  "bridge_with c = example_bridge\<lparr>discovery_client := c\<rparr>"

lemma bridge_with_step:
  assumes "reachable destroy_init (destroy_step make_address) (stage, bridge_with c)" and "uclient_step False False c c'"
    and "stage_number stage < 5" and "uc_responses c' = uc_responses c"
    and "uget UDS_running c' = uget UDS_running c" "uget UDS_stopping c' = uget UDS_stopping c"
  shows "reachable destroy_init (destroy_step make_address) (stage, bridge_with c')"
  using destroy_client_step [OF assms(1,3), of c'] assms(2,4-6) by (simp add: bridge_with_def)

lemma started_bridge_reachable:
  "reachable destroy_init (destroy_step make_address) (Not_destroyed, bridge_with started_uclient)"
proof -
  have same: "bridge_with (snd (uclient_async_start (UdpDiscoveryClient_new ''svc'' 12345 True))) = example_bridge"
    by (simp add: bridge_with_def flip: example_bridge_client)
  show ?thesis
    unfolding started_uclient_def
  proof (rule bridge_with_step)
    show "reachable destroy_init (destroy_step make_address)
        (Not_destroyed, bridge_with (snd (uclient_async_start (UdpDiscoveryClient_new ''svc'' 12345 True))))"
      unfolding same by (rule example_bridge_destroyable)
    show "uclient_step False False (snd (uclient_async_start (UdpDiscoveryClient_new ''svc'' 12345 True)))
        (uclient_run_next (snd (uclient_async_start (UdpDiscoveryClient_new ''svc'' 12345 True))))"
      by (rule uclient_run_step [of _ UC_start "[]"])
        (simp add: uclient_async_start_def UdpDiscoveryClient_new_def upost_def)
  qed (simp_all add: uclient_run_next_def uclient_async_start_def UdpDiscoveryClient_new_def uclient_start_posted_def
      uclient_async_receive_def send_discovery_request_def uset_def upost_def udp_flags.flag_laws)
qed

lemma dead_bridge_reachable:
  "reachable destroy_init (destroy_step make_address) (Not_destroyed, bridge_with dead_uclient)"
proof -
  let ?r = "uc_received [] started_uclient"
  let ?f = "uc_sent Other_error ?r"
  have "uclient_step False False started_uclient ?r"
    using uclient_step.received [of started_uclient 0 False False "[]" 5] by (simp add: started_uclient_state uc_received_def)
  then have 1: "reachable destroy_init (destroy_step make_address) (Not_destroyed, bridge_with ?r)"
    by (rule bridge_with_step [OF started_bridge_reachable]) (simp_all add: uc_received_def)
  have "uclient_step False False ?r ?f"
    using uclient_step.send_failed [of ?r 0 False False] by (simp add: started_uclient_state uc_received_def uc_sent_def)
  then have 2: "reachable destroy_init (destroy_step make_address) (Not_destroyed, bridge_with ?f)"
    by (rule bridge_with_step [OF 1]) (simp_all add: uc_sent_def)
  have "uclient_step False False ?f (uclient_run_next ?f)"
    by (rule uclient_run_step [of _ "UC_on_response No_error 0" "[UC_on_send Other_error]"])
      (simp add: uc_sent_def uc_received_def started_uclient_state datagram_size_def)
  then have 3: "reachable destroy_init (destroy_step make_address) (Not_destroyed, bridge_with (uclient_run_next ?f))"
    by (rule bridge_with_step [OF 2]) (simp_all add: started_uclient_state uclient_run_defs datagram_size_def)
  have "uclient_step False False (uclient_run_next ?f) (uclient_run_next (uclient_run_next ?f))"
    by (rule uclient_run_step [of _ "UC_on_send Other_error" "[]"])
      (simp add: started_uclient_state uclient_run_defs datagram_size_def)
  then show ?thesis
    unfolding dead_uclient_def
    by (rule bridge_with_step [OF 3]) (simp_all add: started_uclient_state uclient_run_defs datagram_size_def)
qed

theorem bridge_destructor_hangs_witness:
  "\<exists>b. reachable destroy_init (destroy_step accept_all) (Not_destroyed, bridge_with dead_uclient) \<and>
    run_destructor False [] Not_destroyed (bridge_with dead_uclient) = (In_discovery_client True, b)"
proof -
  obtain stage b where run: "run_destructor False [] Not_destroyed (bridge_with dead_uclient) = (stage, b)" by fastforce
  have "stage = In_discovery_client True"
    by (rule bridge_destructor_hangs [OF dead_bridge_reachable [of accept_all], where keys = "[]" and b' = b])
      (simp_all add: bridge_with_def dead_uclient_state flip: run, simp add: run [unfolded bridge_with_def] reachable.start)
  with run dead_bridge_reachable [of accept_all] show ?thesis by simp
qed

text \<open>A destructor whose first \<open>stop\<close> has returned.\<close>

lemma bridge_with_destructor:
  assumes "reachable destroy_init (destroy_step make_address) (stage, bridge_with c)"
  shows "reachable destroy_init (destroy_step make_address) (run_destructor False [] stage (bridge_with c))"
proof -
  have "dom (connecting_clients (bridge_with c)) = {}" by (simp add: bridge_with_def example_bridge_state)
  then have "destroy_step make_address (stage, bridge_with c) (run_destructor False [] stage (bridge_with c))"
    by (intro destroy_step.destructor) simp_all
  with assms show ?thesis by (rule reachable.more)
qed

theorem bridge_destructor_witness:
  "\<exists>b :: (nat, nat) Bridge. reachable destroy_init (destroy_step accept_all) (In_discovery_server True, b) \<and>
    length (uc_stopped_calls (discovery_client b)) = 1"
proof -
  let ?n = "snd (uclient_async_start (UdpDiscoveryClient_new ''svc'' 12345 True)) :: nat UdpDiscoveryClient"
  let ?s = "snd (uclient_stop False 0 ?n)"
  let ?c = "uclient_run_next ?s"
  let ?d = "uclient_run_next ?c"
  let ?e = "uclient_run_next ?d"
  note defs = uclient_async_start_def UdpDiscoveryClient_new_def uclient_start_posted_def uclient_run_defs
  have same: "bridge_with ?n = example_bridge" by (simp add: bridge_with_def flip: example_bridge_client)
  have "run_destructor False [] Not_destroyed (bridge_with ?n) = (In_discovery_client True, bridge_with ?s)"
    by (simp add: bridge_with_def split_def) (simp add: defs)
  with bridge_with_destructor [of accept_all Not_destroyed ?n]
  have "reachable destroy_init (destroy_step accept_all) (In_discovery_client True, bridge_with ?s)"
    by (simp add: same example_bridge_destroyable)
  moreover have "uclient_step False False ?s ?c" by (rule uclient_run_step [of _ UC_start "[UC_cancel]"]) (simp add: defs)
  ultimately have "reachable destroy_init (destroy_step accept_all) (In_discovery_client True, bridge_with ?c)"
    by (rule bridge_with_step) (simp_all add: defs)
  moreover have "uclient_step False False ?c ?d" by (rule uclient_run_step [of _ UC_cancel "[UC_stopped 0]"]) (simp add: defs)
  ultimately have "reachable destroy_init (destroy_step accept_all) (In_discovery_client True, bridge_with ?d)"
    by (rule bridge_with_step) (simp_all add: defs)
  moreover have "uclient_step False False ?d ?e" by (rule uclient_run_step [of _ "UC_stopped 0" "[]"]) (simp add: defs)
  ultimately have "reachable destroy_init (destroy_step accept_all) (In_discovery_client True, bridge_with ?e)"
    by (rule bridge_with_step) (simp_all add: defs)
  then have "reachable destroy_init (destroy_step accept_all) (run_destructor False [] (In_discovery_client True) (bridge_with ?e))"
    by (rule bridge_with_destructor)
  moreover obtain b where "run_destructor False [] (In_discovery_client True) (bridge_with ?e) = (In_discovery_server True, b)"
  proof -
    have "uc_stopped_calls ?e = [0]" by (simp add: defs)
    moreover have "fst (userver_stop False 0 (discovery_server example_bridge))"
      by (simp add: example_bridge_def Bridge_new_def set_up_discovery_def set_up_tcp_server_def Let_def userver_stop_def
          userver_async_stop_def userver_async_start_def add_discoverable_def UdpDiscoveryServer_new_def)
    ultimately show ?thesis using that by (simp add: bridge_with_def split_def Let_def)
  qed
  ultimately have "reachable destroy_init (destroy_step accept_all) (In_discovery_server True, b)" by simp
  with bridge_destructor [OF this, of "[]"] show ?thesis by auto
qed

end
