(* ===== verification/Bridge_Progress.thy ===== *)
theory Bridge_Progress
  imports Bridge Tcp_Drain
begin

text \<open>
  Every attempt of the bridge to connect to a discovered peer comes to an end, and what it ends in.
\<close>

section \<open>The work of an attempt\<close>

lemma total_client_handlers:
  "total client_handler_work q = 6 * jobs is_resolve q + 4 * jobs is_on_resolve q + 2 * jobs is_on_connect q + jobs is_complete q
     + jobs (\<lambda>h. h = CH_cancel) q + jobs is_client_stopped q"
proof (induction q)
  case (Cons h q)
  then show ?case by (cases h) simp_all
qed simp

lemma attempt_work:
  assumes "client_inv c" and "stop_requests c = 0"
  shows "client_work c + 6 * length (completions c) \<le> 6 * attempts c"
proof -
  have inv: "phase_inv c" "stop_inv c" "completion_inv c" using assms(1) by (simp_all add: client_inv_def)
  have s: "\<not> cget CLS_stop_singaled c" using stop_never [OF inv(2) assms(2)] .
  then have z: "jobs (\<lambda>h. h = CH_cancel) (cl_posted c) = 0" "jobs is_client_stopped (cl_posted c) = 0" "stop_owed c = 0"
    using inv(1,2) assms(2) by (auto simp: phase_inv_def stop_inv_def)
  have a: "of_bool (attempting c) + jobs is_complete (cl_posted c) + length (completions c) = attempts c"
    using inv(3) assms(2) by (simp add: completion_inv_cases)
  have "6 * jobs is_resolve (cl_posted c) + (4 * jobs is_on_resolve (cl_posted c) + 5 * length (cl_resolves c))
      + (2 * jobs is_on_connect (cl_posted c) + 3 * length (cl_connects c)) \<le> 6 * of_bool (attempting c)"
    using inv(1) by (cases "cget CLS_schedule_resolving c"; cases "cget CLS_resolving c"; cases "cget CLS_connecting c")
      (simp_all add: phase_inv_def attempting_def)
  with z a show ?thesis by (simp add: client_work_def total_client_handlers)
qed

section \<open>The clients of the bridge\<close>

lemma unstopped_step:
  assumes "client_step False False c c'" and "client_inv c" and "stop_requests c = 0"
    and "cget CLS_stop_singaled c' = cget CLS_stop_singaled c"
  shows "stop_requests c' = 0"
proof -
  have "\<not> cget CLS_stop_singaled c" using assms(2,3) stop_never by (auto simp: client_inv_def)
  moreover have "stop_requests (client_run_handler h d) = stop_requests d" for h and d :: "'a Client"
    by (cases h) (simp_all add: client_async_resolve_def client_stop_posted_def client_cancel_def handle_resolve_def
      handle_connect_def Let_def split: option.split)
  moreover note assms(3,4)
  ultimately show ?thesis
    by (rule_tac client_step.cases [OF assms(1)])
      (auto simp: client_async_connect_def client_stop_def client_async_stop_def client_reset_def split: if_splits)
qed

definition unstopped_clients :: "('ep, 'e) Bridge \<Rightarrow> bool" where
  "unstopped_clients b \<longleftrightarrow> (\<forall>key c. connecting_clients b key = Some c \<longrightarrow> stop_requests c = 0)"

lemma deliver_responses_unstopped: "unstopped_clients b \<Longrightarrow> unstopped_clients (deliver_responses make_address rs b)"
proof -
  have "unstopped_clients (snd (on_discovery_response make_address r b))" if "unstopped_clients b"
    for r and b :: "('a, 'b) Bridge"
    using that by (auto simp: on_discovery_response_def on_peer_discovered_eq Let_def unstopped_clients_def
      client_async_connect_def TcpClient_new_def split: option.split if_splits)
  then show "unstopped_clients b \<Longrightarrow> unstopped_clients (deliver_responses make_address rs b)"
    unfolding deliver_responses_def by (induction rs arbitrary: b) auto
qed

lemma bridge_step_unstopped:
  assumes "bridge_step make_address b b'" and "bridge_inv b" and "unstopped_clients b"
  shows "unstopped_clients b'"
  using assms(1)
proof cases
  case discovered
  with assms(3) show ?thesis by (simp add: on_disvovered_def Let_def unstopped_clients_def)
next
  case (discovery c)
  have "unstopped_clients (b\<lparr>discovery_client := c\<rparr>)" using assms(3) by (simp add: unstopped_clients_def)
  with discovery show ?thesis by (simp add: deliver_responses_unstopped)
next
  case (client key c c')
  have "stop_requests c' = 0"
    using assms(2,3) client by (intro unstopped_step [of c c']) (auto simp: bridge_inv_def unstopped_clients_def client_ok_inv)
  with client assms(3) show ?thesis by (auto simp: unstopped_clients_def)
qed (use assms(3) in \<open>simp_all add: unstopped_clients_def\<close>)

interpretation unstopped_bridge: invariant_system bridge_init "bridge_step make_address" "\<lambda>b. bridge_inv b \<and> unstopped_clients b"
  for make_address
proof unfold_locales
  show "bridge_inv b \<and> unstopped_clients b" if "bridge_init b" for b :: "('a, 'b) Bridge"
    using that bridge_init_inv [OF that]
    by (auto simp: unstopped_clients_def bridge_init_def Bridge_new_def set_up_discovery_def set_up_tcp_server_def Let_def)
  show "bridge_inv b \<and> unstopped_clients b \<Longrightarrow> bridge_step make_address b b' \<Longrightarrow> bridge_inv b' \<and> unstopped_clients b'"
    for b b' :: "('a, 'b) Bridge" using bridge_step_inv bridge_step_unstopped by blast
qed

text \<open>What a client does on its own is a step of the bridge.\<close>

lemma client_internal_own:
  assumes "client_internal c c'"
  shows "client_step False False c c' \<and> cget CLS_stop_singaled c' = cget CLS_stop_singaled c"
proof -
  have "cget CLS_stop_singaled (client_run_handler h d) = cget CLS_stop_singaled d" for h and d :: "'a Client"
    by (cases h) (simp_all add: client_async_resolve_def client_stop_posted_def client_cancel_def handle_resolve_def
      handle_connect_def Let_def split: option.split)
  with assms show ?thesis by cases (auto intro: client_step.intros)
qed

lemma bridge_client_run:
  fixes b :: "('ep, 'e) Bridge"
  assumes "reachable bridge_init (bridge_step make_address) b" and "connecting_clients b key = Some c"
    and "(client_internal ^^ n) c c'"
  shows "\<exists>b' :: ('ep, 'e) Bridge. reachable bridge_init (bridge_step make_address) b' \<and> connecting_clients b' key = Some c'"
  using assms(3)
proof (induction n arbitrary: c')
  case 0
  with assms(1,2) show ?case by auto
next
  case (Suc n)
  then obtain d where d: "(client_internal ^^ n) c d" "client_internal d c'" by auto
  from Suc.IH [OF d(1)] obtain b' :: "('ep, 'e) Bridge" where b': "reachable bridge_init (bridge_step make_address) b'"
    "connecting_clients b' key = Some d" by blast
  note own = client_internal_own [OF d(2)] client_internal_frame [OF d(2)]
  from bridge_step.client [OF b'(2), of c' make_address] own
  have "bridge_step make_address b' (deliver_completions key (drop (length (completions d)) (completions c'))
      (b'\<lparr>connecting_clients := (connecting_clients b')(key \<mapsto> c')\<rparr>))" by simp
  from reachable.more [OF b'(1) this] show ?case by (auto simp: intro!: exI)
qed

text \<open>Property C13. A discovered peer is connected to, or the attempt has failed, after a bounded time: whatever state
  the bridge is in, the client of a peer can make at most six more steps on its own, each of them possible for the bridge;
  and when it can make no more, its callback has been called once, and the bridge holds an outgoing connection for the
  peer exactly when the callback reported success.\<close>

theorem bridge_attempts_end:
  fixes b :: "('ep, 'e) Bridge"
  assumes "reachable bridge_init (bridge_step make_address) b" and "connecting_clients b key = Some c"
    and "(client_internal ^^ n) c c'"
  shows "n \<le> 6 \<and> (\<exists>b' :: ('ep, 'e) Bridge. reachable bridge_init (bridge_step make_address) b' \<and> connecting_clients b' key = Some c' \<and>
    ((\<exists>c''. client_internal c' c'') \<or>
     (\<exists>k e. completions c' = [(k, e)] \<and> (pending_outgoing_connections b' key \<noteq> None \<longleftrightarrow> e = No_error))))"
proof -
  have inv: "client_inv c" "attempts c = 1" "stop_requests c = 0"
    using unstopped_bridge.reachable_inv [OF assms(1)] assms(2)
    by (auto simp: bridge_inv_def unstopped_clients_def client_ok_inv client_ok_def)
  have "n \<le> client_work c" using client_drain.drains [OF inv(1) assms(3)] by simp
  also have "client_work c \<le> 6" using attempt_work [OF inv(1,3)] inv(2) by simp
  finally have n: "n \<le> 6" .
  obtain b' :: "('ep, 'e) Bridge" where b': "reachable bridge_init (bridge_step make_address) b'" "connecting_clients b' key = Some c'"
    using bridge_client_run [OF assms] by blast
  have "\<exists>k e. completions c' = [(k, e)] \<and> (pending_outgoing_connections b' key \<noteq> None \<longleftrightarrow> e = No_error)"
    if "\<nexists>c''. client_internal c' c''"
  proof -
    have binv: "bridge_inv b'" using bridge.reachable_inv [OF b'(1)] .
    have c': "client_inv c'" "attempts c' = 1" "stop_requests c' = 0"
      using unstopped_bridge.reachable_inv [OF b'(1)] b'(2)
      by (auto simp: bridge_inv_def unstopped_clients_def client_ok_inv client_ok_def)
    have "\<not> attempting c'" "cl_posted c' = []"
      using that client_internal_enabled [of c'] idle_not_busy [of c'] c'(1)
      by (auto simp: client_inv_def client_busy_def attempting_def client_idle_def)
    then have "length (completions c') = 1" using c' by (simp add: client_inv_def completion_inv_cases)
    then obtain k e where ke: "completions c' = [(k, e)]" by (cases "completions c'") auto
    have "pending_outgoing_connections b' key \<noteq> None \<longleftrightarrow> succeeded c'" using binv b'(2) by (simp add: bridge_inv_def)
    with ke show ?thesis by (auto simp: succeeded_def)
  qed
  with n b' show ?thesis by blast
qed

section \<open>Instances\<close>

text \<open>A bridge that has received the reply of another one.\<close>

definition example_response :: string where
  "example_response = construct 0 ''svc'' ''10.0.0.1'' 54321"

definition responded_uclient :: "nat UdpDiscoveryClient" where
  "responded_uclient = uclient_run_next (uc_received example_response started_uclient)"

definition responded_bridge :: "(nat, nat) Bridge" where
  "responded_bridge = deliver_responses accept_all [(example_response, Some 5)] (example_bridge\<lparr>discovery_client := responded_uclient\<rparr>)"

lemma example_response_fits: "length example_response \<le> recv_buffer_size" "0 < length example_response"
  by (simp_all add: example_response_def construct_def recv_buffer_size_def to_string_int_def to_string_nat.simps)

lemma example_response_stored: "datagram_size example_response = length example_response"
  "take (length example_response) (store_datagram example_response buf) = example_response"
  using example_response_fits take_store_datagram [of example_response buf] by (simp_all add: datagram_size_def min_def)

lemma example_discovery_client: "discovery_client example_bridge = snd (uclient_async_start (UdpDiscoveryClient_new ''svc'' 12345 True))"
  by (simp add: example_bridge_def Bridge_new_def set_up_discovery_def set_up_tcp_server_def Let_def example_config_def)

lemma uclient_step_run_next: "uc_posted c \<noteq> [] \<Longrightarrow> uclient_step False False c (uclient_run_next c)"
proof (cases "uc_posted c")
  case (Cons h hs)
  have "uclient_step False False c (uclient_run_handler h (c\<lparr>uc_posted := [] @ hs\<rparr>))"
    by (rule uclient_step.handler) (simp_all add: Cons)
  with Cons show ?thesis by (simp add: uclient_run_next_def)
qed simp

lemma responded_bridge_reachable: "reachable bridge_init (bridge_step accept_all) responded_bridge"
proof -
  let ?b = "\<lambda>c. example_bridge\<lparr>discovery_client := c\<rparr>"
  let ?r = "uc_received example_response started_uclient"
  have start: "uc_posted (discovery_client example_bridge) = [UC_start]" "uc_responses (discovery_client example_bridge) = []"
    "uget f (discovery_client example_bridge) \<longleftrightarrow> f = UDS_running" for f
    by (simp_all add: example_discovery_client uclient_async_start_def UdpDiscoveryClient_new_def)
  have "bridge_step accept_all example_bridge (?b started_uclient)"
    using bridge_step.discovery [of example_bridge started_uclient accept_all] uclient_step_run_next [of "discovery_client example_bridge"]
      start started_uclient_state by (simp add: started_uclient_def example_discovery_client deliver_responses_def)
  from reachable.more [OF example_bridge_reachable this] have 1: "reachable bridge_init (bridge_step accept_all) (?b started_uclient)" .
  have "uclient_step False False started_uclient ?r"
    using uclient_step.received [of started_uclient 0 False False example_response 5] started_uclient_state by (simp add: uc_received_def)
  with bridge_step.discovery [of "?b started_uclient" ?r accept_all] started_uclient_state
  have "bridge_step accept_all (?b started_uclient) (?b ?r)" by (simp add: uc_received_def deliver_responses_def)
  from reachable.more [OF 1 this] have 2: "reachable bridge_init (bridge_step accept_all) (?b ?r)" .
  have "uclient_step False False ?r responded_uclient" unfolding responded_uclient_def
    by (rule uclient_step_run_next) (simp add: uc_received_def)
  moreover have "uc_responses responded_uclient = [(example_response, Some 5)]" "uget UDS_running responded_uclient"
    "\<not> uget UDS_stopping responded_uclient"
    using example_response_fits(2) started_uclient_state
    by (simp_all add: responded_uclient_def uclient_run_defs example_response_stored)
  ultimately have "bridge_step accept_all (?b ?r) responded_bridge"
    using bridge_step.discovery [of "?b ?r" responded_uclient accept_all] started_uclient_state
    by (simp add: uc_received_def responded_bridge_def)
  from reachable.more [OF 2 this] show ?thesis .
qed

lemma responded_bridge_client:
  "\<exists>key. connecting_clients responded_bridge key = Some (snd (client_async_connect ''10.0.0.1'' 54321 0 TcpClient_new))"
proof -
  have "parse accept_all example_response = Some \<lparr>service_name = ''svc'', ip_address = ''10.0.0.1'', port = 54321,
      endpoint = (''10.0.0.1'', 54321), timestamp_ms = 0\<rparr>"
    unfolding example_response_def using parse_construct [of "''svc''" "''10.0.0.1''" accept_all "''10.0.0.1''" 0 54321]
    by (simp add: accept_all_def)
  then show ?thesis
    by (simp add: responded_bridge_def deliver_responses_def on_discovery_response_def on_peer_discovered_eq Let_def
      example_bridge_state)
qed

theorem bridge_attempts_end_witness:
  "\<exists>b' key. reachable bridge_init (bridge_step accept_all) (b' :: (nat, nat) Bridge) \<and>
    connecting_clients b' key = Some (client_run_next (snd (client_async_connect ''10.0.0.1'' 54321 0 TcpClient_new)))"
proof -
  let ?c = "snd (client_async_connect ''10.0.0.1'' 54321 0 TcpClient_new) :: nat Client"
  obtain key where key: "connecting_clients responded_bridge key = Some ?c" using responded_bridge_client by blast
  have "client_internal ?c (client_run_next ?c)" by (rule client_internal_next) (simp add: new_client_started)
  then have "(client_internal ^^ 1) ?c (client_run_next ?c)" by (simp only: relpowp_1)
  from bridge_attempts_end [OF responded_bridge_reachable key this] show ?thesis by blast
qed

end
