(* ===== verification/Spec2Isabelle.thy ===== *)
theory Spec2Isabelle
  imports Timestamp_Line Spinlock Serial_Types Tcp_Channel Stop_Refinement Bridge_Stop Bridge_Progress
begin

text \<open>
  Verification development of \<open>eestv_lib\<close>: a C++ library of byte buffers, serialization, timestamp
  parsing, logging, asynchronous TCP connections and UDP discovery on \<open>boost::asio\<close>, and the data
  bridge built from them. Paths below are relative to \<open>src/eestv\<close>.

  \<^bold>\<open>The program and the theories that model it.\<close>

  \<^item> \<open>Prelude\<close>: machine words, undefined behaviour as an option (\<open>ub\<close>), \<open>int\<close> arithmetic that is
    undefined on overflow, character classes, \<open>std::to_string\<close>, little-endian bytes.
  \<^item> \<open>Flags\<close>: \<open>flags/flags.hpp\<close>, a set of enumerators in a \<open>uint32_t\<close>. Locale \<open>flag_enum\<close> is what
    the template asks of its enum; each state enum of the network components interprets it.
  \<^item> \<open>Linear_Buffer\<close>: \<open>data/linear_buffer.{hpp,cpp}\<close>. A pointer into the vector is an offset. Locale
    \<open>byte_queue\<close> is the contract of the buffer's clients, interpreted as \<open>lb\<close>.
  \<^item> \<open>Serial\<close>, \<open>Serial_Mux\<close>: \<open>serial/\<close>, the archives over a buffer and the multiplexer and
    demultiplexer that frame messages as type index, 16-bit size and payload. A type that has a
    \<open>serialize\<close> function is the tree of the members it visits; the pack of types is a list.
    \<open>Serial_Types\<close>: the types themselves, with the traits of \<open>serialize_helper.hpp\<close>, the check of
    \<open>allowed_types.hpp\<close>, the dispatch of \<open>operator&\<close> and which programs compile.
  \<^item> \<open>Timestamp_Steps\<close>, \<open>Timestamp_Calendar\<close>, \<open>Timestamp_Parse\<close>, \<open>Timestamp_Format\<close>, \<open>Timestamp_Grammar\<close>, \<open>Timestamp_Run\<close>,
    \<open>Timestamp_Print\<close>, \<open>Timestamp_Starts\<close>, \<open>Timestamp_Time\<close>, \<open>Timestamp_Line\<close>: \<open>timestamp/timestamp_parser.{hpp,cpp}\<close>.
    The parser steps (one C++ closure each), the contract \<open>step_contract\<close> with an interpretation for
    every step, \<open>CompileFormat\<close> against a tokenizer for the documented format language, running a
    compiled format, a printer for the round trip, the candidate start offsets in a log line,
    \<open>DateAndTime::to_time_point\<close>, and all of them together on a line with a timestamp in it.
  \<^item> \<open>Logging\<close>: \<open>logging/\<close>, the levels (a linear order), the filter, the lines, the path helpers.
  \<^item> \<open>Transitions\<close>: reachable states, the locales \<open>invariant_system\<close> (an invariant on all reachable
    states), \<open>stop_protocol\<close> (every accepted stop owes its callback one call) and \<open>stoppable\<close> (what
    the owner of a component relies on when it stops it).
  \<^item> \<open>Spinlock\<close>: \<open>threading/spinlock_mutex.hpp\<close>, any number of threads.
  \<^item> \<open>Tcp_Connection\<close>, \<open>Tcp_Server\<close>, \<open>Tcp_Client\<close>: \<open>net/connection/\<close>. \<open>Tcp_Channel\<close>: the received
    bytes, two connections with a network between them, and the multiplexer's messages over them.
  \<^item> \<open>Draining\<close>: the locale \<open>draining\<close> (a potential bounds what a component can still do on its own),
    interpreted in \<open>Tcp_Drain\<close> for the connection, the server and the client, and in \<open>Udp_Drain\<close> for the
    discovery server and client.
  \<^item> \<open>Stop_Spec\<close>: the contract of \<open>async_stop\<close> as an automaton (running, owing a callback, stopped) and the
    locale \<open>stop_implementation\<close>, the rule for refining it, interpreted for the five components in
    \<open>Stop_Refinement\<close>.
  \<^item> \<open>Discovery_String\<close>, \<open>Udp_Discovery_States\<close>, \<open>Udp_Discovery_Client\<close>, \<open>Udp_Discovery_Server\<close>:
    \<open>net/discovery/\<close>.
  \<^item> \<open>Command_Line\<close>: \<open>data_bridge/config.hpp\<close>, \<open>command_param_parser.cpp\<close>.
  \<^item> \<open>Bridge\<close>, \<open>Bridge_Stop\<close>, \<open>Bridge_Progress\<close>: \<open>data_bridge/bridge.{hpp,cpp}\<close> and \<open>net/network_utils.cpp\<close>:
    the component that runs the others, its callbacks, its destructor, and the end of its attempts to connect.

  \<^bold>\<open>How the parts interact.\<close> The bridge starts a TCP server, a discovery server that answers the
  requests for its target with a discovery string naming the TCP server's port, and a discovery
  client that broadcasts requests. A response is parsed; one with a new timestamp starts a TCP
  client, whose success, like an accepted connection, leaves a \<open>TcpConnection\<close> in the bridge. A
  connection owns two linear buffers, from which the multiplexing archives write and read messages.
\<close>

text \<open>
  \<^bold>\<open>Conventions.\<close>

  \<^item> Sequential code is a function from the state to the result and the new state, one definition
    for each C++ function, with the guards and early returns of the source. An operation with
    undefined behaviour (an index outside a string or vector, a signed overflow) is \<^const>\<open>None\<close>;
    theorems that say \<open>Some\<close> say that there is none.
  \<^item> A class on the \<open>io_context\<close> is a record of its members and of what \<open>boost::asio\<close> and the
    operating system hold for it: the posted handlers in order and the outstanding operations. A
    lambda given to \<open>boost::asio\<close> is a constructor of the handler type, and running it the function
    it calls. A step is a call of the user, the completion of an operation by the system in one of
    the ways the code distinguishes (success, abortion, another error), or one handler run by a
    thread. A cancellation completes every outstanding operation with an abortion; that includes
    composed operations (\<open>async_write\<close>, \<open>async_connect\<close>), which \<open>boost::asio\<close> may let run on when
    the cancellation falls between two of their parts. Handlers that several threads may take run in any order, so the theorems hold for every
    scheduling; \<open>one_thread\<close> restricts a step relation to the order of the queue.
  \<^item> Each member function takes the class's lock, so a step is atomic. Where a call sets a flag and
    posts after it has released the lock, the two are one step; a handler posted by another thread in
    between comes first in the queue, which the free order of handlers covers.
  \<^item> A callback given by the user is a number, and its call an entry in a log; the callbacks the code
    uses for data (the receive callback, a discoverable's reply) are functions. A
    \<open>std::function\<close> that was moved from is empty, as on the implementations the library is built
    with.
  \<^item> Fields that the class does not have (\<open>wire\<close>, \<open>queued\<close>, \<open>completions\<close>, \<open>stop_requests\<close>,
    \<open>responses\<close> and the like) record what the outside has seen; no transition reads them.
  \<^item> What the class leaves to its user is in the guards of the steps, and in the texts of the theorems
    that rest on it. \<open>receive_step\<close>: no call of \<open>start_receiving\<close> while a read is outstanding or its
    completion waits. \<open>reset\<close> of a discovery component: with \<open>early_reset\<close> as soon as every accepted
    stop has had its callback, which is what the client's header asks for; without it only when nothing
    of the component is queued or outstanding. The stop contract holds for the former, the
    theorems on datagrams and on draining are for the latter.
  \<^item> \<open>stop\<close> is the call of \<open>async_stop\<close> together with the answer whether the caller waits; the
    wait itself is the stage of the caller in \<open>Bridge_Stop\<close>.
\<close>

text \<open>
  \<^bold>\<open>What the theorems show.\<close>

  \<^item> Buffers: over any sequence of operations a linear buffer is a first-in first-out queue, and what
    every operation returns and changes, failures included.
  \<^item> Serialization: which types \<open>archive & value\<close> compiles for, and that a member \<open>serialize\<close> hides a free
    one; a value, and a stream of messages, comes back unchanged; every branch of the two multiplexing classes, with
    truncated headers, unknown types and oversized payloads; on arbitrary bytes the demultiplexer is
    memory safe and returns an object of the type it names.
  \<^item> Timestamps: \<open>CompileFormat\<close> accepts the documented grammar and compiles it in order; a compiled
    format has no undefined behaviour and computes its reference semantics; parsed fields are in
    range; printing then parsing gives the date back; \<open>to_time_point\<close> is the exact instant, and
    where it overflows. Together: a timestamp printed anywhere in a line is among the candidate offsets,
    and reading it there gives the instant back.
  \<^item> Connections, server, client and discovery: the flags, the outstanding operations and the posted
    handlers stay consistent, at most one operation of each kind is outstanding, and the stopped
    callback is called at most once for each accepted stop and exactly once when everything has
    drained; each component refines one automaton, whose state names the callback it owes. Draining terminates: a potential of the state bounds the steps after a stop request, for the
    client those of every attempt as well. The bytes sent are the bytes queued, the bytes received are the bytes that arrived, and
    the messages of one end come out at the other.
  \<^item> The bridge: a discovery reply makes the other bridge connect to the right port, every attempt ends
    within six steps of its client in a connection or a reported failure, the connections it keeps are
    those that were established, and its destructor stops the components in order.
  \<^item> Where the code does not do what it should, a theorem exhibits it: stops that wait for ever
    (\<open>tcp_server_stop_hangs\<close>, \<open>udp_client_stop_hangs\<close>, \<open>bridge_destructor_hangs\<close>), handlers that run
    after the stopped callback (\<open>tcp_connection_lost_after_stop\<close>, \<open>tcp_server_cancel_after_stop\<close>,
    \<open>tcp_client_completion_after_stop\<close>, \<open>udp_client_receive_after_stop\<close>, \<open>udp_server_send_after_stop\<close>),
    two reads into the same region (\<open>tcp_connection_double_read\<close>), two receives into one buffer after a
    documented reset (\<open>udp_client_reset_two_receives\<close>), two connections to one peer
    and none to another (\<open>bridge_same_peer_twice\<close>, \<open>bridge_peer_missed\<close>), a write that is started after the cancellation of a stop
    (\<open>tcp_connection_stop_resends\<close>), messages that are reported as sent but cut off or read as part of the
    next (\<open>mux_truncated_message_accepted\<close>, \<open>demux_takes_next_message\<close>), a stop that reports success on an
    idle client (\<open>tcp_client_stop_when_idle\<close>), and the limits of the discovery string.

  \<^bold>\<open>Bounds.\<close> Timestamp formats and inputs have up to \<open>max_input\<close> = 2147483632 characters, sixteen
  below the largest \<open>int\<close>, so that \<open>index + 9\<close> does not overflow; the code indexes with \<open>int\<close>. The
  path helpers take C strings without an inner zero byte. Clocks in the discovery theorems lie
  between the epoch and \<open>2^63\<close> nanoseconds. All loops are structural recursions or have a termination
  proof; no definition uses fuel. The potentials (\<open>conn_work\<close>, \<open>server_work\<close>, \<open>client_work\<close>, \<open>userver_work\<close>,
  \<open>uclient_work\<close>) are bounds on runs that theorems prove, not limits built into a definition. Sizes are natural numbers: a \<open>std::size_t\<close> cannot exceed the memory
  that holds the bytes it counts. The counters of the bridge are 64-bit words.

  \<^bold>\<open>Parameters.\<close> Code outside the repository is an argument of the definitions: \<open>make_address\<close>, the
  clock, \<open>mktime\<close> (\<open>timegm\<close>, which POSIX fixes, is defined on the proleptic calendar),
  \<open>program_options\<close>, the socket calls of \<open>get_local_address_for_remote\<close>. Sockets, resolver, acceptor
  and timer appear as the steps of the operating system.

  \<^bold>\<open>Not modelled.\<close> Getters that only return a member (the bridge's counts, the sockets and
  endpoints); the texts of log messages and of the help; memory orders (all atomics are sequentially
  consistent); exceptions of the allocator and of socket construction; the lifetime of objects,
  except as handlers left in a queue when a stop has returned; the destructors of the members of the
  bridge, after the body of its own; the build files and the tests.
\<close>

end
